(* ===== verification/M_Prelude.thy ===== *)
theory M_Prelude
  imports Main "HOL-Library.Word" "HOL-Library.Multiset" "HOL-Library.Monad_Syntax"
begin

unbundle bit_operations_syntax

text \<open>
  Vocabulary shared by the component theories: the C integer types, the wrap-around of
  \<open>size_t\<close>, the null pointer, and memory blocks.

  A block of memory is a list, one entry per array element. Every access goes through
  \<open>arr_get\<close>, \<open>arr_set\<close>, \<open>mem_set\<close>, \<open>mem_copy\<close> and \<open>mem_move\<close>, which give
  \<open>None\<close> when the access leaves the block. An operation whose model is \<open>None\<close> therefore
  has touched memory it does not own, and a theorem that an operation gives \<open>Some\<close> is a
  memory-safety theorem.
\<close>

section \<open>Integers and pointers\<close>

type_synonym M_uint8 = "8 word"
type_synonym M_uint16 = "16 word"
type_synonym M_uint32 = "32 word"
type_synonym M_uint64 = "64 word"
type_synonym bytes = "M_uint8 list"

text \<open>The null pointer of an opaque pointer type.\<close>

abbreviation (input) NULL :: "'a::zero" where
  "NULL \<equiv> 0"

text \<open>A pointer to a value is the value or \<open>NULL\<close>.\<close>

instantiation option :: (type) zero
begin

definition zero_option :: "'a option" where
  "zero_option = None"

instance ..

end

text \<open>
  \<open>size_t\<close> values are natural numbers below \<open>2 ^ 64\<close>; the operations that can wrap around
  are written with \<open>size_sub\<close>, \<open>size_add\<close> and \<open>size_mul\<close>.
\<close>

definition SIZE_MOD :: nat where
  "SIZE_MOD = 2 ^ 64"

lemma SIZE_MOD_gt [simp]: "1 < SIZE_MOD" "Suc 0 < SIZE_MOD" "0 < SIZE_MOD"
  by (simp_all add: SIZE_MOD_def)

definition size_add :: "nat \<Rightarrow> nat \<Rightarrow> nat" where
  "size_add a b = (a + b) mod SIZE_MOD"

definition size_sub :: "nat \<Rightarrow> nat \<Rightarrow> nat" where
  "size_sub a b = (a + (SIZE_MOD - b mod SIZE_MOD)) mod SIZE_MOD"

definition size_mul :: "nat \<Rightarrow> nat \<Rightarrow> nat" where
  "size_mul a b = (a * b) mod SIZE_MOD"

lemma size_add_small [simp]: "a + b < SIZE_MOD \<Longrightarrow> size_add a b = a + b"
  by (simp add: size_add_def)

lemma size_mul_small [simp]: "a * b < SIZE_MOD \<Longrightarrow> size_mul a b = a * b"
  by (simp add: size_mul_def)

lemma size_sub_le [simp]:
  assumes "b \<le> a" and "a < SIZE_MOD"
  shows "size_sub a b = a - b"
proof -
  have "b mod SIZE_MOD = b" using assms by simp
  then have "a + (SIZE_MOD - b mod SIZE_MOD) = (a - b) + SIZE_MOD" using assms by simp
  then have "size_sub a b = ((a - b) + SIZE_MOD) mod SIZE_MOD" by (simp only: size_sub_def)
  also have "\<dots> = (a - b) mod SIZE_MOD" by (rule mod_add_self2)
  finally show ?thesis using assms by simp
qed

lemma size_sub_wrap:
  assumes "a < b" and "b < SIZE_MOD"
  shows "size_sub a b = SIZE_MOD - (b - a)"
proof -
  have "b mod SIZE_MOD = b" using assms by simp
  then have "a + (SIZE_MOD - b mod SIZE_MOD) = SIZE_MOD - (b - a)" using assms by simp
  with assms show ?thesis by (simp add: size_sub_def)
qed

lemma size_sub_self [simp]: "size_sub a a = 0"
proof -
  have "a mod SIZE_MOD < SIZE_MOD" by simp
  then have "a + (SIZE_MOD - a mod SIZE_MOD) = a div SIZE_MOD * SIZE_MOD + SIZE_MOD"
    using div_mult_mod_eq [of a SIZE_MOD] by linarith
  then show ?thesis by (simp add: size_sub_def)
qed

lemma size_sub_less [simp]: "size_sub a b < SIZE_MOD"
  by (simp add: size_sub_def)

lemma size_add_sub_one_wrap: "n < SIZE_MOD \<Longrightarrow> size_add (size_sub (size_sub n n) 1) 1 = 0"
  by (simp add: size_sub_wrap [of 0 "Suc 0"] size_add_def)

section \<open>Memory blocks\<close>

definition arr_get :: "'a list \<Rightarrow> nat \<Rightarrow> 'a option" where
  "arr_get xs i = (if i < length xs then Some (xs ! i) else None)"

definition arr_set :: "'a list \<Rightarrow> nat \<Rightarrow> 'a \<Rightarrow> 'a list option" where
  "arr_set xs i v = (if i < length xs then Some (xs[i := v]) else None)"

text \<open>\<open>M_mem_copy\<close> of the values \<open>vs\<close> to offset \<open>dst\<close>.\<close>

definition mem_copy :: "'a list \<Rightarrow> nat \<Rightarrow> 'a list \<Rightarrow> 'a list option" where
  "mem_copy xs dst vs =
     (if dst + length vs \<le> length xs
      then Some (take dst xs @ vs @ drop (dst + length vs) xs) else None)"

definition mem_set :: "'a list \<Rightarrow> nat \<Rightarrow> 'a \<Rightarrow> nat \<Rightarrow> 'a list option" where
  "mem_set xs dst v n = mem_copy xs dst (replicate n v)"

text \<open>\<open>M_mem_move\<close> inside one block: \<open>n\<close> entries from \<open>src\<close> to \<open>dst\<close>.\<close>

definition mem_move :: "'a list \<Rightarrow> nat \<Rightarrow> nat \<Rightarrow> nat \<Rightarrow> 'a list option" where
  "mem_move xs dst src n =
     (if src + n \<le> length xs then mem_copy xs dst (take n (drop src xs)) else None)"

text \<open>\<open>M_realloc\<close> to \<open>n\<close> entries; entries past the old end are unspecified in C, here \<open>f\<close>.\<close>

definition mem_realloc :: "'a \<Rightarrow> 'a list \<Rightarrow> nat \<Rightarrow> 'a list" where
  "mem_realloc f xs n = take n xs @ replicate (n - length xs) f"

named_theorems mem_defs \<open>the memory operations, unfolded\<close>

declare arr_get_def [mem_defs] arr_set_def [mem_defs] mem_copy_def [mem_defs]
  mem_set_def [mem_defs] mem_move_def [mem_defs]

lemma arr_get_Some_iff: "arr_get xs i = Some v \<longleftrightarrow> i < length xs \<and> xs ! i = v"
  by (auto simp: arr_get_def)

lemma arr_set_Some_iff: "arr_set xs i v = Some ys \<longleftrightarrow> i < length xs \<and> ys = xs[i := v]"
  by (auto simp: arr_set_def)

lemma length_mem_copy: "mem_copy xs dst vs = Some ys \<Longrightarrow> length ys = length xs"
  by (auto simp: mem_copy_def split: if_splits)

lemma length_mem_move: "mem_move xs dst src n = Some ys \<Longrightarrow> length ys = length xs"
  by (auto simp: mem_move_def dest: length_mem_copy split: if_splits)

lemma length_mem_realloc [simp]: "length (mem_realloc f xs n) = n"
  by (simp add: mem_realloc_def)

section \<open>Windows of a block\<close>

text \<open>\<open>window s n xs\<close> is the run of \<open>n\<close> entries that starts at \<open>s\<close>.\<close>

definition window :: "nat \<Rightarrow> nat \<Rightarrow> 'a list \<Rightarrow> 'a list" where
  "window s n xs = take n (drop s xs)"

lemma length_window [simp]: "s + n \<le> length xs \<Longrightarrow> length (window s n xs) = n"
  by (simp add: window_def)

lemma nth_window [simp]: "i < n \<Longrightarrow> s + n \<le> length xs \<Longrightarrow> window s n xs ! i = xs ! (s + i)"
  by (simp add: window_def)

lemma window_0 [simp]: "window s 0 xs = []"
  by (simp add: window_def)

lemma window_mem_realloc:
  assumes "s + n \<le> length xs" and "s + n \<le> m"
  shows "window s n (mem_realloc f xs m) = window s n xs"
  using assms by (simp add: window_def mem_realloc_def take_drop min_def add.commute)

lemma nth_mem_copy:
  assumes "mem_copy xs dst vs = Some ys" and "i < length xs"
  shows "ys ! i = (if dst \<le> i \<and> i < dst + length vs then vs ! (i - dst) else xs ! i)"
proof -
  from assms(1) have le: "dst + length vs \<le> length xs"
    and ys: "ys = take dst xs @ vs @ drop (dst + length vs) xs"
    by (simp_all add: mem_copy_def split: if_splits)
  from le have "length (take dst xs) = dst" by simp
  with le assms(2) show ?thesis
    by (cases "i < dst"; cases "i < dst + length vs") (auto simp: ys nth_append)
qed

end
