(* ===== verification/Bithacks.thy ===== *)
theory Bithacks
  imports M_Prelude
begin

text \<open>
  The bit tricks of \<^verbatim>\<open>src/base/math/m_bithacks.c\<close>: powers of two, rounding to a power of two,
  the logarithm by de Bruijn multiplication, sign extension and population counts, all at the
  width the source has.
\<close>

section \<open>Definitions\<close>

definition M_uint32_is_power_of_two :: "M_uint32 \<Rightarrow> bool" where
  "M_uint32_is_power_of_two n =
     (if n = 0 then False else if n AND (n - 1) \<noteq> 0 then False else True)"

definition M_uint64_is_power_of_two :: "M_uint64 \<Rightarrow> bool" where
  "M_uint64_is_power_of_two n =
     (if n = 0 then False else if n AND (n - 1) \<noteq> 0 then False else True)"

definition M_size_t_is_power_of_two :: "M_uint64 \<Rightarrow> bool" where
  "M_size_t_is_power_of_two n =
     (if n = 0 then False else if n AND (n - 1) \<noteq> 0 then False else True)"

definition M_uint32_round_down_to_power_of_two :: "M_uint32 \<Rightarrow> M_uint32" where
  "M_uint32_round_down_to_power_of_two n =
     (let n = n OR drop_bit 1 n; n = n OR drop_bit 2 n; n = n OR drop_bit 4 n;
          n = n OR drop_bit 8 n; n = n OR drop_bit 16 n
      in n - drop_bit 1 n)"

definition M_uint64_round_down_to_power_of_two :: "M_uint64 \<Rightarrow> M_uint64" where
  "M_uint64_round_down_to_power_of_two n =
     (let n = n OR drop_bit 1 n; n = n OR drop_bit 2 n; n = n OR drop_bit 4 n;
          n = n OR drop_bit 8 n; n = n OR drop_bit 16 n; n = n OR drop_bit 32 n
      in n - drop_bit 1 n)"

text \<open>\<open>size_t\<close> has 64 bits here, so the \<open>size_t\<close> variants take their first branch.\<close>

definition M_size_t_round_down_to_power_of_two :: "M_uint64 \<Rightarrow> M_uint64" where
  "M_size_t_round_down_to_power_of_two n = M_uint64_round_down_to_power_of_two n"

definition M_uint32_round_up_to_power_of_two :: "M_uint32 \<Rightarrow> M_uint32" where
  "M_uint32_round_up_to_power_of_two n =
     (let n = n - 1; n = n OR drop_bit 1 n; n = n OR drop_bit 2 n; n = n OR drop_bit 4 n;
          n = n OR drop_bit 8 n; n = n OR drop_bit 16 n
      in n + 1)"

definition M_uint64_round_up_to_power_of_two :: "M_uint64 \<Rightarrow> M_uint64" where
  "M_uint64_round_up_to_power_of_two n =
     (let n = n - 1; n = n OR drop_bit 1 n; n = n OR drop_bit 2 n; n = n OR drop_bit 4 n;
          n = n OR drop_bit 8 n; n = n OR drop_bit 16 n; n = n OR drop_bit 32 n
      in n + 1)"

definition M_size_t_round_up_to_power_of_two :: "M_uint64 \<Rightarrow> M_uint64" where
  "M_size_t_round_up_to_power_of_two n = M_uint64_round_up_to_power_of_two n"

definition tab32 :: "M_uint8 list" where
  "tab32 = [
     0,  1, 28,  2, 29, 14, 24,  3,
    30, 22, 20, 15, 25, 17,  4,  8,
    31, 27, 13, 23, 21, 19, 16,  7,
    26, 12, 18,  6, 11,  5, 10,  9]"

definition M_uint32_log2 :: "M_uint32 \<Rightarrow> M_uint8" where
  "M_uint32_log2 n =
     (let n = (if \<not> M_uint32_is_power_of_two n then M_uint32_round_down_to_power_of_two n else n)
      in tab32 ! unat (drop_bit 27 (n * 0x077CB531)))"

definition tab64 :: "M_uint8 list" where
  "tab64 = [
    63,  0, 58,  1, 59, 47, 53,  2,
    60, 39, 48, 27, 54, 33, 42,  3,
    61, 51, 37, 40, 49, 18, 28, 20,
    55, 30, 34, 11, 43, 14, 22,  4,
    62, 57, 46, 52, 38, 26, 32, 41,
    50, 36, 17, 19, 29, 10, 13, 21,
    56, 45, 25, 31, 35, 16,  9, 12,
    44, 24, 15,  8, 23,  7,  6,  5]"

definition M_uint64_log2 :: "M_uint64 \<Rightarrow> M_uint8" where
  "M_uint64_log2 n =
     (let n = (if \<not> M_uint64_is_power_of_two n then M_uint64_round_down_to_power_of_two n else n)
      in tab64 ! unat (drop_bit 58 (n * 0x07EDD5E59A4E28C2)))"

text \<open>The result is read as a signed 64 bit value (\<open>sint\<close>), the cast to \<open>M_int64\<close>.\<close>

definition M_sign_extend :: "M_uint64 \<Rightarrow> nat \<Rightarrow> M_uint64" where
  "M_sign_extend x num_bits =
     (let mask = push_bit (num_bits - 1) 1 in (x XOR mask) - mask)"

text \<open>The macros \<open>B2\<close>, \<open>B4\<close>, \<open>B6\<close> that build the table of \<open>M_uint8_popcount\<close>.\<close>

definition B2 :: "M_uint8 \<Rightarrow> M_uint8 list" where
  "B2 n = [n, n + 1, n + 1, n + 2]"

definition B4 :: "M_uint8 \<Rightarrow> M_uint8 list" where
  "B4 n = B2 n @ B2 (n + 1) @ B2 (n + 1) @ B2 (n + 2)"

definition B6 :: "M_uint8 \<Rightarrow> M_uint8 list" where
  "B6 n = B4 n @ B4 (n + 1) @ B4 (n + 1) @ B4 (n + 2)"

definition M_uint8_popcount :: "M_uint8 \<Rightarrow> M_uint8" where
  "M_uint8_popcount x = (B6 0 @ B6 1 @ B6 1 @ B6 2) ! unat x"

text \<open>The loop of \<open>M_uint64_popcount\<close>; it ends because \<open>num AND (num - 1)\<close> is smaller.\<close>

lemma and_pred_less:
  fixes num :: "'a::len word"
  assumes "num \<noteq> 0"
  shows "unat (num AND (num - 1)) < unat num"
proof -
  have "num AND (num - 1) \<le> num - 1"
    by (rule word_and_le1)
  also have "num - 1 < num"
    using assms by (simp add: word_less_nat_alt unat_minus_one unat_gt_0)
  finally show ?thesis
    by (simp add: word_less_nat_alt)
qed

function popcount_loop :: "M_uint64 \<Rightarrow> M_uint8 \<Rightarrow> M_uint8" where
  "popcount_loop num cnt =
     (if num \<noteq> 0 then popcount_loop (num AND (num - 1)) (cnt + 1) else cnt)"
  by pat_completeness auto
termination
  by (relation "measure (\<lambda>(num, cnt). unat num)") (auto simp: and_pred_less)

declare popcount_loop.simps [simp del]

definition M_uint64_popcount :: "M_uint64 \<Rightarrow> M_uint8" where
  "M_uint64_popcount num = popcount_loop num 0"

section \<open>The highest set bit\<close>

text \<open>\<open>top_bit k n\<close>: bit \<open>k\<close> is the highest bit set in \<open>n\<close>.\<close>

definition top_bit :: "nat \<Rightarrow> 'a::len word \<Rightarrow> bool" where
  "top_bit k n \<longleftrightarrow> 2 ^ k \<le> unat n \<and> unat n < 2 ^ Suc k"

lemma top_bit_ex: "n \<noteq> 0 \<Longrightarrow> \<exists>k. top_bit k n"
  using ex_power_ivl1 [of 2 "unat n"] by (simp add: top_bit_def unat_gt_0 Suc_le_eq)

lemma top_bit_bit: "top_bit k n \<Longrightarrow> bit n k"
proof -
  assume "top_bit k n"
  then have "unat n div 2 ^ k = 1"
    by (simp add: top_bit_def div_nat_eqI)
  then have "bit (unat n) k" by (simp add: bit_iff_odd)
  then show ?thesis by (simp add: bit_unsigned_iff)
qed

lemma top_bit_above: "top_bit k n \<Longrightarrow> k < j \<Longrightarrow> \<not> bit n j"
proof -
  assume "top_bit k n" and "k < j"
  then have "unat n < 2 ^ j"
    using power_increasing [of "Suc k" j "2::nat"] by (simp add: top_bit_def)
  then have "\<not> bit (unat n) j" by (simp add: bit_iff_odd)
  then show ?thesis by (simp add: bit_unsigned_iff)
qed

lemma top_bit_less: "top_bit k (n::'a::len word) \<Longrightarrow> k < LENGTH('a)"
  using top_bit_bit [of k n] by (auto dest: bit_imp_le_length)

lemma top_bit_unique: "top_bit k n \<Longrightarrow> top_bit j n \<Longrightarrow> k = j"
  using top_bit_bit top_bit_above by (metis linorder_neqE_nat)

lemma unat_power_two: "k < LENGTH('a) \<Longrightarrow> unat (2 ^ k :: 'a::len word) = 2 ^ k"
  using unsigned_of_nat [where ?'b = 'a and ?'a = nat, of "2 ^ k"]
  by (simp add: take_bit_eq_mod)

lemma top_bit_power_two: "k < LENGTH('a) \<Longrightarrow> top_bit k (2 ^ k :: 'a::len word)"
  by (simp add: top_bit_def unat_power_two)

section \<open>Smearing\<close>

lemma smear_step:
  fixes n x :: "'a::len word"
  assumes "\<And>i. bit x i \<longleftrightarrow> (\<exists>j<m. bit n (i + j))" and "m' = m + m"
  shows "bit (x OR drop_bit m x) i \<longleftrightarrow> (\<exists>j<m'. bit n (i + j))"
  unfolding assms(2)
proof
  assume "bit (x OR drop_bit m x) i"
  then consider "bit x i" | "bit x (i + m)"
    by (auto simp: bit_or_iff bit_drop_bit_eq add.commute)
  then show "\<exists>j<m + m. bit n (i + j)"
  proof cases
    case 1
    then show ?thesis using assms(1) trans_less_add1 by blast
  next
    case 2
    then obtain j where "j < m" and "bit n (i + m + j)" using assms(1) by blast
    then show ?thesis by (intro exI [of _ "m + j"]) (simp add: add.assoc)
  qed
next
  assume "\<exists>j<m + m. bit n (i + j)"
  then obtain j where j: "j < m + m" "bit n (i + j)" by blast
  show "bit (x OR drop_bit m x) i"
  proof (cases "j < m")
    case True
    with j assms(1) [of i] have "bit x i" by blast
    then show ?thesis by (simp add: bit_or_iff)
  next
    case False
    with j assms(1) [of "i + m"] have "bit x (i + m)"
      by (auto intro: exI [of _ "j - m"])
    then show ?thesis by (simp add: bit_or_iff bit_drop_bit_eq add.commute)
  qed
qed

lemma smear_full:
  fixes n y :: "'a::len word"
  assumes bits: "\<And>i. bit y i \<longleftrightarrow> (\<exists>j<m. bit n (i + j))" and m: "m = LENGTH('a)"
    and top: "top_bit k n"
  shows "y = mask (Suc k)"
proof (rule bit_word_eqI)
  fix i assume "i < LENGTH('a)"
  have "(\<exists>j<LENGTH('a). bit n (i + j)) \<longleftrightarrow> i \<le> k"
  proof
    assume "\<exists>j<LENGTH('a). bit n (i + j)"
    then obtain j where "bit n (i + j)" by blast
    then have "i + j \<le> k" using top_bit_above [OF top] not_less by blast
    then show "i \<le> k" by simp
  next
    assume "i \<le> k"
    moreover have "k < LENGTH('a)" using top by (rule top_bit_less)
    ultimately show "\<exists>j<LENGTH('a). bit n (i + j)"
      using top_bit_bit [OF top] by (intro exI [of _ "k - i"]) auto
  qed
  with m bits [of i] \<open>i < LENGTH('a)\<close> show "bit y i = bit (mask (Suc k) :: 'a word) i"
    by (simp add: bit_mask_iff less_Suc_eq_le)
qed

definition smear32 :: "M_uint32 \<Rightarrow> M_uint32" where
  "smear32 n =
     (let n = n OR drop_bit 1 n; n = n OR drop_bit 2 n; n = n OR drop_bit 4 n;
          n = n OR drop_bit 8 n; n = n OR drop_bit 16 n in n)"

definition smear64 :: "M_uint64 \<Rightarrow> M_uint64" where
  "smear64 n =
     (let n = n OR drop_bit 1 n; n = n OR drop_bit 2 n; n = n OR drop_bit 4 n;
          n = n OR drop_bit 8 n; n = n OR drop_bit 16 n; n = n OR drop_bit 32 n in n)"

lemma smear32_0 [simp]: "smear32 0 = 0"
  by (simp add: smear32_def)

lemma smear64_0 [simp]: "smear64 0 = 0"
  by (simp add: smear64_def)

lemma smear32_top:
  assumes "top_bit k n"
  shows "smear32 n = mask (Suc k)"
proof -
  have s0: "\<And>i. bit n i \<longleftrightarrow> (\<exists>j<1. bit n (i + j))" by simp
  have e: "(2::nat) = 1 + 1" "(4::nat) = 2 + 2" "(8::nat) = 4 + 4" "(16::nat) = 8 + 8" "(32::nat) = 16 + 16" by simp_all
  note s1 = smear_step [OF s0 e(1)]
  note s2 = smear_step [OF s1 e(2)]
  note s3 = smear_step [OF s2 e(3)]
  note s4 = smear_step [OF s3 e(4)]
  note s5 = smear_step [OF s4 e(5)]
  show ?thesis
    unfolding smear32_def Let_def by (rule smear_full [OF s5 _ assms]) simp
qed

lemma smear64_top:
  assumes "top_bit k n"
  shows "smear64 n = mask (Suc k)"
proof -
  have s0: "\<And>i. bit n i \<longleftrightarrow> (\<exists>j<1. bit n (i + j))" by simp
  have e: "(2::nat) = 1 + 1" "(4::nat) = 2 + 2" "(8::nat) = 4 + 4" "(16::nat) = 8 + 8" "(32::nat) = 16 + 16" "(64::nat) = 32 + 32" by simp_all
  note s1 = smear_step [OF s0 e(1)]
  note s2 = smear_step [OF s1 e(2)]
  note s3 = smear_step [OF s2 e(3)]
  note s4 = smear_step [OF s3 e(4)]
  note s5 = smear_step [OF s4 e(5)]
  note s6 = smear_step [OF s5 e(6)]
  show ?thesis
    unfolding smear64_def Let_def by (rule smear_full [OF s6 _ assms]) simp
qed

lemma round_down_smear:
  "M_uint32_round_down_to_power_of_two n32 = smear32 n32 - drop_bit 1 (smear32 n32)"
  "M_uint64_round_down_to_power_of_two n64 = smear64 n64 - drop_bit 1 (smear64 n64)"
  by (simp_all only: M_uint32_round_down_to_power_of_two_def smear32_def
    M_uint64_round_down_to_power_of_two_def smear64_def Let_def)

lemma round_up_smear:
  "M_uint32_round_up_to_power_of_two n32 = smear32 (n32 - 1) + 1"
  "M_uint64_round_up_to_power_of_two n64 = smear64 (n64 - 1) + 1"
  by (simp_all only: M_uint32_round_up_to_power_of_two_def smear32_def
    M_uint64_round_up_to_power_of_two_def smear64_def Let_def)

section \<open>Rounding to a power of two\<close>

lemma mask_minus_half: "mask (Suc k) - drop_bit 1 (mask (Suc k)) = (2 ^ k :: 'a::len word)"
  if "k < LENGTH('a)"
proof -
  have "drop_bit 1 (mask (Suc k)) = (mask k :: 'a word)"
    using that by (intro bit_word_eqI) (auto simp: bit_simps)
  then show ?thesis by (simp add: mask_eq_decr_exp)
qed

lemma round_down_top:
  "top_bit k n32 \<Longrightarrow> M_uint32_round_down_to_power_of_two n32 = 2 ^ k"
  "top_bit k n64 \<Longrightarrow> M_uint64_round_down_to_power_of_two n64 = 2 ^ k"
  by (simp_all only: round_down_smear smear32_top smear64_top mask_minus_half [OF top_bit_less])

lemma round_up_top:
  "top_bit k (n32 - 1) \<Longrightarrow> M_uint32_round_up_to_power_of_two n32 = 2 ^ Suc k"
  "top_bit k (n64 - 1) \<Longrightarrow> M_uint64_round_up_to_power_of_two n64 = 2 ^ Suc k"
  by (simp_all add: round_up_smear smear32_top smear64_top mask_eq_decr_exp)

lemma power_of_two_iff:
  fixes n :: "'a::len word"
  assumes "top_bit k n"
  shows "n AND (n - 1) = 0 \<longleftrightarrow> n = 2 ^ k"
proof
  assume and0: "n AND (n - 1) = 0"
  show "n = 2 ^ k"
  proof (rule ccontr)
    assume "n \<noteq> 2 ^ k"
    then have "unat n \<noteq> 2 ^ k"
      using unat_power_two [OF top_bit_less [OF assms]] by (metis unsigned_word_eqI)
    moreover have "n \<noteq> 0" using assms by (auto simp: top_bit_def)
    then have "unat (n - 1) = unat n - 1" by (rule unat_minus_one)
    ultimately have "top_bit k (n - 1)" using assms by (auto simp: top_bit_def)
    then have "bit (n AND (n - 1)) k" using assms by (simp add: bit_and_iff top_bit_bit)
    with and0 show False by simp
  qed
next
  assume n: "n = 2 ^ k"
  show "n AND (n - 1) = 0"
    using n by (intro bit_word_eqI) (auto simp: bit_simps simp flip: mask_eq_decr_exp)
qed

lemma is_power_of_two_top:
  "top_bit k n32 \<Longrightarrow> M_uint32_is_power_of_two n32 \<longleftrightarrow> n32 = 2 ^ k"
  "top_bit k n64 \<Longrightarrow> M_uint64_is_power_of_two n64 \<longleftrightarrow> n64 = 2 ^ k"
  using top_bit_less [of k n32] top_bit_less [of k n64]
  by (auto simp: M_uint32_is_power_of_two_def M_uint64_is_power_of_two_def power_of_two_iff
      top_bit_def)


lemma M_uint64_round_up_least:
  assumes "0 < unat n" and "unat n \<le> 2 ^ 63"
  shows "\<exists>k. unat (M_uint64_round_up_to_power_of_two n) = 2 ^ k
           \<and> unat n \<le> 2 ^ k \<and> 2 ^ k < 2 * unat n"
proof (cases "n = 1")
  case True
  then show ?thesis by (intro exI [of _ 0]) (simp add: round_up_smear)
next
  case False
  have "n \<noteq> 0" using assms(1) by auto
  then have pred: "unat (n - 1) = unat n - 1" by (rule unat_minus_one)
  obtain k where top: "top_bit k (n - 1)"
    using top_bit_ex [of "n - 1"] False by auto
  have "2 ^ k < unat n" using top pred assms(1) unfolding top_bit_def by linarith
  with assms(2) have "(2::nat) ^ k < 2 ^ 63" by (rule less_le_trans [rotated])
  then have "k < 63" by (rule power_less_imp_less_exp [rotated]) simp
  then have "unat (M_uint64_round_up_to_power_of_two n) = 2 ^ Suc k"
    using round_up_top(2) [OF top] unat_power_two [where 'a = 64, of "Suc k"] by simp
  moreover have "unat n \<le> 2 ^ Suc k" and "2 ^ Suc k < 2 * unat n"
    using top pred assms(1) by (auto simp: top_bit_def)
  ultimately show ?thesis by blast
qed

section \<open>The de Bruijn logarithm\<close>

lemma tab32_power: "k < 32 \<Longrightarrow> tab32 ! unat (drop_bit 27 (2 ^ k * 0x077CB531 :: M_uint32)) = of_nat k"
proof -
  have "list_all (\<lambda>k. tab32 ! unat (drop_bit 27 (2 ^ k * 0x077CB531 :: M_uint32)) = of_nat k) [0..<32]"
    by code_simp
  moreover assume "k < 32"
  ultimately show ?thesis by (simp add: list_all_iff)
qed

lemma tab64_power:
  "k < 64 \<Longrightarrow> tab64 ! unat (drop_bit 58 (2 ^ k * 0x07EDD5E59A4E28C2 :: M_uint64)) = of_nat k"
proof -
  have "list_all (\<lambda>k. tab64 ! unat (drop_bit 58 (2 ^ k * 0x07EDD5E59A4E28C2 :: M_uint64)) = of_nat k)
      [0..<64]"
    by code_simp
  moreover assume "k < 64"
  ultimately show ?thesis by (simp add: list_all_iff)
qed

lemma unat_of_nat_small: "k < 256 \<Longrightarrow> unat (of_nat k :: M_uint8) = k"
  by (simp add: unat_of_nat)

lemma log2_top:
  "top_bit k n32 \<Longrightarrow> unat (M_uint32_log2 n32) = k"
  "top_bit k n64 \<Longrightarrow> unat (M_uint64_log2 n64) = k"
  using top_bit_less [of k n32] top_bit_less [of k n64]
  by (auto simp: M_uint32_log2_def M_uint64_log2_def Let_def is_power_of_two_top round_down_top
      tab32_power tab64_power unat_of_nat_small)

section \<open>Population count\<close>

definition bits_set :: "'a::semiring_bits \<Rightarrow> nat set" where
  "bits_set a = {i. bit a i}"

lemma bits_set_nat_rec:
  fixes n :: nat
  shows "bits_set n = (if odd n then {0} else {}) \<union> Suc ` bits_set (n div 2)"
proof -
  have "i \<in> bits_set n \<longleftrightarrow> i \<in> (if odd n then {0} else {}) \<union> Suc ` bits_set (n div 2)" for i
    by (cases i) (auto simp: bits_set_def bit_0 bit_Suc)
  then show ?thesis by blast
qed

lemma finite_bits_set_nat [simp]: "finite (bits_set (n::nat))"
proof (induction n rule: less_induct)
  case (less n)
  show ?case
  proof (cases "n = 0")
    case True
    then show ?thesis by (simp add: bits_set_def)
  next
    case False
    with less [of "n div 2"] show ?thesis by (subst bits_set_nat_rec) simp
  qed
qed

lemma card_bits_set_nat_rec:
  fixes n :: nat
  shows "card (bits_set n) = n mod 2 + card (bits_set (n div 2))"
proof -
  have "card (Suc ` bits_set (n div 2)) = card (bits_set (n div 2))"
    by (simp add: card_image)
  then show ?thesis
    by (subst bits_set_nat_rec) (auto simp: odd_iff_mod_2_eq_one)
qed

lemma and_pred_even: "0 < m \<Longrightarrow> (2 * m) AND (2 * m - 1) = 2 * (m AND (m - 1))" for m :: nat
proof -
  assume "0 < m"
  then have "(2 * m - 1) div 2 = m - 1" by linarith
  then show ?thesis using and_nat_rec [of "2 * m" "2 * m - 1"] by simp
qed

lemma card_bits_clear_lowest:
  fixes n :: nat
  assumes "0 < n"
  shows "card (bits_set n) = Suc (card (bits_set (n AND (n - 1))))"
  using assms
proof (induction n rule: less_induct)
  case (less n)
  show ?case
  proof (cases "odd n")
    case True
    then obtain m where n: "n = 2 * m + 1" by (elim oddE)
    then have "n AND (n - 1) = 2 * m"
      by (simp add: and_nat_rec [of "Suc (2 * m)" "2 * m"])
    then show ?thesis
      using n card_bits_set_nat_rec [of n] card_bits_set_nat_rec [of "2 * m"] by simp
  next
    case False
    then have "even n" by simp
    then obtain m where n: "n = 2 * m" by (elim evenE)
    with less.prems have m: "0 < m" "m < n" by auto
    have "n AND (n - 1) = 2 * (m AND (m - 1))"
      using m n by (simp only: and_pred_even)
    then show ?thesis
      using n less.IH [OF m(2,1)] card_bits_set_nat_rec [of n]
        card_bits_set_nat_rec [of "2 * (m AND (m - 1))"] by simp
  qed
qed

lemma bits_set_unat: "bits_set (unat (x::'a::len word)) = bits_set x"
  by (auto simp: bits_set_def bit_unsigned_iff)

lemma unat_and_pred: "num \<noteq> 0 \<Longrightarrow> unat (num AND (num - 1)) = unat num AND (unat num - 1)"
  for num :: "'a::len word"
  by (simp add: unsigned_and_eq unat_minus_one)

lemma card_bits_word_le: "card (bits_set (x::'a::len word)) \<le> LENGTH('a)"
  using card_mono [of "{..<LENGTH('a)}" "bits_set x"]
  by (auto simp: bits_set_def dest: bit_imp_le_length)

lemma popcount_loop_eq: "popcount_loop num cnt = cnt + of_nat (card (bits_set num))"
proof (induction num cnt rule: popcount_loop.induct)
  case (1 num cnt)
  show ?case
  proof (cases "num = 0")
    case True
    then show ?thesis by (simp add: popcount_loop.simps bits_set_def)
  next
    case False
    then have "card (bits_set num) = Suc (card (bits_set (num AND (num - 1))))"
      using card_bits_clear_lowest [of "unat num"]
      by (simp add: unat_gt_0 unat_and_pred bits_set_unat flip: bits_set_unat [of "num AND (num - 1)"])
    with 1 False show ?thesis by (simp add: popcount_loop.simps [of num cnt])
  qed
qed

lemma M_uint64_popcount_eq: "unat (M_uint64_popcount num) = card (bits_set num)"
  using card_bits_word_le [of num]
  by (simp add: M_uint64_popcount_def popcount_loop_eq unat_of_nat_small)


fun ones :: "nat \<Rightarrow> nat \<Rightarrow> nat" where
  "ones 0 n = 0"
| "ones (Suc w) n = n mod 2 + ones w (n div 2)"

lemma ones_card: "n < 2 ^ w \<Longrightarrow> ones w n = card (bits_set n)"
proof (induction w arbitrary: n)
  case 0
  then show ?case by (simp add: bits_set_def)
next
  case (Suc w)
  then have "n div 2 < 2 ^ w" by (simp add: less_mult_imp_div_less mult.commute)
  with Suc.IH show ?case using card_bits_set_nat_rec [of n] by simp
qed

lemma M_uint8_popcount_eq: "unat (M_uint8_popcount x) = card (bits_set x)"
proof -
  let ?lookup = "B6 0 @ B6 1 @ B6 1 @ B6 2"
  have "map unat ?lookup = map (ones 8) [0..<256]"
    by code_simp
  moreover have x: "unat x < 256" using unsigned_less [of x] by simp
  ultimately have "map unat ?lookup ! unat x = ones 8 (unat x)"
    by (simp only: nth_map length_upt nth_upt add_0_left)
  moreover have "length ?lookup = 256" by (simp add: B6_def B4_def B2_def)
  ultimately have "unat (?lookup ! unat x) = ones 8 (unat x)"
    using x by (simp only: nth_map)
  then show ?thesis
    using x ones_card [of "unat x" 8] by (simp only: M_uint8_popcount_def bits_set_unat) simp
qed

section \<open>Sign extension\<close>

lemma xor_power_unset: "\<not> bit x m \<Longrightarrow> x XOR 2 ^ m = x + 2 ^ m" for x :: "'a::len word"
proof -
  assume "\<not> bit x m"
  then have "x + 2 ^ m = x OR 2 ^ m"
    by (intro disjunctive_add) (auto simp: bit_simps)
  also have "\<dots> = x XOR 2 ^ m"
    using \<open>\<not> bit x m\<close> by (intro bit_word_eqI) (auto simp: bit_simps)
  finally show ?thesis by simp
qed

lemma xor_power_set: "bit x m \<Longrightarrow> x XOR 2 ^ m = x - 2 ^ m" for x :: "'a::len word"
proof -
  assume "bit x m"
  then have "(x XOR 2 ^ m) XOR 2 ^ m = (x XOR 2 ^ m) + 2 ^ m"
    by (intro xor_power_unset) (auto simp: bit_simps dest: bit_imp_le_length)
  then have "x = (x XOR 2 ^ m) + 2 ^ m" by (simp add: xor.assoc)
  then show ?thesis by (metis add_diff_cancel_right')
qed

lemma bit_uint_odd: "bit x m \<longleftrightarrow> odd (uint x div 2 ^ m)" for x :: "'a::len word"
proof -
  have "bit (uint x) m = bit x m"
    by (auto simp: bit_unsigned_iff)
  then show ?thesis by (simp add: bit_iff_odd)
qed

lemma uint_bit_ge: "bit x m \<Longrightarrow> 2 ^ m \<le> uint x" for x :: "'a::len word"
  by (rule ccontr) (simp add: bit_uint_odd)

lemma uint_unset_lt:
  fixes x :: "'a::len word"
  assumes "\<not> bit x m" and "uint x < 2 ^ Suc m"
  shows "uint x < 2 ^ m"
proof (rule ccontr)
  assume "\<not> uint x < 2 ^ m"
  with assms have "uint x div 2 ^ m = 1"
    by (intro int_div_pos_eq [where r = "uint x - 2 ^ m"]) auto
  with assms(1) show False by (simp add: bit_uint_odd)
qed

text \<open>
  The low \<open>num_bits\<close> bits are read as a two's complement number.
\<close>

lemma M_sign_extend_value:
  assumes "1 \<le> num_bits" and "num_bits \<le> 64" and "uint x < 2 ^ num_bits"
  shows "sint (M_sign_extend x num_bits)
           = (if bit x (num_bits - 1) then uint x - 2 ^ num_bits else uint x)"
proof -
  obtain m where m: "num_bits = Suc m" "m < 64" using assms(1,2) by (cases num_bits) auto
  have lt: "uint x < 2 ^ Suc m" using assms(3) m by simp
  have pow: "(2::int) ^ m \<le> 2 ^ 63" using m by (intro power_increasing) auto
  show ?thesis
  proof (cases "bit x m")
    case True
    then have ge: "2 ^ m \<le> uint x" by (rule uint_bit_ge)
    have "M_sign_extend x num_bits = word_of_int (uint x - 2 ^ Suc m)"
      using True m by (simp add: M_sign_extend_def Let_def push_bit_eq_mult xor_power_set)
    then have "sint (M_sign_extend x num_bits) = signed_take_bit 63 (uint x - 2 ^ Suc m)"
      by (simp only: sint_sbintrunc') simp
    also have "\<dots> = uint x - 2 ^ Suc m"
      using ge lt pow by (intro signed_take_bit_int_eq_self) auto
    finally show ?thesis using True m by simp
  next
    case False
    then have "uint x < 2 ^ m" using lt by (rule uint_unset_lt)
    then have "signed_take_bit 63 (uint x) = uint x"
      using pow by (intro signed_take_bit_int_eq_self order_trans [OF _ uint_ge_0]) auto
    then have "sint x = uint x" by (simp add: sint_uint)
    moreover have "M_sign_extend x num_bits = x"
      using False m by (simp add: M_sign_extend_def Let_def push_bit_eq_mult xor_power_unset)
    ultimately show ?thesis using False m by simp
  qed
qed

section \<open>Properties\<close>

lemma is_power_of_two_iff:
  "M_uint64_is_power_of_two n \<longleftrightarrow> (\<exists>k<64. unat n = 2 ^ k)"
proof
  assume "M_uint64_is_power_of_two n"
  moreover from this obtain k where k: "top_bit k n"
    using top_bit_ex [of n] by (auto simp: M_uint64_is_power_of_two_def split: if_splits)
  ultimately have "n = 2 ^ k" by (simp add: is_power_of_two_top)
  then show "\<exists>k<64. unat n = 2 ^ k"
    using top_bit_less [OF k] by (auto simp: unat_power_two)
next
  assume "\<exists>k<64. unat n = 2 ^ k"
  then obtain k where "k < 64" "unat n = 2 ^ k" by blast
  then have "n = 2 ^ k" by (simp add: word_unat_eq_iff unat_power_two)
  then show "M_uint64_is_power_of_two n"
    using is_power_of_two_top(2) [of k n] top_bit_power_two [where 'a = 64, of k] \<open>k < 64\<close> by simp
qed

text \<open>
  C5. For \<open>0 < n \<le> 2 ^ 63\<close>, \<open>M_uint64_round_up_to_power_of_two\<close> gives the least power of
  two that is not less than \<open>n\<close>.
\<close>

theorem M_uint64_round_up_correct:
  assumes "0 < n" and "n \<le> 2 ^ 63"
  shows "M_uint64_is_power_of_two (M_uint64_round_up_to_power_of_two n) \<and>
    n \<le> M_uint64_round_up_to_power_of_two n \<and>
    (\<forall>m. M_uint64_is_power_of_two m \<longrightarrow> n \<le> m \<longrightarrow> M_uint64_round_up_to_power_of_two n \<le> m)"
proof -
  have "0 < unat n" "unat n \<le> 2 ^ 63"
    using assms by (simp_all add: word_less_nat_alt word_le_nat_alt)
  from M_uint64_round_up_least [OF this] obtain k where k:
    "unat (M_uint64_round_up_to_power_of_two n) = 2 ^ k" "unat n \<le> 2 ^ k" "2 ^ k < 2 * unat n"
    by blast
  have "(2::nat) ^ k < 2 ^ LENGTH(64)"
    unfolding k(1) [symmetric] by (rule unsigned_less)
  then have "k < LENGTH(64)" by (rule power_less_imp_less_exp [rotated]) simp
  then have "k < 64" by simp
  moreover have "2 ^ k \<le> unat m" if m: "M_uint64_is_power_of_two m" "n \<le> m" for m
  proof -
    obtain j where j: "unat m = 2 ^ j" using m(1) by (auto simp: is_power_of_two_iff)
    have "(2::nat) ^ k < 2 ^ Suc j" using k(3) m(2) j by (simp add: word_le_nat_alt)
    then have "k \<le> j" by (simp add: power_strict_increasing_iff del: power_Suc)
    then show ?thesis using j by simp
  qed
  ultimately show ?thesis using k by (auto simp: is_power_of_two_iff word_le_nat_alt)
qed

theorem M_uint64_round_up_correct_witness:
  "M_uint64_round_up_to_power_of_two 5 = 8 \<and> M_uint64_is_power_of_two 8 \<and> 5 \<le> (8 :: M_uint64)"
proof -
  have r: "M_uint64_round_up_to_power_of_two 5 = 8" by code_simp
  show ?thesis using M_uint64_round_up_correct [of 5] unfolding r by simp
qed

text \<open>
  C6. The two de Bruijn table lookups compute the integer part of the binary logarithm of any
  non-zero argument, and so never read outside the tables.
\<close>

theorem M_log2_correct:
  assumes "n32 \<noteq> 0" and "n64 \<noteq> 0"
  shows "(2 ^ unat (M_uint32_log2 n32) \<le> unat n32 \<and> unat n32 < 2 ^ Suc (unat (M_uint32_log2 n32))) \<and>
    2 ^ unat (M_uint64_log2 n64) \<le> unat n64 \<and> unat n64 < 2 ^ Suc (unat (M_uint64_log2 n64))"
proof -
  obtain j k where top: "top_bit j n32" "top_bit k n64"
    using top_bit_ex [OF assms(1)] top_bit_ex [OF assms(2)] by (elim exE)
  show ?thesis
    unfolding log2_top(1) [OF top(1)] log2_top(2) [OF top(2)]
    using top unfolding top_bit_def by blast
qed

theorem M_log2_correct_witness:
  "M_uint32_log2 100 = 6 \<and> M_uint64_log2 100 = 6 \<and> 2 ^ unat (M_uint64_log2 100) \<le> unat (100 :: M_uint64)"
proof -
  have r: "M_uint32_log2 100 = 6" "M_uint64_log2 100 = 6" by code_simp+
  show ?thesis using M_log2_correct [of 100 100] r by simp
qed

text \<open>
  C7. Both population counts, the table and the loop that clears the lowest set bit, give the
  number of bits set.
\<close>

theorem M_popcount_correct:
  "unat (M_uint8_popcount x) = card {i. bit x i} \<and> unat (M_uint64_popcount num) = card {i. bit num i}"
  using M_uint8_popcount_eq [of x] M_uint64_popcount_eq [of num] by (simp add: bits_set_def)

end
