(* ===== verification/Chr.thy ===== *)
theory Chr
  imports M_Prelude
begin

text \<open>
  The character classes of \<^verbatim>\<open>src/base/data/m_chr.c\<close>. A \<open>char\<close> is its byte: every test of
  the source compares with constants below 128, so signed and unsigned \<open>char\<close> agree.
\<close>

text \<open>The bytes of a string literal.\<close>

definition str :: "string \<Rightarrow> bytes" where
  "str s = map of_char s"

definition M_chr_iscntrl :: "M_uint8 \<Rightarrow> bool" where
  "M_chr_iscntrl c = ((c \<ge> 0x00 \<and> c \<le> 0x1f) \<or> c = 0x7f)"

definition M_chr_isascii :: "M_uint8 \<Rightarrow> bool" where
  "M_chr_isascii c = (c \<le> 127)"

definition M_chr_isgraph :: "M_uint8 \<Rightarrow> bool" where
  "M_chr_isgraph c = (c \<ge> 0x21 \<and> c < 0x7f)"

definition M_chr_isblank :: "M_uint8 \<Rightarrow> bool" where
  "M_chr_isblank c = (c = 0x20 \<or> c = 0x09)"

definition M_chr_isspace :: "M_uint8 \<Rightarrow> bool" where
  "M_chr_isspace c = (M_chr_isblank c \<or> c = 0x0c \<or> c = 0x0a \<or> c = 0x0d \<or> c = 0x0b)"

definition M_chr_isprint :: "M_uint8 \<Rightarrow> bool" where
  "M_chr_isprint c = ((c \<ge> 0x21 \<and> c < 0x7f) \<or> (c \<ge> 0x09 \<and> c \<le> 0x0d) \<or> c = 0x20)"

definition M_chr_islower :: "M_uint8 \<Rightarrow> bool" where
  "M_chr_islower c = (c \<ge> 0x61 \<and> c \<le> 0x7a)"

definition M_chr_isupper :: "M_uint8 \<Rightarrow> bool" where
  "M_chr_isupper c = (c \<ge> 0x41 \<and> c \<le> 0x5a)"

definition M_chr_isalpha :: "M_uint8 \<Rightarrow> bool" where
  "M_chr_isalpha c = (M_chr_islower c \<or> M_chr_isupper c)"

definition M_chr_isalphasp :: "M_uint8 \<Rightarrow> bool" where
  "M_chr_isalphasp c = (M_chr_islower c \<or> M_chr_isupper c \<or> c = 0x20)"

definition M_chr_isdigit :: "M_uint8 \<Rightarrow> bool" where
  "M_chr_isdigit c = (c \<ge> 0x30 \<and> c \<le> 0x39)"

definition M_chr_isdec :: "M_uint8 \<Rightarrow> bool" where
  "M_chr_isdec c = ((c \<ge> 0x30 \<and> c \<le> 0x39) \<or> c = 0x2e)"

definition M_chr_isalnum :: "M_uint8 \<Rightarrow> bool" where
  "M_chr_isalnum c = (M_chr_isalpha c \<or> M_chr_isdigit c)"

definition M_chr_isalnumsp :: "M_uint8 \<Rightarrow> bool" where
  "M_chr_isalnumsp c = (M_chr_isalpha c \<or> M_chr_isdigit c \<or> c = 0x20)"

definition M_chr_ispunct :: "M_uint8 \<Rightarrow> bool" where
  "M_chr_ispunct c = (\<not> M_chr_isalnum c \<and> M_chr_isgraph c)"

definition M_chr_ishex :: "M_uint8 \<Rightarrow> bool" where
  "M_chr_ishex c =
     (M_chr_isdigit c \<or> (c \<ge> 0x61 \<and> c \<le> 0x66) \<or> (c \<ge> 0x41 \<and> c \<le> 0x46))"

definition M_chr_toupper :: "M_uint8 \<Rightarrow> M_uint8" where
  "M_chr_toupper c = (if M_chr_islower c then c - 32 else c)"

definition M_chr_tolower :: "M_uint8 \<Rightarrow> M_uint8" where
  "M_chr_tolower c = (if M_chr_isupper c then c + 32 else c)"

definition M_chr_digit :: "M_uint8 \<Rightarrow> int" where
  "M_chr_digit c = (if M_chr_isdigit c then uint c - 0x30 else -1)"

definition M_chr_xdigit_int :: "M_uint8 \<Rightarrow> int" where
  "M_chr_xdigit_int c = (if M_chr_islower c then uint c - 0x61 + 10 else M_chr_digit c)"

definition M_chr_xdigit :: "M_uint8 \<Rightarrow> int" where
  "M_chr_xdigit c = (if M_chr_ishex c then M_chr_xdigit_int (M_chr_tolower c) else -1)"

named_theorems chr_defs \<open>the character classes, unfolded\<close>

declare M_chr_iscntrl_def [chr_defs] M_chr_isascii_def [chr_defs] M_chr_isgraph_def [chr_defs]
  M_chr_isblank_def [chr_defs] M_chr_isspace_def [chr_defs] M_chr_isprint_def [chr_defs]
  M_chr_islower_def [chr_defs] M_chr_isupper_def [chr_defs] M_chr_isalpha_def [chr_defs]
  M_chr_isalphasp_def [chr_defs] M_chr_isdigit_def [chr_defs] M_chr_isdec_def [chr_defs]
  M_chr_isalnum_def [chr_defs] M_chr_isalnumsp_def [chr_defs] M_chr_ispunct_def [chr_defs]
  M_chr_ishex_def [chr_defs] M_chr_toupper_def [chr_defs] M_chr_tolower_def [chr_defs]
  M_chr_digit_def [chr_defs] M_chr_xdigit_int_def [chr_defs] M_chr_xdigit_def [chr_defs]

section \<open>Facts about every byte\<close>

lemma M_chr_isspace_iff:
  "M_chr_isspace c \<longleftrightarrow> c \<in> {0x20, 0x09, 0x0c, 0x0a, 0x0d, 0x0b}"
  by (auto simp: chr_defs)

lemma M_chr_isspace_0 [simp]: "\<not> M_chr_isspace 0"
  by (simp add: chr_defs)

lemma M_chr_isprint_eq: "M_chr_isprint c \<longleftrightarrow> M_chr_isgraph c \<or> M_chr_isspace c"
  unfolding chr_defs by unat_arith

lemma M_chr_tolower_lower [simp]: "\<not> M_chr_isupper (M_chr_tolower c)"
  unfolding chr_defs by (auto simp: word_le_nat_alt unat_plus_if')

lemma M_chr_toupper_upper [simp]: "\<not> M_chr_islower (M_chr_toupper c)"
  unfolding chr_defs by (auto simp: word_le_nat_alt unat_sub_if')

lemma M_chr_toupper_tolower [simp]: "M_chr_toupper (M_chr_tolower c) = M_chr_toupper c"
  unfolding chr_defs by (auto simp: word_le_nat_alt unat_plus_if')

lemma M_chr_tolower_toupper [simp]: "M_chr_tolower (M_chr_toupper c) = M_chr_tolower c"
  unfolding chr_defs by (auto simp: word_le_nat_alt unat_sub_if')

lemma M_chr_xdigit_range: "M_chr_ishex c \<Longrightarrow> 0 \<le> M_chr_xdigit c \<and> M_chr_xdigit c < 16"
  unfolding chr_defs by (auto simp: word_le_def uint_word_ariths)

end
