(* ===== verification/Sort_Compar.thy ===== *)
theory Sort_Compar
  imports Chr
begin

text \<open>
  The comparison callbacks of \<^verbatim>\<open>src/base/sort/m_sort_compar.c\<close>, and the contract that the
  sorting and searching routines rely on, as the locale \<open>compar_contract\<close>. A callback takes
  two elements and a thunk and gives a negative, zero or positive number.
\<close>

type_synonym ('a, 't) M_sort_compar_t = "'a \<Rightarrow> 'a \<Rightarrow> 't \<Rightarrow> int"

section \<open>The callbacks\<close>

text \<open>
  \<open>strcmp\<close> of the C library: the first differing characters, read as unsigned, decide. A
  string ends at its first zero byte; \<open>chr0\<close> reads the terminator past the end.
\<close>

definition chr0 :: "bytes \<Rightarrow> M_uint8" where
  "chr0 s = (case s of [] \<Rightarrow> 0 | c # _ \<Rightarrow> c)"

function strcmp :: "bytes \<Rightarrow> bytes \<Rightarrow> int" where
  "strcmp a b =
     (if chr0 a \<noteq> chr0 b then uint (chr0 a) - uint (chr0 b)
      else if chr0 a = 0 then 0 else strcmp (tl a) (tl b))"
  by pat_completeness auto
termination
  by (relation "measure (\<lambda>(a, b). length a)") (auto simp: chr0_def split: list.splits)

declare strcmp.simps [simp del]

text \<open>\<open>M_str_safe\<close> reads the null pointer as the empty string.\<close>

definition M_str_safe :: "bytes option \<Rightarrow> bytes" where
  "M_str_safe s = (case s of None \<Rightarrow> [] | Some b \<Rightarrow> b)"

definition M_str_cmpsort :: "bytes option \<Rightarrow> bytes option \<Rightarrow> int" where
  "M_str_cmpsort s1 s2 = (if s1 = s2 then 0 else strcmp (M_str_safe s1) (M_str_safe s2))"

definition M_sort_compar_str :: "(bytes option, 't) M_sort_compar_t" where
  "M_sort_compar_str arg1 arg2 thunk = M_str_cmpsort arg1 arg2"

definition M_sort_compar_str_desc :: "(bytes option, 't) M_sort_compar_t" where
  "M_sort_compar_str_desc arg1 arg2 thunk = M_sort_compar_str arg2 arg1 thunk"

text \<open>An argument is the value its pointer refers to, \<open>None\<close> for a null argument.\<close>

definition M_sort_compar_u64 :: "(M_uint64 option, 't) M_sort_compar_t" where
  "M_sort_compar_u64 arg1 arg2 thunk =
     (let i1 = (case arg1 of None \<Rightarrow> 0 | Some i \<Rightarrow> i);
          i2 = (case arg2 of None \<Rightarrow> 0 | Some i \<Rightarrow> i)
      in if i1 = i2 then 0 else if i1 < i2 then -1 else 1)"

definition M_sort_compar_u64_desc :: "(M_uint64 option, 't) M_sort_compar_t" where
  "M_sort_compar_u64_desc arg1 arg2 thunk = M_sort_compar_u64 arg2 arg1 thunk"

definition M_sort_compar_vp :: "(M_uint64 option, 't) M_sort_compar_t" where
  "M_sort_compar_vp arg1 arg2 thunk =
     (if arg1 = arg2 then 0
      else case arg1 of None \<Rightarrow> -1
           | Some vp1 \<Rightarrow> (case arg2 of None \<Rightarrow> 1
             | Some vp2 \<Rightarrow> if vp1 < vp2 then -1 else if vp1 > vp2 then 1 else 0))"

definition M_sort_compar_vp_desc :: "(M_uint64 option, 't) M_sort_compar_t" where
  "M_sort_compar_vp_desc arg1 arg2 thunk = M_sort_compar_vp arg2 arg1 thunk"

section \<open>The contract of a comparison callback\<close>

locale compar_contract =
  fixes compar :: "('a, 't) M_sort_compar_t" and thunk :: 't
  assumes compar_swap: "compar a b thunk < 0 \<longleftrightarrow> compar b a thunk > 0"
    and compar_trans: "compar a b thunk \<le> 0 \<Longrightarrow> compar b c thunk \<le> 0 \<Longrightarrow> compar a c thunk \<le> 0"
begin

abbreviation le :: "'a \<Rightarrow> 'a \<Rightarrow> bool" where
  "le a b \<equiv> compar a b thunk \<le> 0"

abbreviation lt :: "'a \<Rightarrow> 'a \<Rightarrow> bool" where
  "lt a b \<equiv> compar a b thunk < 0"

abbreviation eq :: "'a \<Rightarrow> 'a \<Rightarrow> bool" where
  "eq a b \<equiv> compar a b thunk = 0"

lemma compar_refl [simp]: "compar a a thunk = 0"
  using compar_swap [of a a] by auto

lemma compar_pos: "compar a b thunk > 0 \<longleftrightarrow> lt b a"
  using compar_swap [of b a] by simp

lemma not_le: "\<not> le a b \<longleftrightarrow> lt b a"
  using compar_pos [of a b] by linarith

lemma not_lt: "\<not> lt a b \<longleftrightarrow> le b a"
  using not_le [of b a] by blast

lemma eq_iff: "eq a b \<longleftrightarrow> le a b \<and> le b a"
  using not_le [of a b] not_le [of b a] compar_swap [of a b] compar_swap [of b a] by linarith

lemma eq_sym: "eq a b \<longleftrightarrow> eq b a"
  using eq_iff [of a b] eq_iff [of b a] by blast

lemma le_total: "le a b \<or> le b a"
  using not_le [of a b] by auto

lemma eq_trans: "eq a b \<Longrightarrow> eq b c \<Longrightarrow> eq a c"
  using eq_iff compar_trans by metis

lemma le_lt_trans: "le a b \<Longrightarrow> lt b c \<Longrightarrow> lt a c"
  using compar_trans [of c a b] not_le by blast

lemma lt_le_trans: "lt a b \<Longrightarrow> le b c \<Longrightarrow> lt a c"
  using compar_trans [of b c a] not_le by blast

lemma lt_imp_le: "lt a b \<Longrightarrow> le a b"
  by simp

lemma le_eq_cong: "eq a b \<Longrightarrow> le a c \<longleftrightarrow> le b c"
  using eq_iff compar_trans by blast

lemma le_eq_cong2: "eq a b \<Longrightarrow> le c a \<longleftrightarrow> le c b"
  using eq_iff compar_trans by blast

text \<open>An array is sorted when no element is greater than a later one.\<close>

abbreviation is_sorted :: "'a list \<Rightarrow> bool" where
  "is_sorted \<equiv> sorted_wrt le"

lemma is_sorted_append:
  "is_sorted (xs @ ys) \<longleftrightarrow> is_sorted xs \<and> is_sorted ys \<and> (\<forall>x\<in>set xs. \<forall>y\<in>set ys. le x y)"
  by (rule sorted_wrt_append)

end

section \<open>The callbacks meet the contract\<close>

lemma strcmp_refl [simp]: "strcmp a a = 0"
proof (induction a rule: length_induct)
  case (1 a)
  have "chr0 a \<noteq> 0 \<Longrightarrow> length (tl a) < length a" by (auto simp: chr0_def split: list.splits)
  with 1 show ?case by (simp add: strcmp.simps [of a a])
qed

lemma strcmp_swap: "strcmp b a = - strcmp a b"
proof (induction a b rule: strcmp.induct)
  case (1 a b)
  then show ?case by (simp add: strcmp.simps [of a b] strcmp.simps [of b a])
qed

lemma strcmp_le_iff:
  "strcmp a b \<le> 0 \<longleftrightarrow>
     chr0 a < chr0 b \<or> chr0 a = chr0 b \<and> (chr0 a = 0 \<or> strcmp (tl a) (tl b) \<le> 0)"
proof (cases "chr0 a = chr0 b")
  case True
  then show ?thesis by (simp add: strcmp.simps [of a b])
next
  case False
  then have "uint (chr0 a) \<noteq> uint (chr0 b)" using unsigned_word_eqI by blast
  with False show ?thesis by (auto simp: strcmp.simps [of a b] word_less_def)
qed

lemma strcmp_trans: "strcmp a b \<le> 0 \<Longrightarrow> strcmp b c \<le> 0 \<Longrightarrow> strcmp a c \<le> 0"
proof (induction a b arbitrary: c rule: strcmp.induct)
  case (1 a b)
  show ?case
    using "1.prems" "1.IH" [of "tl c"]
    unfolding strcmp_le_iff [of a b] strcmp_le_iff [of b c] strcmp_le_iff [of a c]
    by (cases "chr0 c = 0") auto
qed

interpretation compar_str: compar_contract M_sort_compar_str "thunk :: 't"
proof
  fix a b c :: "bytes option"
  have e: "M_sort_compar_str x y thunk = strcmp (M_str_safe x) (M_str_safe y)" for x y
    by (simp add: M_sort_compar_str_def M_str_cmpsort_def)
  show "M_sort_compar_str a b thunk < 0 \<longleftrightarrow> M_sort_compar_str b a thunk > 0"
    using strcmp_swap [of "M_str_safe a" "M_str_safe b"] by (simp add: e)
  show "M_sort_compar_str a b thunk \<le> 0 \<Longrightarrow> M_sort_compar_str b c thunk \<le> 0
      \<Longrightarrow> M_sort_compar_str a c thunk \<le> 0"
    unfolding e by (rule strcmp_trans)
qed

interpretation compar_u64: compar_contract M_sort_compar_u64 "thunk :: 't"
  by unfold_locales (auto simp: M_sort_compar_u64_def Let_def split: if_splits)

interpretation compar_vp: compar_contract M_sort_compar_vp "thunk :: 't"
  by unfold_locales (auto simp: M_sort_compar_vp_def split: if_splits option.splits)

text \<open>Reversing the arguments of a callback keeps the contract.\<close>

lemma compar_contract_desc:
  assumes "compar_contract compar thunk"
  shows "compar_contract (\<lambda>a b. compar b a) thunk"
proof -
  from assms have "compar a b thunk < 0 \<longleftrightarrow> compar b a thunk > 0" for a b
    by (rule compar_contract.compar_swap)
  moreover from assms have "compar a b thunk \<le> 0 \<Longrightarrow> compar b c thunk \<le> 0 \<Longrightarrow> compar a c thunk \<le> 0"
    for a b c by (rule compar_contract.compar_trans)
  ultimately show ?thesis unfolding compar_contract_def by blast
qed

interpretation compar_str_desc: compar_contract M_sort_compar_str_desc "thunk :: 't"
  using compar_contract_desc [OF compar_str.compar_contract_axioms]
  by (simp add: M_sort_compar_str_desc_def [abs_def])

interpretation compar_u64_desc: compar_contract M_sort_compar_u64_desc "thunk :: 't"
  using compar_contract_desc [OF compar_u64.compar_contract_axioms]
  by (simp add: M_sort_compar_u64_desc_def [abs_def])

interpretation compar_vp_desc: compar_contract M_sort_compar_vp_desc "thunk :: 't"
  using compar_contract_desc [OF compar_vp.compar_contract_axioms]
  by (simp add: M_sort_compar_vp_desc_def [abs_def])

end
