(* ===== verification/Sort.thy ===== *)
theory Sort
  imports Sort_Compar
begin

text \<open>
  Merge sort (\<^verbatim>\<open>src/base/sort/m_sort_mergesort.c\<close>) and binary search
  (\<^verbatim>\<open>src/base/sort/m_sort_binary.c\<close>). An array of \<open>nmemb\<close> elements is a list of that
  length. The loops keep their indices; the lemmas relate them to list operations.
\<close>

section \<open>Merge sort\<close>

text \<open>The first loop: merge while both halves have elements left.\<close>

function merge_both ::
  "('a, 't) M_sort_compar_t \<Rightarrow> 't \<Rightarrow> 'a list \<Rightarrow> 'a list \<Rightarrow> nat \<Rightarrow> nat \<Rightarrow> nat \<Rightarrow> 'a list
     \<Rightarrow> nat \<times> nat \<times> nat \<times> 'a list" where
  "merge_both compar thunk left right i j k base =
     (if i < length left \<and> j < length right then
        if compar (left ! i) (right ! j) thunk \<le> 0
        then merge_both compar thunk left right (i + 1) j (k + 1) (base[k := left ! i])
        else merge_both compar thunk left right i (j + 1) (k + 1) (base[k := right ! j])
      else (i, j, k, base))"
  by pat_completeness auto
termination
  by (relation "measure (\<lambda>(c, t, l, r, i, j, k, b). (length l - i) + (length r - j))") auto

text \<open>The second and third loop: copy what is left of one half.\<close>

function merge_rest :: "'a list \<Rightarrow> nat \<Rightarrow> nat \<Rightarrow> 'a list \<Rightarrow> nat \<times> 'a list" where
  "merge_rest src i k base =
     (if i < length src then merge_rest src (i + 1) (k + 1) (base[k := src ! i]) else (k, base))"
  by pat_completeness auto
termination
  by (relation "measure (\<lambda>(s, i, k, b). length s - i)") auto

declare merge_both.simps [simp del] merge_rest.simps [simp del]

function M_sort_mergesort :: "'a list \<Rightarrow> ('a, 't) M_sort_compar_t \<Rightarrow> 't \<Rightarrow> 'a list" where
  "M_sort_mergesort base compar thunk =
     (let nmemb = length base in
      if nmemb < 2 then base
      else
        let mid = nmemb div 2;
            ls = (if nmemb > 2 \<and> nmemb mod 2 \<noteq> 0 then mid + 1 else mid);
            rs = mid;
            left = M_sort_mergesort (take ls base) compar thunk;
            right = M_sort_mergesort (take rs (drop ls base)) compar thunk;
            (i, j, k, base) = merge_both compar thunk left right 0 0 0 base;
            (k, base) = merge_rest left i k base;
            (k, base) = merge_rest right j k base
        in base)"
  by pat_completeness auto
termination
  by (relation "measure (\<lambda>(b, c, t). length b)") auto

declare M_sort_mergesort.simps [simp del]

section \<open>Binary search\<close>

text \<open>
  The halving loop. \<open>right\<close> is a \<open>ssize_t\<close>, as \<open>mid - 1\<close> can be negative; \<open>left\<close> starts
  at 0 and only grows. The loop gives the last \<open>left\<close>, \<open>right\<close>, \<open>mid\<close> and \<open>eq\<close>.
\<close>

function binary_halve ::
  "('a, 't) M_sort_compar_t \<Rightarrow> 't \<Rightarrow> 'a list \<Rightarrow> 'a \<Rightarrow> nat \<Rightarrow> int \<Rightarrow> nat \<Rightarrow> int
     \<Rightarrow> nat \<times> int \<times> nat \<times> int" where
  "binary_halve compar thunk base key left right mid eq =
     (if int left \<le> right then
        let mid = nat (int left + right) div 2;
            eq = compar key (base ! mid) thunk
        in if eq = 0 then (left, right, mid, eq)
           else if eq < 0 then binary_halve compar thunk base key left (int mid - 1) mid eq
           else binary_halve compar thunk base key (mid + 1) right mid eq
      else (left, right, mid, eq))"
  by pat_completeness auto
termination
  by (relation "measure (\<lambda>(c, t, b, key, left, right, mid, eq). nat (right - int left + 1))") auto

declare binary_halve.simps [simp del]

text \<open>Scan back to the first match; the index is \<open>mid\<close>.\<close>

function binary_first ::
  "('a, 't) M_sort_compar_t \<Rightarrow> 't \<Rightarrow> 'a list \<Rightarrow> 'a \<Rightarrow> nat \<Rightarrow> nat \<Rightarrow> nat" where
  "binary_first compar thunk base key left mid =
     (if mid > 0 \<and> mid \<ge> left then
        if compar key (base ! (mid - 1)) thunk \<noteq> 0 then mid
        else binary_first compar thunk base key left (mid - 1)
      else mid)"
  by pat_completeness auto
termination
  by (relation "measure (\<lambda>(c, t, b, key, left, mid). mid)") auto

text \<open>Scan forward over the matches, up to \<open>right\<close>.\<close>

function binary_last ::
  "('a, 't) M_sort_compar_t \<Rightarrow> 't \<Rightarrow> 'a list \<Rightarrow> 'a \<Rightarrow> nat \<Rightarrow> nat \<Rightarrow> int \<Rightarrow> nat" where
  "binary_last compar thunk base key right mid eq =
     (if mid < right \<and> eq = 0 then
        binary_last compar thunk base key right (mid + 1) (compar key (base ! (mid + 1)) thunk)
      else mid)"
  by pat_completeness auto
termination
  by (relation "measure (\<lambda>(c, t, b, key, right, mid, eq). right - mid)") auto

declare binary_first.simps [simp del] binary_last.simps [simp del]

text \<open>
  The result is the return value and \<open>*idx\<close>. The cast \<open>(size_t)right\<close> of the last loop is
  \<open>nat right\<close>: the loop runs only after a match, where \<open>right\<close> is not negative.
\<close>

definition binary_search_idx ::
  "'a list \<Rightarrow> 'a \<Rightarrow> ('a, 't) M_sort_compar_t \<Rightarrow> 't \<Rightarrow> bool \<Rightarrow> bool \<Rightarrow> bool \<times> nat" where
  "binary_search_idx base key compar thunk match is_stable =
     (let (left, right, mid, eq) =
            binary_halve compar thunk base key 0 (int (length base) - 1) 0 1
      in if \<not> is_stable then
           if match \<and> eq \<noteq> 0 then (False, 0)
           else (True, if eq > 0 then mid + 1 else mid)
         else if match then
           if eq \<noteq> 0 then (False, 0)
           else (True, binary_first compar thunk base key left mid)
         else
           let mid = (if eq > 0 then mid + 1 else mid)
           in (True, binary_last compar thunk base key (nat right) mid eq))"

definition M_sort_binary_idx ::
  "'a list \<Rightarrow> 'a \<Rightarrow> ('a, 't) M_sort_compar_t \<Rightarrow> 't \<Rightarrow> bool \<Rightarrow> bool \<Rightarrow> bool \<times> nat" where
  "M_sort_binary_idx base key compar thunk match is_stable =
     (let nmemb = length base in
      if nmemb = 0 then (if match then (False, 0) else (True, nmemb))
      else if \<not> is_stable then
        let eq = compar key (base ! (nmemb - 1)) thunk in
        if eq = 0 then (True, if \<not> match then nmemb else nmemb - 1)
        else if eq > 0 then (if match then (False, 0) else (True, nmemb))
        else
          let eq = compar key (base ! 0) thunk in
          if eq \<le> 0 then (if eq \<noteq> 0 \<and> match then (False, 0) else (True, 0))
          else binary_search_idx base key compar thunk match is_stable
      else binary_search_idx base key compar thunk match is_stable)"

definition M_sort_binary_insert_idx ::
  "'a list \<Rightarrow> 'a \<Rightarrow> bool \<Rightarrow> ('a, 't) M_sort_compar_t \<Rightarrow> 't \<Rightarrow> nat" where
  "M_sort_binary_insert_idx base key is_stable compar thunk =
     (let (ret, idx) = M_sort_binary_idx base key compar thunk False is_stable
      in if ret then idx else length base)"

definition M_sort_binary_search ::
  "'a list \<Rightarrow> 'a \<Rightarrow> bool \<Rightarrow> ('a, 't) M_sort_compar_t \<Rightarrow> 't \<Rightarrow> bool \<times> nat" where
  "M_sort_binary_search base key is_stable compar thunk =
     M_sort_binary_idx base key compar thunk True is_stable"

section \<open>Merge sort is a stable sort\<close>

text \<open>The merge of two lists, as the reference for the index loops.\<close>

fun merge_spec :: "('a, 't) M_sort_compar_t \<Rightarrow> 't \<Rightarrow> 'a list \<Rightarrow> 'a list \<Rightarrow> 'a list" where
  "merge_spec compar thunk [] ys = ys"
| "merge_spec compar thunk xs [] = xs"
| "merge_spec compar thunk (x # xs) (y # ys) =
     (if compar x y thunk \<le> 0 then x # merge_spec compar thunk xs (y # ys)
      else y # merge_spec compar thunk (x # xs) ys)"

lemma merge_spec_Nil2 [simp]: "merge_spec compar thunk xs [] = xs"
  by (cases xs) auto

lemma length_merge_spec [simp]:
  "length (merge_spec compar thunk xs ys) = length xs + length ys"
  by (induction compar thunk xs ys rule: merge_spec.induct) auto

lemma mset_merge_spec [simp]: "mset (merge_spec compar thunk xs ys) = mset xs + mset ys"
  by (induction compar thunk xs ys rule: merge_spec.induct) auto

lemma set_merge_spec [simp]: "set (merge_spec compar thunk xs ys) = set xs \<union> set ys"
  by (metis mset_merge_spec set_mset_mset set_mset_union)

lemma merge_rest_eq:
  "k + (length src - i) \<le> length base \<Longrightarrow>
     merge_rest src i k base =
       (k + (length src - i), take k base @ drop i src @ drop (k + (length src - i)) base)"
proof (induction src i k base rule: merge_rest.induct)
  case (1 src i k base)
  show ?case
  proof (cases "i < length src")
    case True
    then have "Suc (k + length src - Suc i) = k + length src - i" by simp
    with 1 True show ?thesis
      by (simp add: merge_rest.simps [of src i] take_Suc_conv_app_nth
          Cons_nth_drop_Suc [symmetric])
  next
    case False
    with 1 show ?thesis by (simp add: merge_rest.simps [of src i])
  qed
qed

lemma merge_loops_eq:
  assumes "length base = length left + length right" "k = i + j" "i \<le> length left" "j \<le> length right"
  shows "(let (i', j', k', base') = merge_both compar thunk left right i j k base;
              (k', base') = merge_rest left i' k' base';
              (k', base') = merge_rest right j' k' base'
          in base')
         = take k base @ merge_spec compar thunk (drop i left) (drop j right)"
  using assms
proof (induction compar thunk left right i j k base rule: merge_both.induct)
  case (1 compar thunk left right i j k base)
  show ?case
  proof (cases "i < length left \<and> j < length right")
    case True
    then have "drop i left = left ! i # drop (Suc i) left" "drop j right = right ! j # drop (Suc j) right"
      by (simp_all add: Cons_nth_drop_Suc)
    with True 1 show ?thesis
      by (simp add: merge_both.simps [of _ _ left right i j] take_Suc_conv_app_nth)
  next
    case False
    with "1.prems" show ?thesis
      by (auto simp: merge_both.simps [of _ _ left right i j] merge_rest_eq not_less)
  qed
qed

lemma length_merge_both:
  "length (snd (snd (snd (merge_both compar thunk left right i j k base)))) = length base"
proof (induction compar thunk left right i j k base rule: merge_both.induct)
  case (1 compar thunk left right i j k base)
  then show ?case by (simp add: merge_both.simps [of _ _ left right i j])
qed

lemma length_merge_rest: "length (snd (merge_rest src i k base)) = length base"
proof (induction src i k base rule: merge_rest.induct)
  case (1 src i k base)
  then show ?case by (simp add: merge_rest.simps [of src i])
qed

lemma length_M_sort_mergesort [simp]: "length (M_sort_mergesort base compar thunk) = length base"
  by (subst M_sort_mergesort.simps)
    (simp add: Let_def length_merge_both length_merge_rest case_prod_beta)

lemma M_sort_mergesort_rec:
  "M_sort_mergesort base compar thunk =
     (if length base < 2 then base
      else merge_spec compar thunk
             (M_sort_mergesort (take (length base - length base div 2) base) compar thunk)
             (M_sort_mergesort (drop (length base - length base div 2) base) compar thunk))"
proof (cases "length base < 2")
  case True
  then show ?thesis by (simp add: M_sort_mergesort.simps [of base])
next
  case False
  let ?n = "length base"
  let ?ls = "?n - ?n div 2"
  have ls: "(if ?n > 2 \<and> ?n mod 2 \<noteq> 0 then ?n div 2 + 1 else ?n div 2) = ?ls"
    using False by presburger
  have rs: "take (?n div 2) (drop ?ls base) = drop ?ls base" by simp
  let ?left = "M_sort_mergesort (take ?ls base) compar thunk"
  let ?right = "M_sort_mergesort (drop ?ls base) compar thunk"
  have "M_sort_mergesort base compar thunk =
      (let (i', j', k', base') = merge_both compar thunk ?left ?right 0 0 0 base;
           (k', base') = merge_rest ?left i' k' base';
           (k', base') = merge_rest ?right j' k' base'
       in base')"
    using False by (subst M_sort_mergesort.simps) (simp only: Let_def ls rs if_False)
  also have "\<dots> = take 0 base @ merge_spec compar thunk (drop 0 ?left) (drop 0 ?right)"
    by (rule merge_loops_eq) auto
  finally show ?thesis using False by simp
qed

lemma sorted_merge_spec:
  assumes "compar_contract compar thunk"
    and "sorted_wrt (\<lambda>a b. compar a b thunk \<le> 0) xs" and "sorted_wrt (\<lambda>a b. compar a b thunk \<le> 0) ys"
  shows "sorted_wrt (\<lambda>a b. compar a b thunk \<le> 0) (merge_spec compar thunk xs ys)"
  using assms
proof (induction compar thunk xs ys rule: merge_spec.induct)
  case (3 compar thunk x xs y ys)
  show ?case
  proof (cases "compar x y thunk \<le> 0")
    case True
    with 3 show ?thesis
      using compar_contract.compar_trans [OF "3.prems"(1), of x y] by auto
  next
    case False
    then have "compar y x thunk \<le> 0"
      using compar_contract.le_total [OF "3.prems"(1)] by blast
    with False 3 show ?thesis
      using compar_contract.compar_trans [OF "3.prems"(1), of y x] by auto
  qed
qed auto

lemma filter_merge_spec:
  assumes "compar_contract compar thunk" and "sorted_wrt (\<lambda>a b. compar a b thunk \<le> 0) xs"
  shows "filter (\<lambda>x. compar x a thunk = 0) (merge_spec compar thunk xs ys)
           = filter (\<lambda>x. compar x a thunk = 0) xs @ filter (\<lambda>x. compar x a thunk = 0) ys"
  using assms
proof (induction compar thunk xs ys rule: merge_spec.induct)
  case (3 compar thunk x xs y ys)
  show ?case
  proof (cases "compar x y thunk \<le> 0")
    case True
    with 3 show ?thesis by auto
  next
    case False
    have "compar z a thunk \<noteq> 0" if "compar y a thunk = 0" and "z \<in> set (x # xs)" for z
    proof -
      have "compar x z thunk \<le> 0"
        using that(2) "3.prems"(2) compar_contract.compar_refl [OF "3.prems"(1)] by auto
      then have "compar y z thunk < 0"
        using False compar_contract.not_le compar_contract.lt_le_trans "3.prems"(1) by metis
      then show ?thesis
        using that(1) compar_contract.eq_sym compar_contract.eq_trans "3.prems"(1)
        by (metis less_irrefl)
    qed
    then have "compar y a thunk = 0 \<Longrightarrow> filter (\<lambda>x. compar x a thunk = 0) (x # xs) = []"
      by (simp add: filter_empty_conv)
    with False 3 show ?thesis by auto
  qed
qed auto

lemma mergesort_induct [case_names small split]:
  assumes "\<And>base. length base < 2 \<Longrightarrow> P base"
    and "\<And>base. 2 \<le> length base \<Longrightarrow> P (take (length base - length base div 2) base)
          \<Longrightarrow> P (drop (length base - length base div 2) base) \<Longrightarrow> P base"
  shows "P base"
proof (induction base rule: length_induct)
  case (1 base)
  show ?case
  proof (cases "length base < 2")
    case False
    then show ?thesis by (rule_tac assms(2)) (use 1 in auto)
  qed (rule assms(1))
qed

lemma mset_M_sort_mergesort: "mset (M_sort_mergesort base compar thunk) = mset base"
proof (induction base rule: mergesort_induct)
  case (small base)
  then show ?case by (simp add: M_sort_mergesort_rec [of base])
next
  case (split base)
  then show ?case
    by (simp add: M_sort_mergesort_rec [of base] flip: mset_append)
qed

context compar_contract
begin

lemma is_sorted_mergesort: "is_sorted (M_sort_mergesort base compar thunk)"
proof (induction base rule: mergesort_induct)
  case (small base)
  then show ?case by (simp add: M_sort_mergesort_rec [of base] sorted_wrt01)
next
  case (split base)
  then show ?case
    by (simp add: M_sort_mergesort_rec [of base] sorted_merge_spec [OF compar_contract_axioms])
qed

lemma filter_mergesort:
  "filter (\<lambda>x. eq x a) (M_sort_mergesort base compar thunk) = filter (\<lambda>x. eq x a) base"
proof (induction base rule: mergesort_induct)
  case (small base)
  then show ?case by (simp add: M_sort_mergesort_rec [of base])
next
  case (split base)
  then show ?case
    by (simp add: M_sort_mergesort_rec [of base] is_sorted_mergesort
        filter_merge_spec [OF compar_contract_axioms] flip: filter_append)
qed

end

section \<open>Binary search\<close>

context compar_contract
begin

text \<open>
  What the halving loop knows: everything below \<open>left\<close> is less than the key, everything above
  \<open>right\<close> greater; the last comparison says on which side of \<open>mid\<close> the loop has stopped.
\<close>

definition bounds_ok :: "'a list \<Rightarrow> 'a \<Rightarrow> nat \<Rightarrow> int \<Rightarrow> bool" where
  "bounds_ok base key left right \<longleftrightarrow>
     int left \<le> right + 1 \<and> right < int (length base) \<and>
     (\<forall>i<left. lt (base ! i) key) \<and>
     (\<forall>i<length base. right < int i \<longrightarrow> lt key (base ! i))"

definition halve_ok :: "'a list \<Rightarrow> 'a \<Rightarrow> nat \<times> int \<times> nat \<times> int \<Rightarrow> bool" where
  "halve_ok base key = (\<lambda>(left, right, mid, e).
     bounds_ok base key left right \<and>
     (e = 0 \<and> left \<le> mid \<and> int mid \<le> right \<and> eq key (base ! mid)
      \<or> e < 0 \<and> mid = left \<and> right = int left - 1
      \<or> e > 0 \<and> Suc mid = left \<and> right = int left - 1))"

lemma bounds_ok_down:
  assumes "is_sorted base" "bounds_ok base key left right" "left \<le> mid" "int mid \<le> right"
    and "lt key (base ! mid)"
  shows "bounds_ok base key left (int mid - 1)"
proof -
  have "lt key (base ! i)" if "i < length base" "mid \<le> i" for i
    using that assms(1,5) lt_le_trans [of key "base ! mid" "base ! i"]
    by (cases "mid = i") (auto simp: sorted_wrt_iff_nth_less)
  with assms show ?thesis by (auto simp: bounds_ok_def)
qed

lemma bounds_ok_up:
  assumes "is_sorted base" "bounds_ok base key left right" "left \<le> mid" "int mid \<le> right"
    and "lt (base ! mid) key"
  shows "bounds_ok base key (mid + 1) right"
proof -
  have "lt (base ! i) key" if "i \<le> mid" for i
    using that assms le_lt_trans [of "base ! i" "base ! mid" key]
    by (cases "i = mid") (auto simp: sorted_wrt_iff_nth_less bounds_ok_def)
  with assms show ?thesis by (auto simp: bounds_ok_def)
qed

lemma halve_mid: "int l \<le> r \<Longrightarrow> l \<le> nat (int l + r) div 2 \<and> int (nat (int l + r) div 2) \<le> r"
  by auto

end

lemma binary_halve_ok:
  assumes "compar_contract compar thunk"
    and "sorted_wrt (\<lambda>a b. compar a b thunk \<le> 0) base"
    and "compar_contract.bounds_ok compar thunk base key left right"
    and "right < int left \<longrightarrow> e < 0 \<and> mid = left \<or> e > 0 \<and> Suc mid = left"
  shows "compar_contract.halve_ok compar thunk base key
           (binary_halve compar thunk base key left right mid e)"
  using assms
proof (induction compar thunk base key left right mid e rule: binary_halve.induct)
  case (1 compar thunk base key left right mid e)
  note contract = "1.prems"(1)
  note [simp] = binary_halve.simps [of compar thunk base key left right mid e] Let_def
  let ?m = "nat (int left + right) div 2"
  show ?case
  proof (cases "int left \<le> right")
    case True
    note m = compar_contract.halve_mid [OF contract True]
    consider "compar key (base ! ?m) thunk = 0" | "compar key (base ! ?m) thunk < 0"
      | "compar key (base ! ?m) thunk > 0" by linarith
    then show ?thesis
    proof cases
      case 1
      with True m "1.prems" show ?thesis by (simp add: compar_contract.halve_ok_def)
    next
      case 2
      then have b: "compar_contract.bounds_ok compar thunk base key left (int ?m - 1)"
        using compar_contract.bounds_ok_down [OF contract "1.prems"(2,3)] m by simp
      show ?thesis
        using "1.IH"(1) [OF True refl refl _ _ contract "1.prems"(2) b] True 2 m by simp
    next
      case 3
      then have "compar (base ! ?m) key thunk < 0"
        using compar_contract.compar_swap [OF contract] by blast
      then have b: "compar_contract.bounds_ok compar thunk base key (?m + 1) right"
        using compar_contract.bounds_ok_up [OF contract "1.prems"(2,3)] m by simp
      show ?thesis
        using "1.IH"(2) [OF True refl refl _ _ contract "1.prems"(2) b] True 3 m by simp
    qed
  next
    case False
    with "1.prems" show ?thesis
      by (auto simp: compar_contract.halve_ok_def compar_contract.bounds_ok_def)
  qed
qed

context compar_contract
begin

lemma binary_halve_init:
  assumes "is_sorted base" "base \<noteq> []"
  shows "halve_ok base key (binary_halve compar thunk base key 0 (int (length base) - 1) 0 1)"
  using assms
  by (intro binary_halve_ok compar_contract_axioms) (auto simp: bounds_ok_def)

lemma binary_halve_cases:
  assumes "is_sorted base" "base \<noteq> []"
  obtains left right mid e
  where "binary_halve compar thunk base key 0 (int (length base) - 1) 0 1 = (left, right, mid, e)"
    and "bounds_ok base key left right"
    and "e = 0 \<and> left \<le> mid \<and> int mid \<le> right \<and> eq key (base ! mid)
      \<or> e < 0 \<and> mid = left \<and> right = int left - 1
      \<or> e > 0 \<and> Suc mid = left \<and> right = int left - 1"
  using binary_halve_init [OF assms, of key]
  by (cases "binary_halve compar thunk base key 0 (int (length base) - 1) 0 1")
    (auto simp: halve_ok_def)

lemma binary_first_ok:
  assumes "eq key (base ! mid)" and "left \<le> mid" and "\<forall>i<left. lt (base ! i) key"
    and "is_sorted base" and "mid < length base"
  shows "binary_first compar thunk base key left mid \<le> mid
    \<and> eq key (base ! binary_first compar thunk base key left mid)
    \<and> (\<forall>i<binary_first compar thunk base key left mid. lt (base ! i) key)"
  using assms(1,2,5)
proof (induction mid)
  case 0
  then show ?case by (simp add: binary_first.simps [of _ _ _ _ _ 0])
next
  case (Suc m)
  note [simp] = binary_first.simps [of compar thunk base key left "Suc m"]
  show ?case
  proof (cases "eq key (base ! m)")
    case True
    moreover have "left \<le> m"
    proof (rule ccontr)
      assume "\<not> left \<le> m"
      then have "lt (base ! m) key" using assms(3) by simp
      with True show False using compar_swap [of "base ! m" key] by simp
    qed
    ultimately show ?thesis using Suc by auto
  next
    case False
    have "le (base ! m) key"
      using assms(4) Suc.prems eq_iff le_eq_cong2 [of key "base ! Suc m" "base ! m"]
      by (auto simp: sorted_wrt_iff_nth_less)
    with False have "lt (base ! m) key" using eq_sym [of key "base ! m"] by auto
    then have "lt (base ! i) key" if "i \<le> m" for i
      using that assms(4) Suc.prems le_lt_trans [of "base ! i" "base ! m" key]
      by (cases "i = m") (auto simp: sorted_wrt_iff_nth_less)
    with False Suc.prems show ?thesis by (simp add: less_Suc_eq_le)
  qed
qed

lemma binary_last_ok:
  assumes "mid \<le> right"
  shows "mid \<le> binary_last compar thunk base key right mid 0
    \<and> binary_last compar thunk base key right mid 0 \<le> right
    \<and> (\<forall>i. mid < i \<longrightarrow> i < binary_last compar thunk base key right mid 0 \<longrightarrow> eq key (base ! i))
    \<and> (binary_last compar thunk base key right mid 0 < right \<longrightarrow>
         \<not> eq key (base ! binary_last compar thunk base key right mid 0))"
  using assms
proof (induction "right - mid" arbitrary: mid)
  case 0
  then show ?case by (simp add: binary_last.simps [of _ _ _ _ _ mid])
next
  case (Suc d)
  then have lt: "mid < right" by simp
  note u = binary_last.simps [of compar thunk base key right mid 0]
  show ?case
  proof (cases "eq key (base ! Suc mid)")
    case True
    have "d = right - Suc mid" "Suc mid \<le> right" using Suc.hyps(2) lt by simp_all
    from Suc.hyps(1) [OF this] True lt show ?thesis
      by (auto simp: u less_Suc_eq_le) (metis Suc_lessI)+
  next
    case False
    with lt show ?thesis
      by (auto simp: u binary_last.simps [of compar thunk base key right "Suc mid"])
  qed
qed

lemma binary_last_stop:
  "e \<noteq> 0 \<Longrightarrow> binary_last compar thunk base key right mid e = mid"
  by (simp add: binary_last.simps [of _ _ _ _ _ mid])

lemma search_idx_sound:
  assumes "is_sorted base" "base \<noteq> []"
    and "binary_search_idx base key compar thunk True is_stable = (True, idx)"
  shows "idx < length base \<and> eq key (base ! idx) \<and> (is_stable \<longrightarrow> (\<forall>i<idx. lt (base ! i) key))"
proof -
  obtain left right mid e where h:
      "binary_halve compar thunk base key 0 (int (length base) - 1) 0 1 = (left, right, mid, e)"
    and b: "bounds_ok base key left right"
    and c: "e = 0 \<and> left \<le> mid \<and> int mid \<le> right \<and> eq key (base ! mid)
      \<or> e < 0 \<and> mid = left \<and> right = int left - 1
      \<or> e > 0 \<and> Suc mid = left \<and> right = int left - 1"
    using binary_halve_cases [OF assms(1,2)] .
  from assms(3) h have "e = 0" by (auto simp: binary_search_idx_def split: if_splits)
  with c b have m: "left \<le> mid" "mid < length base" "eq key (base ! mid)"
      "\<forall>i<left. lt (base ! i) key"
    by (auto simp: bounds_ok_def)
  from assms(3) h \<open>e = 0\<close> have "idx = (if is_stable then binary_first compar thunk base key left mid else mid)"
    by (auto simp: binary_search_idx_def split: if_splits)
  with m binary_first_ok [OF m(3,1,4) assms(1) m(2)] show ?thesis by auto
qed

lemma search_idx_complete:
  assumes "is_sorted base" "base \<noteq> []" "i < length base" "eq key (base ! i)"
  shows "fst (binary_search_idx base key compar thunk True is_stable)"
proof -
  obtain left right mid e where h:
      "binary_halve compar thunk base key 0 (int (length base) - 1) 0 1 = (left, right, mid, e)"
    and b: "bounds_ok base key left right"
    and c: "e = 0 \<and> left \<le> mid \<and> int mid \<le> right \<and> eq key (base ! mid)
      \<or> e < 0 \<and> mid = left \<and> right = int left - 1
      \<or> e > 0 \<and> Suc mid = left \<and> right = int left - 1"
    using binary_halve_cases [OF assms(1,2)] .
  have "e = 0"
  proof (rule ccontr)
    assume "e \<noteq> 0"
    with c have "right = int left - 1" by auto
    with b assms(3) have "lt (base ! i) key \<or> lt key (base ! i)"
      by (cases "i < left") (auto simp: bounds_ok_def)
    with assms(4) show False using compar_swap [of "base ! i" key] by auto
  qed
  with h show ?thesis by (simp add: binary_search_idx_def)
qed

lemma sorted_nth_le: "is_sorted base \<Longrightarrow> i \<le> j \<Longrightarrow> j < length base \<Longrightarrow> le (base ! i) (base ! j)"
  using sorted_wrt_nth_less [of le base i j] by (cases "i = j") auto

lemma binary_search_sound:
  assumes "is_sorted base" and "M_sort_binary_search base key is_stable compar thunk = (True, idx)"
  shows "idx < length base \<and> eq key (base ! idx) \<and> (is_stable \<longrightarrow> (\<forall>i<idx. lt (base ! i) key))"
proof -
  from assms(2) have "base \<noteq> []"
    by (auto simp: M_sort_binary_search_def M_sort_binary_idx_def)
  show ?thesis
  proof (cases "binary_search_idx base key compar thunk True is_stable = (True, idx)")
    case True
    with assms(1) \<open>base \<noteq> []\<close> show ?thesis by (rule search_idx_sound)
  next
    case False
    with assms(2) \<open>base \<noteq> []\<close> show ?thesis
      by (auto simp: M_sort_binary_search_def M_sort_binary_idx_def Let_def split: if_splits)
  qed
qed

lemma binary_search_complete:
  assumes "is_sorted base" and "i < length base" and "eq key (base ! i)"
  shows "fst (M_sort_binary_search base key is_stable compar thunk)"
proof -
  from assms(2) have "base \<noteq> []" by auto
  have "le key (base ! (length base - 1))" and "le (base ! 0) key"
    using sorted_nth_le [OF assms(1), of i "length base - 1"] sorted_nth_le [OF assms(1), of 0 i]
      assms(2) le_eq_cong [OF assms(3)] le_eq_cong2 [OF assms(3)] by simp_all
  then have "\<not> compar key (base ! (length base - 1)) thunk > 0" "\<not> compar key (base ! 0) thunk < 0"
    using compar_swap [of key "base ! 0"] by auto
  then show ?thesis
    using search_idx_complete [OF assms(1) \<open>base \<noteq> []\<close> assms(2,3)] \<open>base \<noteq> []\<close>
    by (auto simp: M_sort_binary_search_def M_sort_binary_idx_def Let_def)
qed

text \<open>Where an element may be inserted without losing the order.\<close>

definition insertable :: "'a list \<Rightarrow> 'a \<Rightarrow> nat \<Rightarrow> bool" where
  "insertable base key idx \<longleftrightarrow>
     idx \<le> length base \<and> (\<forall>i<idx. le (base ! i) key) \<and> (\<forall>i<length base. idx \<le> i \<longrightarrow> le key (base ! i))"

lemma is_sorted_insert:
  assumes "is_sorted base" "insertable base key idx"
  shows "is_sorted (take idx base @ key # drop idx base)"
proof -
  have "\<forall>x\<in>set (take idx base). le x key" "\<forall>x\<in>set (drop idx base). le key x"
    using assms(2) by (auto simp: insertable_def in_set_conv_nth)
  moreover have "is_sorted (take idx base @ drop idx base)" using assms(1) by simp
  ultimately show ?thesis by (auto simp: sorted_wrt_append simp del: append_take_drop_id)
qed

lemma search_idx_insert:
  assumes "is_sorted base" "base \<noteq> []"
  shows "\<exists>idx. binary_search_idx base key compar thunk False is_stable = (True, idx)
           \<and> insertable base key idx"
proof -
  obtain left right mid e where h:
      "binary_halve compar thunk base key 0 (int (length base) - 1) 0 1 = (left, right, mid, e)"
    and b: "bounds_ok base key left right"
    and c: "e = 0 \<and> left \<le> mid \<and> int mid \<le> right \<and> eq key (base ! mid)
      \<or> e < 0 \<and> mid = left \<and> right = int left - 1
      \<or> e > 0 \<and> Suc mid = left \<and> right = int left - 1"
    using binary_halve_cases [OF assms] .
  show ?thesis
  proof (cases "e = 0")
    case False
    with c have "(if e > 0 then mid + 1 else mid) = left" "right = int left - 1" by auto
    moreover from this b have "insertable base key left"
      by (auto simp: bounds_ok_def insertable_def)
    ultimately show ?thesis using h False by (auto simp: binary_search_idx_def binary_last_stop)
  next
    case True
    with c have m: "int mid \<le> right" "eq key (base ! mid)" by auto
    from b m have r: "mid \<le> nat right" "nat right < length base" by (auto simp: bounds_ok_def)
    let ?g = "if is_stable then binary_last compar thunk base key (nat right) mid 0 else mid"
    have g: "mid \<le> ?g" "?g < length base"
      using binary_last_ok [OF r(1), of base key] r by auto
    have ge: "eq key (base ! i)" if "mid \<le> i" "i < ?g" for i
      using binary_last_ok [OF r(1), of base key] that m(2)
      by (cases "i = mid"; cases is_stable) auto
    have "le (base ! i) key" if "i < ?g" for i
    proof (cases "i < mid")
      case True
      then have "le (base ! i) (base ! mid)" using assms(1) r by (intro sorted_nth_le) auto
      with m(2) show ?thesis using le_eq_cong2 by blast
    next
      case False
      with that ge [of i] show ?thesis using eq_iff by auto
    qed
    moreover have "le key (base ! i)" if "i < length base" "?g \<le> i" for i
    proof -
      have "le (base ! mid) (base ! i)" using assms(1) that g(1) by (intro sorted_nth_le) auto
      with m(2) show ?thesis using le_eq_cong by blast
    qed
    ultimately have "insertable base key ?g" using g(2) by (auto simp: insertable_def)
    then show ?thesis using h True by (auto simp: binary_search_idx_def)
  qed
qed

lemma binary_insert_idx_insertable:
  assumes "is_sorted base"
  shows "insertable base key (M_sort_binary_insert_idx base key is_stable compar thunk)"
proof (cases "base = []")
  case True
  then show ?thesis
    by (simp add: M_sort_binary_insert_idx_def M_sort_binary_idx_def insertable_def)
next
  case False
  obtain idx where "binary_search_idx base key compar thunk False is_stable = (True, idx)"
    and ok: "insertable base key idx"
    using search_idx_insert [OF assms False] by blast
  moreover have "insertable base key (length base)" if "compar key (base ! (length base - 1)) thunk \<ge> 0"
  proof -
    have "le (base ! (length base - 1)) key"
      using that compar_swap [of key "base ! (length base - 1)"] by auto
    moreover have "le (base ! i) (base ! (length base - 1))" if "i < length base" for i
      using assms that by (intro sorted_nth_le) auto
    ultimately show ?thesis using compar_trans by (auto simp: insertable_def)
  qed
  moreover have "insertable base key 0" if "le key (base ! 0)"
    using compar_trans [OF that] sorted_nth_le [OF assms, of 0] by (auto simp: insertable_def)
  ultimately show ?thesis
    using False
    by (auto simp: M_sort_binary_insert_idx_def M_sort_binary_idx_def Let_def not_less)
qed

text \<open>
  In stable mode the forward scan stops at \<open>right\<close>, an index of the array, so a key that
  equals the last element is never placed after it.
\<close>

lemma binary_insert_idx_stable_before_last:
  assumes "is_sorted base" "base \<noteq> []" "eq key (base ! (length base - 1))"
  shows "M_sort_binary_insert_idx base key True compar thunk < length base"
proof -
  obtain left right mid e where h:
      "binary_halve compar thunk base key 0 (int (length base) - 1) 0 1 = (left, right, mid, e)"
    and b: "bounds_ok base key left right"
    and c: "e = 0 \<and> left \<le> mid \<and> int mid \<le> right \<and> eq key (base ! mid)
      \<or> e < 0 \<and> mid = left \<and> right = int left - 1
      \<or> e > 0 \<and> Suc mid = left \<and> right = int left - 1"
    using binary_halve_cases [OF assms(1,2)] .
  have "e = 0"
  proof (rule ccontr)
    assume "e \<noteq> 0"
    with c have "right = int left - 1" by auto
    with b assms(2) have "lt (base ! (length base - 1)) key \<or> lt key (base ! (length base - 1))"
      by (cases "length base - 1 < left") (auto simp: bounds_ok_def)
    with assms(3) show False using compar_swap [of "base ! (length base - 1)" key] by auto
  qed
  with b c have "mid \<le> nat right" "nat right < length base" by (auto simp: bounds_ok_def)
  with binary_last_ok [of mid "nat right" base key] h \<open>e = 0\<close> assms(2) show ?thesis
    by (simp add: M_sort_binary_insert_idx_def M_sort_binary_idx_def binary_search_idx_def Let_def)
qed

end

section \<open>Properties\<close>

text \<open>
  C1. \<open>M_sort_mergesort\<close> gives, for every comparison callback that meets its contract, a
  permutation of the input array that is sorted and in which elements that compare equal keep
  their order.
\<close>

theorem M_sort_mergesort_correct:
  assumes "compar_contract compar thunk"
  shows "mset (M_sort_mergesort base compar thunk) = mset base
    \<and> sorted_wrt (\<lambda>a b. compar a b thunk \<le> 0) (M_sort_mergesort base compar thunk)
    \<and> (\<forall>a. filter (\<lambda>x. compar x a thunk = 0) (M_sort_mergesort base compar thunk)
           = filter (\<lambda>x. compar x a thunk = 0) base)"
  by (simp add: mset_M_sort_mergesort compar_contract.is_sorted_mergesort [OF assms]
      compar_contract.filter_mergesort [OF assms])

theorem M_sort_mergesort_correct_witness:
  "M_sort_mergesort [Some 3, Some 1, Some 2 :: M_uint64 option] M_sort_compar_u64 () = [Some 1, Some 2, Some 3]
   \<and> mset (M_sort_mergesort [Some 3, Some 1, Some 2 :: M_uint64 option] M_sort_compar_u64 ())
     = mset [Some 3, Some 1, Some 2]"
proof -
  have "M_sort_mergesort [Some 3, Some 1, Some 2 :: M_uint64 option] M_sort_compar_u64 () = [Some 1, Some 2, Some 3]"
    by code_simp
  then show ?thesis
    using M_sort_mergesort_correct [OF compar_u64.compar_contract_axioms,
        where base = "[Some 3, Some 1, Some 2]" and thunk = "()"]
    by simp
qed

text \<open>
  C2. a binary search in a sorted array finds the key exactly when an equal element is there;
  the index it gives holds an equal element, and in stable mode it is the first one.
\<close>

theorem M_sort_binary_search_correct:
  assumes "compar_contract compar thunk"
    and "sorted_wrt (\<lambda>a b. compar a b thunk \<le> 0) base"
  shows "(fst (M_sort_binary_search base key is_stable compar thunk)
            \<longleftrightarrow> (\<exists>i<length base. compar key (base ! i) thunk = 0))
    \<and> (\<forall>idx. M_sort_binary_search base key is_stable compar thunk = (True, idx) \<longrightarrow>
          idx < length base \<and> compar key (base ! idx) thunk = 0
          \<and> (is_stable \<longrightarrow> (\<forall>i<idx. compar (base ! i) key thunk < 0)))"
  using compar_contract.binary_search_sound [OF assms] compar_contract.binary_search_complete [OF assms]
  by (metis (full_types) prod.collapse)

theorem M_sort_binary_search_correct_witness:
  "M_sort_binary_search [Some 1, Some 4, Some 4, Some 9] (Some 4) True M_sort_compar_u64 () = (True, 1)
   \<and> compar_contract M_sort_compar_u64 ()
   \<and> (\<exists>i<length [Some 1, Some 4, Some 4, Some 9 :: M_uint64 option].
        M_sort_compar_u64 (Some 4) ([Some 1, Some 4, Some 4, Some 9] ! i) () = 0)"
proof -
  have s: "sorted_wrt (\<lambda>a b. M_sort_compar_u64 a b () \<le> 0) [Some 1, Some 4, Some 4, Some 9]"
    by code_simp
  have r: "M_sort_binary_search [Some 1, Some 4, Some 4, Some 9] (Some 4) True M_sort_compar_u64 () = (True, 1)"
    by code_simp
  show ?thesis
    using M_sort_binary_search_correct [OF compar_u64.compar_contract_axioms s, of "Some 4" True] r
      compar_u64.compar_contract_axioms by auto
qed

text \<open>
  C3. inserting an element at the index \<open>M_sort_binary_insert_idx\<close> gives keeps a sorted array
  sorted, in stable and in unstable mode.
\<close>

theorem M_sort_binary_insert_idx_sorted:
  assumes "compar_contract compar thunk"
    and "sorted_wrt (\<lambda>a b. compar a b thunk \<le> 0) base"
    and "idx = M_sort_binary_insert_idx base key is_stable compar thunk"
  shows "idx \<le> length base
    \<and> sorted_wrt (\<lambda>a b. compar a b thunk \<le> 0) (take idx base @ key # drop idx base)"
  using compar_contract.is_sorted_insert [OF assms(1,2)]
    compar_contract.binary_insert_idx_insertable [OF assms(1,2)] assms(3)
  by (auto simp: compar_contract.insertable_def [OF assms(1)])

theorem M_sort_binary_insert_idx_sorted_witness:
  "M_sort_binary_insert_idx [Some 1, Some 4, Some 9] (Some 5) False M_sort_compar_u64 () = 2
   \<and> sorted_wrt (\<lambda>a b. M_sort_compar_u64 a b () \<le> 0)
       (take 2 [Some 1, Some 4, Some 9] @ Some 5 # drop 2 [Some 1, Some 4, Some 9])"
proof -
  have s: "sorted_wrt (\<lambda>a b. M_sort_compar_u64 a b () \<le> 0) [Some 1, Some 4, Some 9]"
    by code_simp
  have r: "2 = M_sort_binary_insert_idx [Some 1, Some 4, Some 9] (Some 5) False M_sort_compar_u64 ()"
    by code_simp
  show ?thesis
    using M_sort_binary_insert_idx_sorted [OF compar_u64.compar_contract_axioms s r] r by simp
qed

text \<open>
  in stable mode the insertion index of a key that compares equal to the last element of a
  sorted array lies before that element, so the new element does not go after its equals and
  the index is not \<open>nmemb\<close> as the header promises for a key not less than the last element.
\<close>

lemma M_sort_binary_insert_idx_stable_before_last:
  assumes "compar_contract compar thunk"
    and "sorted_wrt (\<lambda>a b. compar a b thunk \<le> 0) base" and "base \<noteq> []"
    and "compar key (last base) thunk = 0"
  shows "M_sort_binary_insert_idx base key True compar thunk < length base"
  using compar_contract.binary_insert_idx_stable_before_last [OF assms(1-3)] assms(3,4)
  by (simp add: last_conv_nth)

lemma M_sort_binary_insert_idx_stable_before_last_example:
  "M_sort_binary_insert_idx [Some 5] (Some 5) True M_sort_compar_u64 () < length [Some (5::M_uint64)]"
  by (rule M_sort_binary_insert_idx_stable_before_last [OF compar_u64.compar_contract_axioms])
    (simp_all add: M_sort_compar_u64_def)

end
