(* ===== verification/Qsort.thy ===== *)
theory Qsort
  imports Sort
begin

text \<open>
  Quick sort (\<^verbatim>\<open>src/base/sort/m_sort_qsort.c\<close>): the Bentley and McIlroy partition with
  insertion sort on fewer than seven elements. A pointer into the array is an index, in units
  of elements; the three swap variants of the source differ only in the width of the copies,
  so they are one \<open>sort_swap\<close> of two elements.
\<close>

section \<open>Definitions\<close>

definition sort_swap :: "'a list \<Rightarrow> nat \<Rightarrow> nat \<Rightarrow> 'a list" where
  "sort_swap xs i j = (if i = j then xs else xs[i := xs ! j, j := xs ! i])"

text \<open>\<open>sort_swap_multiple\<close>: exchange \<open>n\<close> consecutive elements, one after the other.\<close>

fun sort_swap_multiple :: "'a list \<Rightarrow> nat \<Rightarrow> nat \<Rightarrow> nat \<Rightarrow> 'a list" where
  "sort_swap_multiple xs pos1 pos2 0 = xs"
| "sort_swap_multiple xs pos1 pos2 (Suc n) =
     sort_swap (sort_swap_multiple xs pos1 pos2 n) (pos1 + n) (pos2 + n)"

text \<open>The inner and the outer loop of \<open>M_sort_insertion\<close>.\<close>

fun insertion_sift :: "('a, 't) M_sort_compar_t \<Rightarrow> 't \<Rightarrow> 'a list \<Rightarrow> nat \<Rightarrow> 'a list" where
  "insertion_sift compar thunk xs 0 = xs"
| "insertion_sift compar thunk xs (Suc p) =
     (if compar (xs ! p) (xs ! Suc p) thunk > 0
      then insertion_sift compar thunk (sort_swap xs (Suc p) p) p else xs)"

lemma length_sort_swap [simp]: "length (sort_swap xs i j) = length xs"
  by (simp add: sort_swap_def)

lemma length_insertion_sift [simp]: "length (insertion_sift compar thunk xs p) = length xs"
  by (induction p arbitrary: xs) auto

function insertion_loop :: "('a, 't) M_sort_compar_t \<Rightarrow> 't \<Rightarrow> 'a list \<Rightarrow> nat \<Rightarrow> 'a list" where
  "insertion_loop compar thunk xs i =
     (if i < length xs then insertion_loop compar thunk (insertion_sift compar thunk xs i) (i + 1)
      else xs)"
  by pat_completeness auto
termination
  by (relation "measure (\<lambda>(c, t, xs, i). length xs - i)") auto

declare insertion_loop.simps [simp del]

definition M_sort_insertion :: "'a list \<Rightarrow> ('a, 't) M_sort_compar_t \<Rightarrow> 't \<Rightarrow> 'a list" where
  "M_sort_insertion base compar thunk = insertion_loop compar thunk base 1"

definition qsort_median ::
  "'a list \<Rightarrow> nat \<Rightarrow> nat \<Rightarrow> nat \<Rightarrow> ('a, 't) M_sort_compar_t \<Rightarrow> 't \<Rightarrow> nat" where
  "qsort_median xs a b c compar thunk =
     (if compar (xs ! a) (xs ! b) thunk < 0 then
        if compar (xs ! b) (xs ! c) thunk < 0 then b
        else if compar (xs ! a) (xs ! c) thunk < 0 then c
        else a
      else if compar (xs ! b) (xs ! c) thunk > 0 then b
      else if compar (xs ! a) (xs ! c) thunk < 0 then a
      else c)"

definition qsort_choose_pivot :: "'a list \<Rightarrow> ('a, 't) M_sort_compar_t \<Rightarrow> 't \<Rightarrow> nat" where
  "qsort_choose_pivot xs compar thunk =
     (let nmemb = length xs; middle = nmemb div 2 in
      if nmemb > 7 then
        let left = 0; right = nmemb - 1;
            (left, middle, right) =
              (if nmemb > 40 then
                 let srange = nmemb div 8 in
                 (qsort_median xs left (left + srange) (left + 2 * srange) compar thunk,
                  qsort_median xs (middle - srange) middle (middle + srange) compar thunk,
                  qsort_median xs (right - 2 * srange) (right - srange) right compar thunk)
               else (left, middle, right))
        in qsort_median xs left middle right compar thunk
      else middle)"

text \<open>
  The two scanning loops; they give the array and the indices they moved. \<open>left2\<close> starts at 1,
  so \<open>left2 \<le> right1\<close> implies \<open>0 < right1\<close>; the second loop repeats that test to be total.
\<close>

function scan_left ::
  "('a, 't) M_sort_compar_t \<Rightarrow> 't \<Rightarrow> 'a list \<Rightarrow> nat \<Rightarrow> nat \<Rightarrow> nat \<Rightarrow> 'a list \<times> nat \<times> nat" where
  "scan_left compar thunk xs left1 left2 right1 =
     (if left2 \<le> right1 \<and> compar (xs ! left2) (xs ! 0) thunk \<le> 0 then
        if compar (xs ! left2) (xs ! 0) thunk = 0
        then scan_left compar thunk (sort_swap xs left1 left2) (left1 + 1) (left2 + 1) right1
        else scan_left compar thunk xs left1 (left2 + 1) right1
      else (xs, left1, left2))"
  by pat_completeness auto
termination
  by (relation "measure (\<lambda>(c, t, xs, left1, left2, right1). right1 + 1 - left2)") auto

function scan_right ::
  "('a, 't) M_sort_compar_t \<Rightarrow> 't \<Rightarrow> 'a list \<Rightarrow> nat \<Rightarrow> nat \<Rightarrow> nat \<Rightarrow> 'a list \<times> nat \<times> nat" where
  "scan_right compar thunk xs left2 right1 right2 =
     (if 0 < right1 \<and> left2 \<le> right1 \<and> compar (xs ! right1) (xs ! 0) thunk \<ge> 0 then
        if compar (xs ! right1) (xs ! 0) thunk = 0
        then scan_right compar thunk (sort_swap xs right1 right2) left2 (right1 - 1) (right2 - 1)
        else scan_right compar thunk xs left2 (right1 - 1) right2
      else (xs, right1, right2))"
  by pat_completeness auto
termination
  by (relation "measure (\<lambda>(c, t, xs, left2, right1, right2). right1)") auto

declare scan_left.simps [simp del] scan_right.simps [simp del]

lemma length_scan_left: "length (fst (scan_left compar thunk xs l1 l2 r1)) = length xs"
proof (induction compar thunk xs l1 l2 r1 rule: scan_left.induct)
  case (1 compar thunk xs l1 l2 r1)
  then show ?case by (simp add: scan_left.simps [of _ _ xs l1 l2 r1])
qed

lemma length_scan_right: "length (fst (scan_right compar thunk xs l2 r1 r2)) = length xs"
proof (induction compar thunk xs l2 r1 r2 rule: scan_right.induct)
  case (1 compar thunk xs l2 r1 r2)
  then show ?case by (simp add: scan_right.simps [of _ _ xs l2 r1 r2])
qed

lemma scan_left_mono:
  "scan_left compar thunk xs l1 l2 r1 = (xs', l1', l2') \<Longrightarrow> l2 \<le> l2'"
proof (induction compar thunk xs l1 l2 r1 rule: scan_left.induct)
  case (1 compar thunk xs l1 l2 r1)
  then show ?case by (fastforce simp: scan_left.simps [of _ _ xs l1 l2 r1] split: if_splits)
qed

lemma scan_right_mono:
  "scan_right compar thunk xs l2 r1 r2 = (xs', r1', r2') \<Longrightarrow> r1' \<le> r1"
proof (induction compar thunk xs l2 r1 r2 rule: scan_right.induct)
  case (1 compar thunk xs l2 r1 r2)
  then have "r1' \<le> r1 - 1 \<or> r1' = r1"
    by (auto simp: scan_right.simps [of _ _ xs l2 r1 r2] split: if_splits)
  then show ?case by auto
qed

text \<open>The \<open>while (1)\<close> loop of the partition.\<close>

function qsort_partition ::
  "('a, 't) M_sort_compar_t \<Rightarrow> 't \<Rightarrow> 'a list \<Rightarrow> nat \<Rightarrow> nat \<Rightarrow> nat \<Rightarrow> nat
     \<Rightarrow> 'a list \<times> nat \<times> nat \<times> nat \<times> nat" where
  "qsort_partition compar thunk xs left1 left2 right1 right2 =
     (let (xs, left1, left2) = scan_left compar thunk xs left1 left2 right1;
          (xs, right1, right2) = scan_right compar thunk xs left2 right1 right2
      in if left2 > right1 then (xs, left1, left2, right1, right2)
         else qsort_partition compar thunk (sort_swap xs left2 right1) left1 (left2 + 1)
                (right1 - 1) right2)"
  by pat_completeness auto
termination
  by (relation "measure (\<lambda>(c, t, xs, left1, left2, right1, right2). right1 + 1 - left2)")
    (auto dest!: scan_left_mono scan_right_mono sym [of _ "scan_left _ _ _ _ _ _"]
      sym [of _ "scan_right _ _ _ _ _ _"])

declare qsort_partition.simps [simp del]

text \<open>
  Whatever the comparison answers, the indices stay ordered and in the array, so both parts
  that are sorted next are smaller than the array.
\<close>

definition part_bounds :: "nat \<Rightarrow> nat \<Rightarrow> nat \<Rightarrow> nat \<Rightarrow> nat \<Rightarrow> bool" where
  "part_bounds n l1 l2 r1 r2 \<longleftrightarrow> 1 \<le> l1 \<and> l1 \<le> l2 \<and> l2 \<le> r1 + 1 \<and> r1 \<le> r2 \<and> r2 < n"

lemma scan_left_bounds:
  "scan_left compar thunk xs l1 l2 r1 = (xs', l1', l2') \<Longrightarrow> part_bounds n l1 l2 r1 r2 \<Longrightarrow>
     part_bounds n l1' l2' r1 r2"
proof (induction compar thunk xs l1 l2 r1 rule: scan_left.induct)
  case (1 compar thunk xs l1 l2 r1)
  then show ?case
    by (auto simp: scan_left.simps [of _ _ xs l1 l2 r1] part_bounds_def split: if_splits)
qed

lemma scan_right_bounds:
  "scan_right compar thunk xs l2 r1 r2 = (xs', r1', r2') \<Longrightarrow> part_bounds n l1 l2 r1 r2 \<Longrightarrow>
     part_bounds n l1 l2 r1' r2'"
proof (induction compar thunk xs l2 r1 r2 rule: scan_right.induct)
  case (1 compar thunk xs l2 r1 r2)
  have *: "l2 \<le> r1 \<Longrightarrow> part_bounds n l1 l2 (r1 - 1) (r2 - 1)"
    "l2 \<le> r1 \<Longrightarrow> part_bounds n l1 l2 (r1 - 1) r2"
    using 1(4) by (auto simp: part_bounds_def)
  show ?case using 1(1,2,3,4) *
    by (auto simp: scan_right.simps [of _ _ xs l2 r1 r2] split: if_splits)
qed

text \<open>What the element at which a scan stops compares to.\<close>

lemma scan_left_stop:
  "scan_left compar thunk xs l1 l2 r1 = (xs', l1', l2') \<Longrightarrow> l2' \<le> r1 \<Longrightarrow>
     compar (xs' ! l2') (xs' ! 0) thunk > 0"
proof (induction compar thunk xs l1 l2 r1 rule: scan_left.induct)
  case (1 compar thunk xs l1 l2 r1)
  then show ?case by (auto simp: scan_left.simps [of _ _ xs l1 l2 r1] split: if_splits)
qed

lemma sort_swap_0 [simp]: "0 < i \<Longrightarrow> 0 < j \<Longrightarrow> sort_swap xs i j ! 0 = xs ! 0"
  by (simp add: sort_swap_def)

lemma sort_swap_other: "k \<noteq> i \<Longrightarrow> k \<noteq> j \<Longrightarrow> sort_swap xs i j ! k = xs ! k"
  by (simp add: sort_swap_def)

lemma scan_right_stop:
  "scan_right compar thunk xs l2 r1 r2 = (xs', r1', r2') \<Longrightarrow> 0 < l2 \<Longrightarrow> r1 \<le> r2 \<Longrightarrow>
     (l2 \<le> r1 \<Longrightarrow> compar (xs ! l2) (xs ! 0) thunk > 0) \<Longrightarrow> l2 \<le> r1' \<Longrightarrow>
     compar (xs' ! l2) (xs' ! 0) thunk > 0 \<and> compar (xs' ! r1') (xs' ! 0) thunk < 0"
proof (induction compar thunk xs l2 r1 r2 rule: scan_right.induct)
  case (1 compar thunk xs l2 r1 r2)
  consider (stop) "\<not> (0 < r1 \<and> l2 \<le> r1 \<and> compar (xs ! r1) (xs ! 0) thunk \<ge> 0)"
    | (eq) "0 < r1 \<and> l2 \<le> r1 \<and> compar (xs ! r1) (xs ! 0) thunk \<ge> 0"
        "compar (xs ! r1) (xs ! 0) thunk = 0"
    | (gt) "0 < r1 \<and> l2 \<le> r1 \<and> compar (xs ! r1) (xs ! 0) thunk \<ge> 0"
        "compar (xs ! r1) (xs ! 0) thunk \<noteq> 0"
    by blast
  then show ?case
  proof cases
    case stop
    then show ?thesis using 1(3-) by (auto simp: scan_right.simps [of _ _ xs l2 r1 r2])
  next
    case eq
    have "l2 \<noteq> r1" using eq 1(6) by auto
    then show ?thesis
      using 1(1) [OF eq] 1(3-) eq
      by (auto simp: scan_right.simps [of _ _ xs l2 r1 r2] sort_swap_other)
  next
    case gt
    then show ?thesis
      using 1(2) [OF gt] 1(3-) by (auto simp: scan_right.simps [of _ _ xs l2 r1 r2])
  qed
qed

lemma scans_stop:
  assumes "scan_left compar thunk xs l1 l2 r1 = (xs1, l1', l2')"
    and "scan_right compar thunk xs1 l2' r1 r2 = (xs2, r1', r2')"
    and "part_bounds n l1 l2 r1 r2" "l2' \<le> r1'"
  shows "l2' < r1' \<and> compar (xs2 ! l2') (xs2 ! 0) thunk > 0 \<and> compar (xs2 ! r1') (xs2 ! 0) thunk < 0"
proof -
  have "0 < l2'" "r1 \<le> r2"
    using scan_left_bounds [OF assms(1,3)] by (auto simp: part_bounds_def)
  then have "compar (xs2 ! l2') (xs2 ! 0) thunk > 0 \<and> compar (xs2 ! r1') (xs2 ! 0) thunk < 0"
    using scan_right_stop [OF assms(2)] scan_left_stop [OF assms(1)] assms(4) by blast
  moreover from this have "l2' \<noteq> r1'" by auto
  ultimately show ?thesis using assms(4) by simp
qed

lemma qsort_partition_bounds:
  "qsort_partition compar thunk xs l1 l2 r1 r2 = (xs', l1', l2', r1', r2') \<Longrightarrow>
     part_bounds n l1 l2 r1 r2 \<Longrightarrow> length xs' = length xs \<and> part_bounds n l1' l2' r1' r2'"
proof (induction compar thunk xs l1 l2 r1 r2 rule: qsort_partition.induct)
  case (1 compar thunk xs l1 l2 r1 r2)
  obtain xsl l1l l2l where l: "scan_left compar thunk xs l1 l2 r1 = (xsl, l1l, l2l)"
    by (cases "scan_left compar thunk xs l1 l2 r1")
  obtain xsr r1r r2r where r: "scan_right compar thunk xsl l2l r1 r2 = (xsr, r1r, r2r)"
    by (cases "scan_right compar thunk xsl l2l r1 r2")
  have len: "length xsl = length xs" "length xsr = length xs"
    using length_scan_left [of compar thunk xs l1 l2 r1] l
      length_scan_right [of compar thunk xsl l2l r1 r2] r by auto
  have b: "part_bounds n l1l l2l r1r r2r"
    using scan_right_bounds [OF r scan_left_bounds [OF l 1(3)]] .
  show ?case
  proof (cases "l2l > r1r")
    case True
    then show ?thesis using 1(2) b len by (simp add: qsort_partition.simps [of _ _ xs] l r)
  next
    case False
    then have "part_bounds n l1l (l2l + 1) (r1r - 1) r2r"
      using b scans_stop [OF l r 1(3)] by (auto simp: part_bounds_def)
    then show ?thesis
      using 1(1) [OF l [symmetric] refl refl r [symmetric] refl refl False] 1(2) False len
      by (simp add: qsort_partition.simps [of _ _ xs] l r)
  qed
qed

lemma length_sort_swap_multiple [simp]: "length (sort_swap_multiple xs p q n) = length xs"
  by (induction n) auto

text \<open>
  One round of the \<open>do\<close> loop up to the recursive call: the rearranged array and the lengths
  of the parts that are left to sort, at its front and at its end.
\<close>

definition qsort_split ::
  "'a list \<Rightarrow> ('a, 't) M_sort_compar_t \<Rightarrow> 't \<Rightarrow> 'a list \<times> nat \<times> nat" where
  "qsort_split base compar thunk =
     (let nmemb = length base;
          pivot = qsort_choose_pivot base compar thunk;
          base = sort_swap base 0 pivot;
          (base, left1, left2, right1, right2) =
            qsort_partition compar thunk base 1 1 (nmemb - 1) (nmemb - 1);
          s = min left1 (left2 - left1);
          base = sort_swap_multiple base 0 (left2 - s) s;
          s = min (right2 - right1) (nmemb - (right2 + 1));
          base = sort_swap_multiple base left2 (nmemb - s) s
      in (base, left2 - left1, right2 - right1))"

lemma qsort_split_bounds:
  assumes "qsort_split base compar thunk = (xs, nl, nr)" "0 < length base"
  shows "length xs = length base \<and> nl < length base \<and> nr < length base"
proof -
  let ?n = "length base"
  obtain ys l1 l2 r1 r2 where part: "qsort_partition compar thunk
      (sort_swap base 0 (qsort_choose_pivot base compar thunk)) 1 1 (?n - 1) (?n - 1) =
      (ys, l1, l2, r1, r2)"
    by (metis prod_cases5)
  have "part_bounds ?n 1 1 (?n - 1) (?n - 1)" using assms(2) by (simp add: part_bounds_def Suc_le_eq)
  from qsort_partition_bounds [OF part this] show ?thesis
    using assms part by (auto simp: qsort_split_def Let_def part_bounds_def)
qed

text \<open>
  \<open>M_sort_qsort\<close>: the recursive call sorts the lesser elements in place, at the front, and
  the next round of the \<open>do\<close> loop the greater ones, at the end.
\<close>

function M_sort_qsort :: "'a list \<Rightarrow> ('a, 't) M_sort_compar_t \<Rightarrow> 't \<Rightarrow> 'a list" where
  "M_sort_qsort base compar thunk =
     (if length base < 7 then M_sort_insertion base compar thunk
      else case qsort_split base compar thunk of (xs, nl, nr) \<Rightarrow>
        (if nl > 1 then M_sort_qsort (take nl xs) compar thunk else take nl xs) @
        drop nl (take (length base - nr) xs) @
        (if nr > 1 then M_sort_qsort (drop (length base - nr) xs) compar thunk
         else drop (length base - nr) xs))"
  by pat_completeness auto
termination
proof (relation "measure (\<lambda>(base, compar, thunk). length base)", goal_cases)
  case 1
  then show ?case by simp
next
  case (2 base compar thunk xs y nl nr)
  then have "0 < length base" by linarith
  with 2 show ?case using qsort_split_bounds [of base compar thunk xs nl nr] by auto
next
  case (3 base compar thunk xs y nl nr)
  then have "0 < length base" by linarith
  with 3 show ?case using qsort_split_bounds [of base compar thunk xs nl nr] by auto
qed

declare M_sort_qsort.simps [simp del]

section \<open>The partition\<close>

text \<open>
  \<open>p\<close> is the pivot, at index 0. Below \<open>l1\<close> and above \<open>r2\<close> are elements equal to it, from
  \<open>l1\<close> to \<open>l2\<close> lesser ones, from \<open>r1\<close> to \<open>r2\<close> greater ones, and \<open>ys\<close> is the array before.
\<close>

context compar_contract
begin

definition part_ok :: "'a list \<Rightarrow> 'a \<Rightarrow> 'a list \<Rightarrow> nat \<Rightarrow> nat \<Rightarrow> nat \<Rightarrow> nat \<Rightarrow> bool" where
  "part_ok ys p xs l1 l2 r1 r2 \<longleftrightarrow>
     mset xs = mset ys \<and> xs ! 0 = p \<and>
     1 \<le> l1 \<and> l1 \<le> l2 \<and> l2 \<le> r1 + 1 \<and> r1 \<le> r2 \<and> r2 < length xs \<and>
     (\<forall>i<l1. eq (xs ! i) p) \<and>
     (\<forall>i. l1 \<le> i \<longrightarrow> i < l2 \<longrightarrow> lt (xs ! i) p) \<and>
     (\<forall>i. r1 < i \<longrightarrow> i \<le> r2 \<longrightarrow> lt p (xs ! i)) \<and>
     (\<forall>i. r2 < i \<longrightarrow> i < length xs \<longrightarrow> eq (xs ! i) p)"

end

lemma mset_sort_swap: "i < length xs \<Longrightarrow> j < length xs \<Longrightarrow> mset (sort_swap xs i j) = mset xs"
  by (simp add: sort_swap_def mset_swap)

lemma nth_sort_swap:
  "i < length xs \<Longrightarrow> j < length xs \<Longrightarrow> k < length xs \<Longrightarrow>
     sort_swap xs i j ! k = (if k = i then xs ! j else if k = j then xs ! i else xs ! k)"
  by (auto simp: sort_swap_def nth_list_update)

context compar_contract
begin

lemma part_ok_scan_left_eq:
  assumes "part_ok ys p xs l1 l2 r1 r2" "l2 \<le> r1" "eq (xs ! l2) p"
  shows "part_ok ys p (sort_swap xs l1 l2) (l1 + 1) (l2 + 1) r1 r2"
  using assms
  by (auto simp: part_ok_def mset_sort_swap nth_sort_swap less_Suc_eq)

lemma part_ok_scan_left_lt:
  assumes "part_ok ys p xs l1 l2 r1 r2" "l2 \<le> r1" "lt (xs ! l2) p"
  shows "part_ok ys p xs l1 (l2 + 1) r1 r2"
  using assms by (auto simp: part_ok_def less_Suc_eq)

lemma part_ok_scan_right_eq:
  assumes "part_ok ys p xs l1 l2 (Suc r) (Suc q)" "l2 \<le> Suc r" "eq (xs ! Suc r) p"
  shows "part_ok ys p (sort_swap xs (Suc r) (Suc q)) l1 l2 r q"
  using assms by (auto simp: part_ok_def mset_sort_swap nth_sort_swap Suc_le_eq)

lemma part_ok_scan_right_gt:
  assumes "part_ok ys p xs l1 l2 (Suc r) r2" "l2 \<le> Suc r" "lt p (xs ! Suc r)"
  shows "part_ok ys p xs l1 l2 r r2"
  using assms by (auto simp: part_ok_def) (metis Suc_lessI)

lemma part_ok_exchange:
  assumes ok: "part_ok ys p xs l1 l2 (Suc r) r2" and "l2 \<le> r" "lt p (xs ! l2)" "lt (xs ! Suc r) p"
  shows "part_ok ys p (sort_swap xs l2 (Suc r)) l1 (l2 + 1) r r2"
proof -
  have *: "r < i \<Longrightarrow> i = Suc r \<or> Suc r < i" for i by arith
  show ?thesis using assms
    by (auto simp: part_ok_def mset_sort_swap nth_sort_swap less_Suc_eq dest!: *)
qed

lemma part_ok_scan_left:
  "scan_left compar thunk xs l1 l2 r1 = (xs', l1', l2') \<Longrightarrow> part_ok ys p xs l1 l2 r1 r2 \<Longrightarrow>
     part_ok ys p xs' l1' l2' r1 r2"
proof (induction "length xs - l2" arbitrary: xs l1 l2 rule: less_induct)
  case less
  have *: "xs ! 0 = p" "l2 \<le> r1 \<Longrightarrow> l2 < length xs" using less(3) by (auto simp: part_ok_def)
  consider (stop) "\<not> (l2 \<le> r1 \<and> compar (xs ! l2) p thunk \<le> 0)"
    | (eq) "l2 \<le> r1" "compar (xs ! l2) p thunk = 0" | (lt) "l2 \<le> r1" "compar (xs ! l2) p thunk < 0"
    by linarith
  then show ?case
  proof cases
    case stop
    then show ?thesis using less(2,3) * by (auto simp: scan_left.simps [of _ _ xs l1 l2 r1])
  next
    case eq
    from less(3) eq(1) have "part_ok ys p (sort_swap xs l1 l2) (l1 + 1) (l2 + 1) r1 r2"
      by (rule part_ok_scan_left_eq) (use eq(2) eq_iff in auto)
    then show ?thesis
      using less(1) [of "sort_swap xs l1 l2" "l2 + 1" "l1 + 1"] less(2) eq *
      by (simp add: scan_left.simps [of _ _ xs l1 l2 r1])
  next
    case lt
    from less(3) lt(1) have "part_ok ys p xs l1 (l2 + 1) r1 r2"
      by (rule part_ok_scan_left_lt) (use lt(2) in auto)
    then show ?thesis
      using less(1) [of xs "l2 + 1" l1] less(2) lt *
      by (simp add: scan_left.simps [of _ _ xs l1 l2 r1])
  qed
qed

lemma part_ok_scan_right:
  "scan_right compar thunk xs l2 r1 r2 = (xs', r1', r2') \<Longrightarrow> part_ok ys p xs l1 l2 r1 r2 \<Longrightarrow>
     part_ok ys p xs' l1 l2 r1' r2'"
proof (induction r1 arbitrary: xs r2)
  case 0
  then show ?case by (simp add: scan_right.simps [of _ _ xs l2 0 r2])
next
  case (Suc r1)
  have *: "xs ! 0 = p" "Suc r1 \<le> r2" using Suc(3) by (auto simp: part_ok_def)
  consider (stop) "\<not> (l2 \<le> Suc r1 \<and> compar (xs ! Suc r1) p thunk \<ge> 0)"
    | (eq) q where "l2 \<le> Suc r1" "compar (xs ! Suc r1) p thunk = 0" "r2 = Suc q"
    | (gt) "l2 \<le> Suc r1" "compar (xs ! Suc r1) p thunk > 0"
    using *(2) by (cases r2) (simp, fastforce)
  then show ?case
  proof cases
    case stop
    then show ?thesis using Suc(2,3) * by (auto simp: scan_right.simps [of _ _ xs l2 "Suc r1" r2])
  next
    case eq
    have "part_ok ys p (sort_swap xs (Suc r1) (Suc q)) l1 l2 r1 q"
      by (rule part_ok_scan_right_eq) (use eq Suc(3) eq_iff in auto)
    then show ?thesis
      using Suc(1) [of "sort_swap xs (Suc r1) (Suc q)" q] Suc(2) eq *
      by (simp add: scan_right.simps [of _ _ xs l2 "Suc r1" "Suc q"])
  next
    case gt
    have "part_ok ys p xs l1 l2 r1 r2"
      by (rule part_ok_scan_right_gt) (use gt Suc(3) compar_swap [of p "xs ! Suc r1"] in auto)
    then show ?thesis
      using Suc(1) [of xs r2] Suc(2) gt * by (simp add: scan_right.simps [of _ _ xs l2 "Suc r1" r2])
  qed
qed

lemma part_ok_bounds: "part_ok ys p xs l1 l2 r1 r2 \<Longrightarrow> part_bounds (length xs) l1 l2 r1 r2"
  by (auto simp: part_ok_def part_bounds_def)

lemma part_ok_partition:
  "part_ok ys p xs l1 l2 r1 r2 \<Longrightarrow>
     qsort_partition compar thunk xs l1 l2 r1 r2 = (xs', l1', l2', r1', r2') \<Longrightarrow>
     part_ok ys p xs' l1' l2' r1' r2' \<and> l2' = r1' + 1"
proof (induction "r1 + 1 - l2" arbitrary: xs l1 l2 r1 r2 rule: less_induct)
  case less
  obtain xsl l1l l2l where l: "scan_left compar thunk xs l1 l2 r1 = (xsl, l1l, l2l)"
    by (cases "scan_left compar thunk xs l1 l2 r1")
  obtain xsr r1r r2r where r: "scan_right compar thunk xsl l2l r1 r2 = (xsr, r1r, r2r)"
    by (cases "scan_right compar thunk xsl l2l r1 r2")
  have ok: "part_ok ys p xsr l1l l2l r1r r2r"
    by (rule part_ok_scan_right [OF r part_ok_scan_left [OF l less(2)]])
  show ?case
  proof (cases "l2l > r1r")
    case True
    then show ?thesis using less(3) ok
      by (auto simp: qsort_partition.simps [of _ _ xs] l r part_ok_def)
  next
    case False
    from scans_stop [OF l r part_ok_bounds [OF less(2)]] False
    have stop: "l2l < r1r" "lt p (xsr ! l2l)" "lt (xsr ! r1r) p"
      using ok by (auto simp: part_ok_def compar_pos)
    then obtain q where q: "r1r = Suc q" by (cases r1r) auto
    have "part_ok ys p (sort_swap xsr l2l (Suc q)) l1l (l2l + 1) q r2r"
      by (rule part_ok_exchange) (use ok stop q in auto)
    moreover have "q + 1 - (l2l + 1) < r1 + 1 - l2"
      using scan_left_mono [OF l] scan_right_mono [OF r] stop(1) q by auto
    ultimately show ?thesis
      using less(1) [of q "l2l + 1" "sort_swap xsr l2l (Suc q)" l1l r2r] less(3) q stop
      by (auto simp: qsort_partition.simps [of _ _ xs] l r)
  qed
qed

end

section \<open>Moving the equal elements to the middle\<close>

lemma nth_sort_swap_multiple:
  assumes "p + n \<le> q" "q + n \<le> length xs" "i < length xs"
  shows "sort_swap_multiple xs p q n ! i =
    (if p \<le> i \<and> i < p + n then xs ! (i - p + q)
     else if q \<le> i \<and> i < q + n then xs ! (i - q + p) else xs ! i)"
  using assms
proof (induction n arbitrary: i)
  case (Suc n)
  then show ?case by (auto simp: nth_sort_swap less_Suc_eq add.commute)
qed auto

lemma mset_sort_swap_multiple:
  "p + n \<le> length xs \<Longrightarrow> q + n \<le> length xs \<Longrightarrow> mset (sort_swap_multiple xs p q n) = mset xs"
  by (induction n) (auto simp: mset_sort_swap)

text \<open>
  A block of \<open>P\<close> elements followed by one of \<open>Q\<close> elements is rotated by exchanging the
  shorter block with the far end of the longer one.
\<close>

lemma sort_swap_multiple_rotate:
  assumes "a \<le> m" "m \<le> b" "b \<le> length xs"
    and "\<forall>i. a \<le> i \<longrightarrow> i < m \<longrightarrow> P (xs ! i)" "\<forall>i. m \<le> i \<longrightarrow> i < b \<longrightarrow> Q (xs ! i)"
    and s: "s = min (m - a) (b - m)"
  shows "(\<forall>i. a \<le> i \<longrightarrow> i < a + (b - m) \<longrightarrow> Q (sort_swap_multiple xs a (b - s) s ! i)) \<and>
    (\<forall>i. a + (b - m) \<le> i \<longrightarrow> i < b \<longrightarrow> P (sort_swap_multiple xs a (b - s) s ! i)) \<and>
    (\<forall>i. i < a \<or> b \<le> i \<longrightarrow> i < length xs \<longrightarrow> sort_swap_multiple xs a (b - s) s ! i = xs ! i) \<and>
    mset (sort_swap_multiple xs a (b - s) s) = mset xs"
proof -
  define c where "c = b - s"
  have c: "b = c + s" "a + s \<le> c" "c + s \<le> length xs"
    and m: "(m = a + s \<and> a + (b - m) = c) \<or> (m = c \<and> a + (b - m) = a + s)"
    using assms(1-3) s unfolding c_def min_def by (auto split: if_splits)
  have "mset (sort_swap_multiple xs a c s) = mset xs"
    by (rule mset_sort_swap_multiple) (use c in auto)
  with m assms(4,5) c show ?thesis
    by (elim disjE conjE) (simp_all add: nth_sort_swap_multiple)
qed

lemma qsort_median_in: "qsort_median xs a b c compar thunk \<in> {a, b, c}"
  by (simp add: qsort_median_def)

lemma qsort_median_less:
  "a < n \<Longrightarrow> b < n \<Longrightarrow> c < n \<Longrightarrow> qsort_median xs a b c compar thunk < n"
  using qsort_median_in [of xs a b c compar thunk] by auto

lemma qsort_choose_pivot_less:
  "0 < length xs \<Longrightarrow> qsort_choose_pivot xs compar thunk < length xs"
  by (auto simp: qsort_choose_pivot_def Let_def intro!: qsort_median_less)

context compar_contract
begin

text \<open>The three parts after a round: lesser than the pivot, equal to it, greater.\<close>

lemma qsort_split_ok:
  assumes split: "qsort_split base compar thunk = (xs, nl, nr)" and n: "1 < length base"
  obtains p where "mset xs = mset base" "nl + nr < length xs"
    "\<forall>i<nl. lt (xs ! i) p" "\<forall>i. nl \<le> i \<longrightarrow> i < length xs - nr \<longrightarrow> eq (xs ! i) p"
    "\<forall>i. length xs - nr \<le> i \<longrightarrow> i < length xs \<longrightarrow> lt p (xs ! i)"
proof -
  let ?n = "length base"
  let ?base = "sort_swap base 0 (qsort_choose_pivot base compar thunk)"
  let ?p = "?base ! 0"
  have base: "mset ?base = mset base"
    by (rule mset_sort_swap) (use n qsort_choose_pivot_less [of base compar thunk] in \<open>(cases base; auto)+\<close>)
  obtain ys l1 l2 r1 r2 where part:
    "qsort_partition compar thunk ?base 1 1 (?n - 1) (?n - 1) = (ys, l1, l2, r1, r2)"
    by (metis prod_cases5)
  have "part_ok base ?p ?base 1 1 (?n - 1) (?n - 1)"
    using n base unfolding part_ok_def by (auto simp del: sort_swap_0)
  from part_ok_partition [OF this part]
  have ok: "part_ok base ?p ys l1 l2 r1 r2" and r1: "l2 = r1 + 1" by auto
  have len: "length ys = ?n" using ok by (auto simp: part_ok_def dest: mset_eq_length)
  define s1 where "s1 = min (l1 - 0) (l2 - l1)"
  define zs where "zs = sort_swap_multiple ys 0 (l2 - s1) s1"
  have z: "(\<forall>i. 0 \<le> i \<longrightarrow> i < 0 + (l2 - l1) \<longrightarrow> lt (zs ! i) ?p) \<and>
    (\<forall>i. 0 + (l2 - l1) \<le> i \<longrightarrow> i < l2 \<longrightarrow> eq (zs ! i) ?p) \<and>
    (\<forall>i. i < 0 \<or> l2 \<le> i \<longrightarrow> i < length ys \<longrightarrow> zs ! i = ys ! i) \<and> mset zs = mset ys"
    unfolding zs_def
    by (rule sort_swap_multiple_rotate [where m = l1]) (use ok in \<open>auto simp: part_ok_def s1_def\<close>)
  have lenz: "length zs = ?n" using z len by (auto dest: mset_eq_length)
  define s2 where "s2 = min (r2 + 1 - l2) (?n - (r2 + 1))"
  define ws where "ws = sort_swap_multiple zs l2 (?n - s2) s2"
  have w: "(\<forall>i. l2 \<le> i \<longrightarrow> i < l2 + (?n - (r2 + 1)) \<longrightarrow> eq (ws ! i) ?p) \<and>
    (\<forall>i. l2 + (?n - (r2 + 1)) \<le> i \<longrightarrow> i < ?n \<longrightarrow> lt ?p (ws ! i)) \<and>
    (\<forall>i. i < l2 \<or> ?n \<le> i \<longrightarrow> i < length zs \<longrightarrow> ws ! i = zs ! i) \<and> mset ws = mset zs"
    unfolding ws_def
    by (rule sort_swap_multiple_rotate [where m = "r2 + 1"])
      (use ok z lenz len r1 in \<open>auto simp: part_ok_def s2_def\<close>)
  have lenw: "length ws = ?n" using w lenz by (auto dest: mset_eq_length)
  have res: "xs = ws" "nl = l2 - l1" "nr = r2 - r1"
    using split part r1 by (auto simp: qsort_split_def Let_def ws_def zs_def s1_def s2_def)
  have b: "1 \<le> l1" "l1 \<le> l2" "r1 \<le> r2" "r2 < ?n" using ok len by (auto simp: part_ok_def)
  have cut: "?n - nr = l2 + (?n - (r2 + 1))" using b r1 res by simp
  show thesis
  proof (rule that [of ?p])
    show "mset xs = mset base" using res w z ok by (simp add: part_ok_def)
    show "nl + nr < length xs" using res b lenw r1 by simp
    show "\<forall>i<nl. lt (xs ! i) ?p" using w z res lenz b r1 by auto
    show "\<forall>i. nl \<le> i \<longrightarrow> i < length xs - nr \<longrightarrow> eq (xs ! i) ?p"
    proof (intro allI impI)
      fix i assume "nl \<le> i" "i < length xs - nr"
      then show "eq (xs ! i) ?p"
        using w z res lenz lenw b r1 cut by (cases "i < l2") auto
    qed
    show "\<forall>i. length xs - nr \<le> i \<longrightarrow> i < length xs \<longrightarrow> lt ?p (xs ! i)"
      using w res lenw cut by simp
  qed
qed

end

section \<open>Insertion sort\<close>

lemma mset_insertion_sift:
  "p < length xs \<Longrightarrow> mset (insertion_sift compar thunk xs p) = mset xs"
  by (induction p arbitrary: xs) (auto simp: mset_sort_swap)

lemma mset_insertion_loop: "mset (insertion_loop compar thunk xs i) = mset xs"
proof (induction compar thunk xs i rule: insertion_loop.induct)
  case (1 compar thunk xs i)
  then show ?case by (simp add: insertion_loop.simps [of _ _ xs] mset_insertion_sift)
qed

context compar_contract
begin

lemma insertion_sift_sorted:
  "p \<le> m \<Longrightarrow> m < length xs \<Longrightarrow>
     \<forall>a b. a < b \<longrightarrow> b \<le> m \<longrightarrow> b \<noteq> p \<longrightarrow> le (xs ! a) (xs ! b) \<Longrightarrow> a < b \<Longrightarrow> b \<le> m \<Longrightarrow>
     le (insertion_sift compar thunk xs p ! a) (insertion_sift compar thunk xs p ! b)"
proof (induction p arbitrary: xs)
  case (Suc p)
  show ?case
  proof (cases "compar (xs ! p) (xs ! Suc p) thunk > 0")
    case True
    then have lt: "lt (xs ! Suc p) (xs ! p)" by (simp add: compar_pos)
    have "\<forall>a b. a < b \<longrightarrow> b \<le> m \<longrightarrow> b \<noteq> p \<longrightarrow>
        le (sort_swap xs (Suc p) p ! a) (sort_swap xs (Suc p) p ! b)"
      using Suc(2-4) lt by (auto simp: nth_sort_swap)
    then show ?thesis using Suc True by simp
  next
    case False
    then have "le (xs ! a) (xs ! b)"
      using Suc(2-6) compar_trans [of "xs ! a" "xs ! p" "xs ! Suc p"]
      by (cases "b = Suc p"; cases "a = p") auto
    then show ?thesis using False by simp
  qed
qed auto

lemma insertion_loop_sorted:
  "is_sorted (take i xs) \<Longrightarrow> is_sorted (insertion_loop compar thunk xs i)"
proof (induction "length xs - i" arbitrary: i xs)
  case 0
  then show ?case by (simp add: insertion_loop.simps [of _ _ xs])
next
  case (Suc n)
  then have "i < length xs" by simp
  have *: "\<forall>a b. a < b \<longrightarrow> b \<le> i \<longrightarrow> b \<noteq> i \<longrightarrow> le (xs ! a) (xs ! b)"
    using Suc(3) \<open>i < length xs\<close> by (auto simp: sorted_wrt_iff_nth_less)
  have "le (insertion_sift compar thunk xs i ! a) (insertion_sift compar thunk xs i ! b)"
    if "a < b" "b \<le> i" for a b
    by (rule insertion_sift_sorted [of i i xs]) (use that * \<open>i < length xs\<close> in auto)
  then have "is_sorted (take (i + 1) (insertion_sift compar thunk xs i))"
    using \<open>i < length xs\<close> by (simp add: sorted_wrt_iff_nth_less)
  then show ?case
    using Suc(1) [of "insertion_sift compar thunk xs i" "i + 1"] Suc(2) \<open>i < length xs\<close>
    by (simp add: insertion_loop.simps [of _ _ xs i])
qed

lemma M_sort_insertion_sorted: "is_sorted (M_sort_insertion xs compar thunk)"
  unfolding M_sort_insertion_def
  by (rule insertion_loop_sorted) (simp add: sorted_wrt_iff_nth_less)

end

lemma mset_M_sort_insertion: "mset (M_sort_insertion xs compar thunk) = mset xs"
  by (simp add: M_sort_insertion_def mset_insertion_loop)

section \<open>The sort\<close>

context compar_contract
begin

lemma is_sorted_le1: "length xs \<le> 1 \<Longrightarrow> is_sorted xs"
  by (cases xs) auto

lemma is_sorted_parts:
  assumes "is_sorted l" "is_sorted r" "\<forall>x\<in>set l. lt x p" "\<forall>x\<in>set m. eq x p" "\<forall>x\<in>set r. lt p x"
  shows "is_sorted (l @ m @ r)"
proof -
  have "is_sorted m"
    using assms(4) eq_iff compar_trans by (auto simp: sorted_wrt_iff_nth_less) (metis nth_mem less_trans)
  moreover have "le x y" if "lt x p" "eq y p" for x y
    using that lt_le_trans [of x p y] eq_iff [of y p] by simp
  moreover have "le x y" if "lt x p" "lt p y" for x y
    using that lt_le_trans [of x p y] by simp
  moreover have "le x y" if "eq x p" "lt p y" for x y
    using that le_lt_trans [of x p y] by simp
  ultimately show ?thesis using assms by (simp add: is_sorted_append) blast
qed

lemma M_sort_qsort_ok:
  "mset (M_sort_qsort xs compar thunk) = mset xs \<and> is_sorted (M_sort_qsort xs compar thunk)"
proof (induction xs rule: length_induct)
  case (1 base)
  show ?case
  proof (cases "length base < 7")
    case True
    then show ?thesis
      by (simp add: M_sort_qsort.simps [of base] M_sort_insertion_sorted mset_M_sort_insertion)
  next
    case False
    obtain xs nl nr where split: "qsort_split base compar thunk = (xs, nl, nr)"
      by (cases "qsort_split base compar thunk")
    from False have "1 < length base" by linarith
    from qsort_split_ok [OF split this] obtain p where ok: "mset xs = mset base"
      "nl + nr < length xs" "\<forall>i<nl. lt (xs ! i) p"
      "\<forall>i. nl \<le> i \<longrightarrow> i < length xs - nr \<longrightarrow> eq (xs ! i) p"
      "\<forall>i. length xs - nr \<le> i \<longrightarrow> i < length xs \<longrightarrow> lt p (xs ! i)" .
    have len: "length xs = length base" using ok(1) by (rule mset_eq_length)
    let ?m = "length base - nr"
    define left where "left = (if nl > 1 then M_sort_qsort (take nl xs) compar thunk else take nl xs)"
    define right where "right = (if nr > 1 then M_sort_qsort (drop ?m xs) compar thunk else drop ?m xs)"
    have l: "mset left = mset (take nl xs)" "is_sorted left"
      using 1 ok(2) len is_sorted_le1 [of "take nl xs"] by (auto simp: left_def)
    have r: "mset right = mset (drop ?m xs)" "is_sorted right"
      using 1 ok(2) len is_sorted_le1 [of "drop ?m xs"] by (auto simp: right_def)
    have lset: "\<forall>x\<in>set left. lt x p"
      using mset_eq_setD [OF l(1)] ok(2,3) by (auto simp: set_conv_nth)
    have rset: "\<forall>x\<in>set right. lt p x"
      using mset_eq_setD [OF r(1)] ok(2,5) len by (auto simp: set_conv_nth)
    have mset: "\<forall>x\<in>set (drop nl (take ?m xs)). eq x p"
      using ok(2,4) len by (auto simp: set_conv_nth)
    have eq: "M_sort_qsort base compar thunk = left @ drop nl (take ?m xs) @ right"
      using False by (simp add: M_sort_qsort.simps [of base] split left_def right_def)
    have "xs = take nl xs @ drop nl (take ?m xs) @ drop ?m xs"
      using ok(2) len by (metis add.commute append_assoc append_take_drop_id drop_take
        le_add_diff_inverse less_diff_conv less_imp_le_nat take_add take_drop)
    then have "mset (M_sort_qsort base compar thunk) = mset base"
      using eq l(1) r(1) ok(1) by (metis mset_append)
    moreover have "is_sorted (M_sort_qsort base compar thunk)"
      unfolding eq by (rule is_sorted_parts) (fact l(2) r(2) lset mset rset)+
    ultimately show ?thesis by simp
  qed
qed

end

text \<open>
  C4. \<open>M_sort_qsort\<close> returns for every input, and for a comparison that is a total preorder
  the result is a sorted permutation of the array.
\<close>

theorem M_sort_qsort_correct:
  assumes "compar_contract compar thunk"
  shows "mset (M_sort_qsort base compar thunk) = mset base \<and>
    sorted_wrt (\<lambda>a b. compar a b thunk \<le> 0) (M_sort_qsort base compar thunk)"
  using compar_contract.M_sort_qsort_ok [OF assms] .

theorem M_sort_qsort_correct_witness:
  "M_sort_qsort (map Some [5, 3, 9, 3, 1, 7, 3, 8 :: M_uint64]) M_sort_compar_u64 () =
     map Some [1, 3, 3, 3, 5, 7, 8, 9] \<and>
   sorted_wrt (\<lambda>a b. M_sort_compar_u64 a b () \<le> 0) (map Some [1, 3, 3, 3, 5, 7, 8, 9])"
proof -
  have r: "M_sort_qsort (map Some [5, 3, 9, 3, 1, 7, 3, 8 :: M_uint64]) M_sort_compar_u64 () =
     map Some [1, 3, 3, 3, 5, 7, 8, 9]"
    by code_simp
  show ?thesis
    using M_sort_qsort_correct [OF compar_u64.compar_contract_axioms,
      of "map Some [5, 3, 9, 3, 1, 7, 3, 8 :: M_uint64]" "()"] unfolding r by blast
qed

end
