(* ===== verification/M_List.thy ===== *)
theory M_List
  imports Qsort
begin

text \<open>
  The growable list (\<^verbatim>\<open>src/base/list/m_list.c\<close>): an array with unused space before and
  after the data, kept as a plain list, a stack, a sorted list or a set.

  The record has the fields of \<open>struct M_list\<close>. The block \<open>base\<close> is the list of its
  \<open>allocated\<close> entries, the pointer \<open>start\<close> the offset of the data in it. A value is a pointer,
  so \<open>==\<close> on values is equality and \<open>NULL\<close> is 0. The callback \<open>value_free\<close> has no effect on
  the list: what it is called with is recorded in \<open>freed\<close>, in the order of the calls.

  An operation is \<open>None\<close> when it leaves the block or calls a null function pointer. Index
  computations wrap around as \<open>size_t\<close>; sizes of allocations do not, since an allocation of
  that size has failed before.
\<close>

section \<open>State\<close>

datatype M_list_flags =
  M_LIST_SORTED | M_LIST_STABLE | M_LIST_STACK | M_LIST_SET_VAL | M_LIST_SET_PTR | M_LIST_NEVERSHRINK

text \<open>\<open>M_LIST_MATCH_VAL\<close> is 0, the empty set of flags.\<close>

datatype M_list_match_type = M_LIST_MATCH_PTR | M_LIST_MATCH_ALL

datatype M_list_insert_type =
  M_LIST_INSERT_NODUP | M_LIST_INSERT_DUP | M_LIST_INSERT_INITIAL | M_LIST_INSERT_NOSETCHECK

datatype M_list_match_op = M_LIST_MATCH_OP_COUNT | M_LIST_MATCH_OP_REMOVE | M_LIST_MATCH_OP_REPLACE

record ('v, 't) M_list =
  equality :: "('v, 't) M_sort_compar_t option"
  duplicate_insert :: "'v \<Rightarrow> 'v"
  duplicate_copy :: "'v \<Rightarrow> 'v"
  flags :: "M_list_flags set"
  base :: "'v list"
  start :: nat
  elements :: nat
  allocated :: nat
  multi_insert :: bool
  thunk :: 't
  freed :: "'v list"

record ('v, 't) M_list_callbacks =
  cb_equality :: "('v, 't) M_sort_compar_t option"
  cb_duplicate_insert :: "('v \<Rightarrow> 'v) option"
  cb_duplicate_copy :: "('v \<Rightarrow> 'v) option"

definition INITIAL_SIZE :: nat where
  "INITIAL_SIZE = 4"

text \<open>\<open>d->start[i]\<close>, read and written, a call of \<open>d->equality\<close>, and a call of \<open>d->value_free\<close>.\<close>

definition start_get :: "('v, 't) M_list \<Rightarrow> nat \<Rightarrow> 'v option" where
  "start_get d i = arr_get (base d) (start d + i)"

definition start_set :: "('v, 't) M_list \<Rightarrow> nat \<Rightarrow> 'v \<Rightarrow> ('v, 't) M_list option" where
  "start_set d i v = do { b \<leftarrow> arr_set (base d) (start d + i) v; Some (d\<lparr>base := b\<rparr>) }"

definition call_equality :: "('v, 't) M_list \<Rightarrow> 'v \<Rightarrow> 'v \<Rightarrow> 't \<Rightarrow> int option" where
  "call_equality d a b t = (case equality d of None \<Rightarrow> None | Some c \<Rightarrow> Some (c a b t))"

definition value_free :: "('v, 't) M_list \<Rightarrow> 'v \<Rightarrow> ('v, 't) M_list" where
  "value_free d v = d\<lparr>freed := freed d @ [v]\<rparr>"

section \<open>Helpers\<close>

definition M_list_duplicate_func_default :: "'v \<Rightarrow> 'v" where
  "M_list_duplicate_func_default arg = arg"

definition M_list_convert_idx_at :: "('v, 't) M_list \<Rightarrow> nat \<Rightarrow> nat" where
  "M_list_convert_idx_at d idx =
     (if elements d = 0 then 0
      else let idx = (if idx > elements d then elements d - 1 else idx) in
        if M_LIST_STACK \<notin> flags d then idx
        else if elements d - 1 = idx then 0
        else size_sub (size_sub (elements d) idx) 1)"

definition M_list_convert_idx_insert :: "('v, 't) M_list \<Rightarrow> nat \<Rightarrow> nat" where
  "M_list_convert_idx_insert d idx =
     (if elements d = 0 then 0
      else let new_idx = M_list_convert_idx_at d idx in
        if M_LIST_STACK \<notin> flags d then new_idx else size_add new_idx 1)"

definition M_list_shift_data :: "('v, 't) M_list \<Rightarrow> bool \<Rightarrow> ('v, 't) M_list option" where
  "M_list_shift_data d force =
     (let d = (if elements d = 0 then d\<lparr>start := 0\<rparr> else d) in
      if start d \<noteq> 0 \<and> (force \<or> start d + elements d = allocated d) then do {
        b \<leftarrow> mem_move (base d) 0 (start d) (elements d);
        Some (d\<lparr>base := b, start := 0\<rparr>)
      } else Some d)"

definition M_list_grow :: "('v::zero, 't) M_list \<Rightarrow> ('v, 't) M_list option" where
  "M_list_grow d = do {
     d \<leftarrow> M_list_shift_data d False;
     if elements d = allocated d then
       let n = allocated d * 2 in
       Some (d\<lparr>allocated := n, base := mem_realloc NULL (base d) n, start := 0\<rparr>)
     else Some d
   }"

text \<open>
  \<open>(size_t)((double)reduced_size / 1.25)\<close>: \<open>reduced_size\<close> is a power of two, so the quotient,
  rounded to a \<open>double\<close>, truncates to four fifths of it rounded down.
\<close>

definition M_list_shrink :: "('v::zero, 't) M_list \<Rightarrow> ('v, 't) M_list option" where
  "M_list_shrink d =
     (if M_LIST_NEVERSHRINK \<in> flags d then Some d
      else
        let reduced_size = allocated d div 2;
            max_elements = reduced_size * 4 div 5
        in if reduced_size \<ge> INITIAL_SIZE \<and> elements d \<le> max_elements then do {
             d \<leftarrow> M_list_shift_data d True;
             Some (d\<lparr>allocated := reduced_size, base := mem_realloc NULL (base d) reduced_size,
                     start := 0\<rparr>)
           } else Some d)"

section \<open>Lookup\<close>

text \<open>The three scanning loops of \<open>M_list_index_of\<close>; \<open>Some None\<close> is the answer \<open>M_FALSE\<close>.\<close>

function index_scan_up :: "('v, 't::zero) M_list \<Rightarrow> 'v \<Rightarrow> nat \<Rightarrow> nat option option" where
  "index_scan_up d val i =
     (if i < elements d then do {
        x \<leftarrow> start_get d i;
        c \<leftarrow> call_equality d val x NULL;
        if c \<noteq> 0 then Some None
        else if val = x then Some (Some i)
        else index_scan_up d val (i + 1)
      } else Some None)"
  by pat_completeness auto
termination
  by (relation "measure (\<lambda>(d, val, i). elements d - i)") auto

fun index_scan_down :: "('v, 't::zero) M_list \<Rightarrow> 'v \<Rightarrow> nat \<Rightarrow> nat option option" where
  "index_scan_down d val 0 = Some None"
| "index_scan_down d val (Suc i) = do {
     x \<leftarrow> start_get d i;
     c \<leftarrow> call_equality d val x NULL;
     if c \<noteq> 0 then Some None
     else if val = x then Some (Some i)
     else index_scan_down d val i
   }"

function index_scan :: "('v, 't::zero) M_list \<Rightarrow> 'v \<Rightarrow> M_list_match_type set \<Rightarrow> nat \<Rightarrow> nat option option" where
  "index_scan d val type i =
     (if i < elements d then do {
        x \<leftarrow> start_get d i;
        eq \<leftarrow> (if M_LIST_MATCH_PTR \<in> type then Some (val = x)
               else do { c \<leftarrow> call_equality d val x NULL; Some (c = 0) });
        if eq then Some (Some (M_list_convert_idx_at d i)) else index_scan d val type (i + 1)
      } else Some None)"
  by pat_completeness auto
termination
  by (relation "measure (\<lambda>(d, val, type, i). elements d - i)") auto

declare index_scan_up.simps [simp del] index_scan.simps [simp del]

text \<open>The data as the sort and search functions see it.\<close>

definition start_read :: "('v, 't) M_list \<Rightarrow> 'v list option" where
  "start_read d =
     (if start d + elements d \<le> length (base d)
      then Some (window (start d) (elements d) (base d)) else None)"

definition index_sorted ::
  "('v, 't::zero) M_list \<Rightarrow> 'v \<Rightarrow> M_list_match_type set \<Rightarrow> nat option option" where
  "index_sorted d val type =
     (case equality d of None \<Rightarrow> Some None
      | Some c \<Rightarrow> do {
          xs \<leftarrow> start_read d;
          let (ret, idx) = M_sort_binary_search xs val (M_LIST_STABLE \<in> flags d) c (thunk d);
          r \<leftarrow> (if ret \<and> M_LIST_MATCH_PTR \<in> type then do {
                   x \<leftarrow> start_get d idx;
                   if val = x then Some (Some idx)
                   else do {
                     up \<leftarrow> index_scan_up d val (idx + 1);
                     case up of Some i \<Rightarrow> Some (Some i) | None \<Rightarrow> index_scan_down d val idx
                   }
                 }
                 else Some (if ret then Some idx else None));
          Some (map_option (M_list_convert_idx_at d) r)
        })"

definition M_list_index_of ::
  "('v::zero, 't::zero) M_list \<Rightarrow> 'v \<Rightarrow> M_list_match_type set \<Rightarrow> nat option option" where
  "M_list_index_of d val type =
     (if val = NULL \<or> elements d = 0 \<or> M_LIST_MATCH_PTR \<notin> type \<and> equality d = None then Some None
      else if M_LIST_SORTED \<in> flags d \<and> \<not> multi_insert d then index_sorted d val type
      else index_scan d val type 0)"

definition M_list_len :: "('v, 't) M_list \<Rightarrow> nat" where
  "M_list_len d = elements d"

definition M_list_at :: "('v::zero, 't) M_list \<Rightarrow> nat \<Rightarrow> 'v option" where
  "M_list_at d idx =
     (if idx \<ge> elements d then Some NULL else start_get d (M_list_convert_idx_at d idx))"

definition M_list_first :: "('v::zero, 't) M_list \<Rightarrow> 'v option" where
  "M_list_first d = (if elements d = 0 then Some NULL else M_list_at d 0)"

definition M_list_last :: "('v::zero, 't) M_list \<Rightarrow> 'v option" where
  "M_list_last d = (if elements d = 0 then Some NULL else M_list_at d (elements d - 1))"

section \<open>Insertion\<close>

definition set_match :: "('v, 't) M_list \<Rightarrow> M_list_match_type set" where
  "set_match d = (if M_LIST_SET_PTR \<in> flags d then {M_LIST_MATCH_PTR} else {})"

definition is_set :: "('v, 't) M_list \<Rightarrow> bool" where
  "is_set d \<longleftrightarrow> M_LIST_SET_VAL \<in> flags d \<or> M_LIST_SET_PTR \<in> flags d"

text \<open>The part of \<open>M_list_insert_at_int\<close> that stores the value.\<close>

definition store_at :: "('v, 't) M_list \<Rightarrow> 'v \<Rightarrow> nat \<Rightarrow> ('v, 't) M_list option" where
  "store_at d myval idx = do {
     let idx0 = idx;
     let idx = (if idx > elements d then elements d else idx);
     d \<leftarrow> (if idx0 < elements d then
              if idx = 0 \<and> start d > 0 then Some (d\<lparr>start := start d - 1\<rparr>)
              else do {
                b \<leftarrow> mem_move (base d) (start d + (idx + 1)) (start d + idx) (elements d - idx);
                Some (d\<lparr>base := b\<rparr>)
              }
            else Some d);
     d \<leftarrow> start_set d idx myval;
     Some (d\<lparr>elements := elements d + 1\<rparr>)
   }"

definition M_list_insert_at_int ::
  "('v::zero, 't::zero) M_list \<Rightarrow> 'v \<Rightarrow> nat \<Rightarrow> M_list_insert_type set
     \<Rightarrow> (bool \<times> ('v, 't) M_list) option" where
  "M_list_insert_at_int d val idx insert_type = do {
     dup \<leftarrow> (if M_LIST_INSERT_NOSETCHECK \<notin> insert_type \<and> is_set d
              then do { r \<leftarrow> M_list_index_of d val (set_match d); Some (r \<noteq> None) }
              else Some False);
     if dup then Some (False, d)
     else do {
       d \<leftarrow> M_list_grow d;
       let myval = (if M_LIST_INSERT_DUP \<in> insert_type then
                      if M_LIST_INSERT_INITIAL \<in> insert_type then duplicate_insert d val
                      else duplicate_copy d val
                    else val);
       d \<leftarrow> store_at d myval idx;
       Some (True, d)
     }
   }"

definition M_list_insert_idx :: "('v, 't) M_list \<Rightarrow> 'v \<Rightarrow> nat option" where
  "M_list_insert_idx d val = do {
     at \<leftarrow> (if M_LIST_SORTED \<in> flags d \<and> \<not> multi_insert d then
               case equality d of None \<Rightarrow> Some (elements d)
               | Some c \<Rightarrow> do {
                   xs \<leftarrow> start_read d;
                   Some (M_sort_binary_insert_idx xs val (M_LIST_STABLE \<in> flags d) c (thunk d))
                 }
             else Some (elements d));
     Some (M_list_convert_idx_insert d at)
   }"

definition M_list_insert ::
  "('v::zero, 't::zero) M_list \<Rightarrow> 'v \<Rightarrow> (bool \<times> ('v, 't) M_list) option" where
  "M_list_insert d val = do {
     idx \<leftarrow> M_list_insert_idx d val;
     M_list_insert_at_int d val (M_list_convert_idx_insert d idx)
       {M_LIST_INSERT_INITIAL, M_LIST_INSERT_DUP}
   }"

definition M_list_insert_at ::
  "('v::zero, 't::zero) M_list \<Rightarrow> 'v \<Rightarrow> nat \<Rightarrow> (bool \<times> ('v, 't) M_list) option" where
  "M_list_insert_at d val idx =
     (if M_LIST_SORTED \<in> flags d \<and> \<not> multi_insert d then Some (False, d)
      else M_list_insert_at_int d val (M_list_convert_idx_at d idx)
             {M_LIST_INSERT_INITIAL, M_LIST_INSERT_DUP})"

definition M_list_insert_begin :: "('v, 't) M_list \<Rightarrow> ('v, 't) M_list" where
  "M_list_insert_begin d = d\<lparr>multi_insert := True\<rparr>"

text \<open>
  The sort calls of \<open>M_list_insert_end\<close> and \<open>M_list_change_sorting\<close>, in place. Without a
  comparison the merge sort returns at once and the quick sort calls it on two elements.
\<close>

definition sort_data :: "('v, 't) M_list \<Rightarrow> ('v, 't) M_list option" where
  "sort_data d =
     (if M_LIST_SORTED \<in> flags d \<and> elements d \<noteq> 0 then
        case equality d of
          None \<Rightarrow> if M_LIST_STABLE \<in> flags d \<or> elements d = 1 then Some d else None
        | Some c \<Rightarrow> do {
            xs \<leftarrow> start_read d;
            b \<leftarrow> mem_copy (base d) (start d)
                   (if M_LIST_STABLE \<in> flags d then M_sort_mergesort xs c (thunk d)
                    else M_sort_qsort xs c (thunk d));
            Some (d\<lparr>base := b\<rparr>)
          }
      else Some d)"

definition M_list_insert_end :: "('v, 't) M_list \<Rightarrow> ('v, 't) M_list option" where
  "M_list_insert_end d =
     (if \<not> multi_insert d then Some d
      else do { d \<leftarrow> sort_data d; Some (d\<lparr>multi_insert := False\<rparr>) })"

section \<open>Removal\<close>

definition M_list_take_at :: "('v::zero, 't) M_list \<Rightarrow> nat \<Rightarrow> ('v \<times> ('v, 't) M_list) option" where
  "M_list_take_at d idx =
     (if idx \<ge> elements d then Some (NULL, d)
      else do {
        let idx = M_list_convert_idx_at d idx;
        val \<leftarrow> start_get d idx;
        d \<leftarrow> start_set d idx NULL;
        d \<leftarrow> (if idx = 0 then Some (d\<lparr>start := start d + 1\<rparr>)
               else if idx \<noteq> elements d - 1 then do {
                 b \<leftarrow> mem_move (base d) (start d + idx) (start d + (idx + 1)) (elements d - idx - 1);
                 Some (d\<lparr>base := b\<rparr>)
               } else Some d);
        d \<leftarrow> M_list_shrink (d\<lparr>elements := elements d - 1\<rparr>);
        Some (val, d)
      })"

definition M_list_take_first :: "('v::zero, 't) M_list \<Rightarrow> ('v \<times> ('v, 't) M_list) option" where
  "M_list_take_first d = (if elements d = 0 then Some (NULL, d) else M_list_take_at d 0)"

definition M_list_take_last :: "('v::zero, 't) M_list \<Rightarrow> ('v \<times> ('v, 't) M_list) option" where
  "M_list_take_last d =
     (if elements d = 0 then Some (NULL, d) else M_list_take_at d (elements d - 1))"

text \<open>The loop that frees the entries \<open>i\<close> to \<open>e - 1\<close>.\<close>

function free_range :: "('v, 't) M_list \<Rightarrow> nat \<Rightarrow> nat \<Rightarrow> ('v, 't) M_list option" where
  "free_range d i e =
     (if i < e then do { x \<leftarrow> start_get d i; free_range (value_free d x) (i + 1) e } else Some d)"
  by pat_completeness auto
termination
  by (relation "measure (\<lambda>(d, i, e). e - i)") auto

declare free_range.simps [simp del]

text \<open>
  The lengths are in entries; the byte count that \<open>M_mem_set\<close> is called with wraps around,
  \<open>sizeof\<close> a pointer being 8.
\<close>

definition M_list_remove_range ::
  "('v::zero, 't) M_list \<Rightarrow> nat \<Rightarrow> nat \<Rightarrow> (bool \<times> ('v, 't) M_list) option" where
  "M_list_remove_range d s e =
     (if s > e \<or> s \<ge> elements d then Some (False, d)
      else do {
        let s = M_list_convert_idx_at d s;
        let e = M_list_convert_idx_at d e;
        let e = (if e \<ge> elements d then elements d - 1 else e);
        let remove_to_end = (e = elements d - 1);
        d \<leftarrow> free_range d s (size_add e 1);
        let n = size_add (size_sub e s) 1;
        b \<leftarrow> mem_set (base d) (start d + s) NULL (size_mul n 8 div 8);
        let d = d\<lparr>base := b, elements := size_sub (elements d) n\<rparr>;
        d \<leftarrow> (if elements d > 0 then
                 if s = 0 then Some (d\<lparr>start := start d + (e + 1)\<rparr>)
                 else if \<not> remove_to_end then do {
                   b \<leftarrow> mem_move (base d) (start d + s) (start d + (e + 1))
                          (size_sub (elements d) s);
                   Some (d\<lparr>base := b\<rparr>)
                 } else Some d
               else Some d);
        d \<leftarrow> M_list_shrink d;
        Some (True, d)
      })"

definition M_list_remove_at ::
  "('v::zero, 't) M_list \<Rightarrow> nat \<Rightarrow> (bool \<times> ('v, 't) M_list) option" where
  "M_list_remove_at d idx =
     (if idx \<ge> elements d then Some (False, d) else M_list_remove_range d idx idx)"

definition M_list_remove_first :: "('v::zero, 't) M_list \<Rightarrow> (bool \<times> ('v, 't) M_list) option" where
  "M_list_remove_first d = (if elements d = 0 then Some (False, d) else M_list_remove_at d 0)"

definition M_list_remove_last :: "('v::zero, 't) M_list \<Rightarrow> (bool \<times> ('v, 't) M_list) option" where
  "M_list_remove_last d =
     (if elements d = 0 then Some (False, d) else M_list_remove_at d (elements d - 1))"

section \<open>Operations on matching values\<close>

text \<open>Removing an element makes the list shorter: what the loops below need to terminate.\<close>

lemma elements_shift_data: "M_list_shift_data d f = Some d' \<Longrightarrow> elements d' = elements d"
  by (auto simp: M_list_shift_data_def Let_def split: if_splits bind_splits)

lemma elements_shrink: "M_list_shrink d = Some d' \<Longrightarrow> elements d' = elements d"
  by (auto simp: M_list_shrink_def Let_def dest!: elements_shift_data split: if_splits bind_splits)

lemma elements_free_range: "free_range d i e = Some d' \<Longrightarrow> elements d' = elements d"
proof (induction d i e rule: free_range.induct)
  case (1 d i e)
  then show ?case
    by (auto simp: free_range.simps [of d i e] value_free_def split: if_splits bind_splits)
qed

lemma convert_idx_at_less [simp]:
  "idx < elements d \<Longrightarrow> M_list_convert_idx_at d idx < elements d"
  by (cases "elements d < SIZE_MOD")
    (auto simp: M_list_convert_idx_at_def intro: less_le_trans [OF size_sub_less])

lemma M_list_remove_at_elements:
  assumes "M_list_remove_at d i = Some (b, d')" "i < elements d"
  shows "elements d' < elements d"
proof (cases "elements d < SIZE_MOD")
  case True
  have "\<not> elements d \<le> M_list_convert_idx_at d i" using assms(2) by (simp add: not_le)
  then show ?thesis using assms True
    by (auto simp: M_list_remove_at_def M_list_remove_range_def Let_def
        dest!: elements_shrink elements_free_range split: if_splits bind_splits)
next
  case False
  have "elements d' < SIZE_MOD" using assms
    by (auto simp: M_list_remove_at_def M_list_remove_range_def Let_def
        dest!: elements_shrink elements_free_range split: if_splits bind_splits)
  then show ?thesis using False by simp
qed

text \<open>
  \<open>M_list_match_op_val_int\<close> on a sorted list: the loop over the elements after the one found,
  which gives the list, the last matching index and the count, and the loop over those before.
\<close>

function match_after ::
  "('v::zero, 't) M_list \<Rightarrow> 'v \<Rightarrow> M_list_match_type set \<Rightarrow> M_list_match_op \<Rightarrow> nat \<Rightarrow> nat \<Rightarrow> nat
     \<Rightarrow> (('v, 't) M_list \<times> nat \<times> nat) option" where
  "match_after d val type match_op i e cnt =
     (if i < elements d then do {
        x \<leftarrow> start_get d i;
        c \<leftarrow> call_equality d val x (thunk d);
        if c \<noteq> 0 then Some (d, e, cnt)
        else if M_LIST_MATCH_PTR \<in> type then
          if val = x then
            if match_op = M_LIST_MATCH_OP_REMOVE \<or> match_op = M_LIST_MATCH_OP_REPLACE then do {
              (b, d) \<leftarrow> M_list_remove_at d i;
              match_after d val type match_op i e (cnt + 1)
            }
            else match_after d val type match_op (i + 1) e (cnt + 1)
          else match_after d val type match_op (i + 1) e cnt
        else match_after d val type match_op (i + 1) i cnt
      } else Some (d, e, cnt))"
  by pat_completeness auto
termination
  by (relation "measure (\<lambda>(d, val, type, match_op, i, e, cnt). elements d - i)")
    (auto dest!: M_list_remove_at_elements)

declare match_after.simps [simp del]

fun match_before ::
  "('v::zero, 't) M_list \<Rightarrow> 'v \<Rightarrow> M_list_match_type set \<Rightarrow> M_list_match_op \<Rightarrow> nat \<Rightarrow> nat \<Rightarrow> nat
     \<Rightarrow> (('v, 't) M_list \<times> nat \<times> nat) option" where
  "match_before d val type match_op 0 s cnt = Some (d, s, cnt)"
| "match_before d val type match_op (Suc i) s cnt = do {
     x \<leftarrow> start_get d i;
     c \<leftarrow> call_equality d val x (thunk d);
     if c \<noteq> 0 then Some (d, s, cnt)
     else if M_LIST_MATCH_PTR \<in> type then
       if val = x then do {
         (b, d) \<leftarrow> (if match_op = M_LIST_MATCH_OP_REMOVE \<or> match_op = M_LIST_MATCH_OP_REPLACE
                     then M_list_remove_at d i else Some (True, d));
         match_before d val type match_op i s (cnt + 1)
       }
       else match_before d val type match_op i s cnt
     else match_before d val type match_op i i cnt
   }"

text \<open>The insertions of a replacement, from the \<open>i\<close>-th of \<open>i + n\<close> on.\<close>

fun match_reinsert ::
  "('v::zero, 't::zero) M_list \<Rightarrow> 'v \<Rightarrow> nat \<Rightarrow> nat \<Rightarrow> nat \<Rightarrow> ('v, 't) M_list option" where
  "match_reinsert d ptr idx i 0 = Some d"
| "match_reinsert d ptr idx i (Suc n) = do {
     let ptr = (if i > 0 then duplicate_copy d ptr else ptr);
     let insert_type = (if i > 0 then {M_LIST_INSERT_NODUP, M_LIST_INSERT_NOSETCHECK}
                        else {M_LIST_INSERT_INITIAL, M_LIST_INSERT_NODUP, M_LIST_INSERT_NOSETCHECK});
     let idx = (if i > 0 then idx + 1 else idx);
     (ok, d) \<leftarrow> M_list_insert_at_int d ptr idx insert_type;
     if \<not> ok then Some (value_free d ptr) else match_reinsert d ptr idx (i + 1) n
   }"

definition match_sorted ::
  "('v::zero, 't::zero) M_list \<Rightarrow> 'v \<Rightarrow> 'v \<Rightarrow> M_list_match_type set \<Rightarrow> M_list_match_op
     \<Rightarrow> (nat \<times> ('v, 't) M_list) option" where
  "match_sorted d val new_val type match_op = do {
     r \<leftarrow> M_list_index_of d val type;
     case r of
       None \<Rightarrow> Some (0, d)
     | Some idx \<Rightarrow> do {
         (d, s, e, cnt) \<leftarrow>
           (if M_LIST_MATCH_ALL \<in> type \<or> match_op = M_LIST_MATCH_OP_COUNT then do {
              (d, e, cnt) \<leftarrow> match_after d val type match_op (idx + 1) idx 1;
              (d, s, cnt) \<leftarrow> match_before d val type match_op idx idx cnt;
              Some (d, s, e, cnt)
            } else Some (d, idx, idx, 1));
         let cnt = (if M_LIST_MATCH_PTR \<notin> type then cnt + (e - s) else cnt);
         d \<leftarrow> (if match_op = M_LIST_MATCH_OP_REMOVE \<or> match_op = M_LIST_MATCH_OP_REPLACE
                then do { (b, d) \<leftarrow> M_list_remove_range d s e; Some d } else Some d);
         d \<leftarrow> (if match_op = M_LIST_MATCH_OP_REPLACE then do {
                  let ptr = duplicate_insert d new_val;
                  at \<leftarrow> M_list_insert_idx d ptr;
                  match_reinsert d ptr (M_list_convert_idx_insert d at) 0 cnt
                } else Some d);
         Some (cnt, d)
       }
   }"

text \<open>The loop over an unsorted list, from the end; \<open>ptr\<close> is the copy stored last.\<close>

fun match_unsorted ::
  "('v::zero, 't) M_list \<Rightarrow> 'v \<Rightarrow> 'v \<Rightarrow> M_list_match_type set \<Rightarrow> M_list_match_op \<Rightarrow> 'v \<Rightarrow> nat \<Rightarrow> nat
     \<Rightarrow> (nat \<times> ('v, 't) M_list) option" where
  "match_unsorted d val new_val type match_op ptr cnt 0 = Some (cnt, d)"
| "match_unsorted d val new_val type match_op ptr cnt (Suc i) = do {
     x \<leftarrow> start_get d i;
     eq \<leftarrow> (if M_LIST_MATCH_PTR \<in> type then Some (val = x)
             else do { c \<leftarrow> call_equality d val x (thunk d); Some (c = 0) });
     (d, ptr, cnt) \<leftarrow>
       (if eq then
          case match_op of
            M_LIST_MATCH_OP_REPLACE \<Rightarrow> do {
              let ptr = (if cnt = 0 then duplicate_insert d new_val else duplicate_copy d ptr);
              d \<leftarrow> start_set (value_free d x) i ptr;
              Some (d, ptr, cnt + 1)
            }
          | M_LIST_MATCH_OP_REMOVE \<Rightarrow> do {
              (b, d) \<leftarrow> M_list_remove_at d i;
              Some (d, ptr, cnt + 1)
            }
          | M_LIST_MATCH_OP_COUNT \<Rightarrow> Some (d, ptr, cnt + 1)
        else Some (d, ptr, cnt));
     if cnt = 1 \<and> M_LIST_MATCH_ALL \<notin> type \<and> match_op \<noteq> M_LIST_MATCH_OP_COUNT then Some (cnt, d)
     else match_unsorted d val new_val type match_op ptr cnt i
   }"

definition M_list_match_op_val_int ::
  "('v::zero, 't::zero) M_list \<Rightarrow> 'v \<Rightarrow> 'v \<Rightarrow> M_list_match_type set \<Rightarrow> M_list_match_op
     \<Rightarrow> (nat \<times> ('v, 't) M_list) option" where
  "M_list_match_op_val_int d val new_val type match_op =
     (if val = NULL \<or> elements d = 0 \<or> M_LIST_MATCH_PTR \<notin> type \<and> equality d = None then Some (0, d)
      else do {
        same \<leftarrow> (if match_op = M_LIST_MATCH_OP_REPLACE then
                   if new_val = NULL then Some True
                   else if M_LIST_MATCH_PTR \<in> type then Some (val = new_val)
                   else do { c \<leftarrow> call_equality d val new_val (thunk d); Some (c = 0) }
                 else Some False);
        if same then Some (0, d)
        else do {
          match_op \<leftarrow> (if match_op = M_LIST_MATCH_OP_REPLACE \<and> is_set d then do {
                          r \<leftarrow> M_list_index_of d new_val (set_match d);
                          Some (if r \<noteq> None then M_LIST_MATCH_OP_REMOVE else match_op)
                        } else Some match_op);
          if M_LIST_SORTED \<in> flags d \<and> \<not> multi_insert d
          then match_sorted d val new_val type match_op
          else match_unsorted d val new_val type match_op NULL 0 (elements d)
        }
      })"

definition M_list_count ::
  "('v::zero, 't::zero) M_list \<Rightarrow> 'v \<Rightarrow> M_list_match_type set \<Rightarrow> (nat \<times> ('v, 't) M_list) option" where
  "M_list_count d val type = M_list_match_op_val_int d val NULL type M_LIST_MATCH_OP_COUNT"

definition M_list_remove_val ::
  "('v::zero, 't::zero) M_list \<Rightarrow> 'v \<Rightarrow> M_list_match_type set \<Rightarrow> (nat \<times> ('v, 't) M_list) option" where
  "M_list_remove_val d val type = M_list_match_op_val_int d val NULL type M_LIST_MATCH_OP_REMOVE"

definition M_list_replace_val ::
  "('v::zero, 't::zero) M_list \<Rightarrow> 'v \<Rightarrow> 'v \<Rightarrow> M_list_match_type set
     \<Rightarrow> (nat \<times> ('v, 't) M_list) option" where
  "M_list_replace_val d val new_val type =
     M_list_match_op_val_int d val new_val type M_LIST_MATCH_OP_REPLACE"

definition M_list_replace_at ::
  "('v::zero, 't) M_list \<Rightarrow> 'v \<Rightarrow> nat \<Rightarrow> (bool \<times> ('v, 't) M_list) option" where
  "M_list_replace_at d val idx =
     (if idx \<ge> elements d \<or> M_LIST_SORTED \<in> flags d \<and> \<not> multi_insert d then Some (False, d)
      else do {
        let idx = M_list_convert_idx_at d idx;
        x \<leftarrow> start_get d idx;
        d \<leftarrow> start_set (value_free d x) idx (duplicate_insert d val);
        Some (True, d)
      })"

definition M_list_swap :: "('v, 't) M_list \<Rightarrow> nat \<Rightarrow> nat \<Rightarrow> (bool \<times> ('v, 't) M_list) option" where
  "M_list_swap d idx1 idx2 =
     (if elements d = 0 \<or> M_LIST_SORTED \<in> flags d \<or> idx1 = idx2 \<or> idx1 > elements d \<or> idx2 > elements d
      then Some (False, d)
      else do {
        temp \<leftarrow> start_get d idx1;
        x \<leftarrow> start_get d idx2;
        d \<leftarrow> start_set d idx1 x;
        d \<leftarrow> start_set d idx2 temp;
        Some (True, d)
      })"

section \<open>Removing duplicates\<close>

text \<open>The inner loops: matching pointers in a sorted list, the end of a run, an unsorted list.\<close>

function dedup_ptr :: "('v::zero, 't::zero) M_list \<Rightarrow> nat \<Rightarrow> nat \<Rightarrow> ('v, 't) M_list option" where
  "dedup_ptr d i j =
     (if j < elements d then do {
        x \<leftarrow> start_get d i;
        y \<leftarrow> start_get d j;
        c \<leftarrow> call_equality d x y NULL;
        if c \<noteq> 0 then Some d
        else if x = y then do {
          (b, d) \<leftarrow> M_list_remove_at d (M_list_convert_idx_at d j);
          dedup_ptr d i j
        }
        else dedup_ptr d i (j + 1)
      } else Some d)"
  by pat_completeness auto
termination
  by (relation "measure (\<lambda>(d, i, j). elements d - j)") (auto dest!: M_list_remove_at_elements)

function dedup_run :: "('v, 't::zero) M_list \<Rightarrow> nat \<Rightarrow> nat \<Rightarrow> nat option" where
  "dedup_run d i j =
     (if j < elements d then do {
        x \<leftarrow> start_get d i;
        y \<leftarrow> start_get d j;
        c \<leftarrow> call_equality d x y NULL;
        if c = 0 then dedup_run d i (j + 1) else Some j
      } else Some j)"
  by pat_completeness auto
termination
  by (relation "measure (\<lambda>(d, i, j). elements d - j)") auto

function dedup_rest ::
  "('v::zero, 't::zero) M_list \<Rightarrow> M_list_match_type set \<Rightarrow> nat \<Rightarrow> nat \<Rightarrow> ('v, 't) M_list option" where
  "dedup_rest d type i j =
     (if j < elements d then do {
        x \<leftarrow> start_get d i;
        y \<leftarrow> start_get d j;
        eq \<leftarrow> (if M_LIST_MATCH_PTR \<in> type then Some (x = y)
                else do { c \<leftarrow> call_equality d x y NULL; Some (c = 0) });
        if eq then do {
          (b, d) \<leftarrow> M_list_remove_at d (M_list_convert_idx_at d j);
          dedup_rest d type i j
        }
        else dedup_rest d type i (j + 1)
      } else Some d)"
  by pat_completeness auto
termination
  by (relation "measure (\<lambda>(d, type, i, j). elements d - j)") (auto dest!: M_list_remove_at_elements)

declare dedup_ptr.simps [simp del] dedup_run.simps [simp del] dedup_rest.simps [simp del]

partial_function (option) dedup_sorted ::
  "('v::zero, 't::zero) M_list \<Rightarrow> M_list_match_type set \<Rightarrow> nat \<Rightarrow> ('v, 't) M_list option" where
  "dedup_sorted d type i =
     (if i < elements d then do {
        d \<leftarrow> (if M_LIST_MATCH_PTR \<in> type then dedup_ptr d i (i + 1)
               else do {
                 j \<leftarrow> dedup_run d i (i + 1);
                 if j > i then do {
                   (b, d) \<leftarrow> M_list_remove_range d (M_list_convert_idx_at d (i + 1)) (M_list_convert_idx_at d j);
                   Some d
                 } else Some d
               });
        dedup_sorted d type (i + 1)
      } else Some d)"

partial_function (option) dedup_unsorted ::
  "('v::zero, 't::zero) M_list \<Rightarrow> M_list_match_type set \<Rightarrow> nat \<Rightarrow> ('v, 't) M_list option" where
  "dedup_unsorted d type i =
     (if i < elements d then do {
        d \<leftarrow> dedup_rest d type i (i + 1);
        dedup_unsorted d type (i + 1)
      } else Some d)"

declare dedup_sorted.simps [code] dedup_unsorted.simps [code]

definition M_list_remove_duplicates ::
  "('v::zero, 't::zero) M_list \<Rightarrow> M_list_match_type set \<Rightarrow> ('v, 't) M_list option" where
  "M_list_remove_duplicates d type =
     (if M_LIST_MATCH_PTR \<notin> type \<and> equality d = None then Some d
      else if M_LIST_SORTED \<in> flags d \<and> \<not> multi_insert d then dedup_sorted d type 0
      else dedup_unsorted d type 0)"

section \<open>Whole lists\<close>

definition M_list_create ::
  "('v, 't) M_list_callbacks option \<Rightarrow> M_list_flags set \<Rightarrow> ('v::zero, 't::zero) M_list option" where
  "M_list_create callbacks fl =
     (let no_equality = (case callbacks of None \<Rightarrow> True | Some cb \<Rightarrow> cb_equality cb = None) in
      if M_LIST_SORTED \<in> fl \<and> (no_equality \<or> M_LIST_STACK \<in> fl) \<or> M_LIST_SET_VAL \<in> fl \<and> no_equality
      then None
      else
        let d = \<lparr>equality = None, duplicate_insert = M_list_duplicate_func_default,
                 duplicate_copy = M_list_duplicate_func_default, flags = fl,
                 base = replicate INITIAL_SIZE NULL, start = 0, elements = 0,
                 allocated = INITIAL_SIZE, multi_insert = False, thunk = NULL, freed = []\<rparr>
        in Some (case callbacks of
             None \<Rightarrow> d
           | Some cb \<Rightarrow>
               d\<lparr>equality := (case cb_equality cb of None \<Rightarrow> equality d | Some f \<Rightarrow> Some f),
                 duplicate_insert := (case cb_duplicate_insert cb of None \<Rightarrow> duplicate_insert d | Some f \<Rightarrow> f),
                 duplicate_copy := (case cb_duplicate_copy cb of None \<Rightarrow> duplicate_copy d | Some f \<Rightarrow> f)\<rparr>))"

text \<open>After \<open>M_list_destroy\<close> only the record of the calls of \<open>value_free\<close> is left.\<close>

definition M_list_destroy :: "('v, 't) M_list \<Rightarrow> bool \<Rightarrow> 'v list option" where
  "M_list_destroy d destroy_vals =
     map_option freed (if destroy_vals then free_range d 0 (elements d) else Some d)"

text \<open>\<open>same\<close> is the outcome of the pointer comparison \<open>equality == d->equality\<close>.\<close>

definition M_list_change_sorting ::
  "('v, 't) M_list \<Rightarrow> ('v, 't) M_sort_compar_t option \<Rightarrow> bool \<Rightarrow> M_list_flags set \<Rightarrow> 't
     \<Rightarrow> ('v, 't) M_list option" where
  "M_list_change_sorting d eq same sorted_flags th =
     (if M_LIST_SORTED \<in> sorted_flags \<and> M_LIST_STACK \<in> flags d then Some d
      else if eq = None \<and> M_LIST_SORTED \<in> sorted_flags then Some d
      else if (M_LIST_SORTED \<in> sorted_flags \<longleftrightarrow> M_LIST_SORTED \<in> flags d) \<and>
              (M_LIST_STABLE \<in> sorted_flags \<longleftrightarrow> M_LIST_STABLE \<in> flags d) \<and> same then Some d
      else sort_data
        (d\<lparr>equality := eq,
           flags := (flags d - {M_LIST_SORTED, M_LIST_STABLE})
             \<union> (if M_LIST_SORTED \<in> sorted_flags then {M_LIST_SORTED} else {})
             \<union> (if M_LIST_STABLE \<in> sorted_flags then {M_LIST_STABLE} else {}),
           thunk := th\<rparr>))"

definition list_callbacks :: "('v, 't) M_list \<Rightarrow> ('v, 't) M_list_callbacks" where
  "list_callbacks d =
     \<lparr>cb_equality = equality d, cb_duplicate_insert = Some (duplicate_insert d),
      cb_duplicate_copy = Some (duplicate_copy d)\<rparr>"

text \<open>The insertion loop of \<open>M_list_duplicate\<close>, over the values of the source list.\<close>

fun duplicate_loop ::
  "('v::zero, 't::zero) M_list \<Rightarrow> 'v list \<Rightarrow> ('v, 't) M_list option" where
  "duplicate_loop dupd [] = Some dupd"
| "duplicate_loop dupd (x # xs) = do {
     idx \<leftarrow> M_list_insert_idx dupd x;
     (b, dupd) \<leftarrow> M_list_insert_at_int dupd x (M_list_convert_idx_insert dupd idx)
                    {M_LIST_INSERT_DUP, M_LIST_INSERT_NOSETCHECK};
     duplicate_loop dupd xs
   }"

text \<open>The inner option is the null pointer of a creation that fails.\<close>

definition M_list_duplicate :: "('v::zero, 't::zero) M_list \<Rightarrow> ('v, 't) M_list option option" where
  "M_list_duplicate d =
     (case M_list_create (Some (list_callbacks d)) (flags d) of
        None \<Rightarrow> Some None
      | Some dupd \<Rightarrow> do {
          xs \<leftarrow> start_read d;
          dupd \<leftarrow> duplicate_loop (M_list_insert_begin dupd) xs;
          dupd \<leftarrow> M_list_insert_end dupd;
          Some (Some dupd)
        })"

text \<open>
  The list that \<open>M_list_merge_int\<close> searches for duplicates is absent, another list, or the
  destination itself, which grows while it is searched.
\<close>

datatype ('v, 't) merge_dups = Dups_NULL | Dups_list "('v, 't) M_list" | Dups_dest

fun merge_loop ::
  "('v::zero, 't::zero) M_list \<Rightarrow> ('v, 't) M_list \<Rightarrow> ('v, 't) merge_dups \<Rightarrow> bool \<Rightarrow> M_list_match_type set
     \<Rightarrow> 'v list \<Rightarrow> (('v, 't) M_list \<times> ('v, 't) M_list) option" where
  "merge_loop dest src dups include_duplicates type [] = Some (dest, src)"
| "merge_loop dest src dups include_duplicates type (val # vals) = do {
     r \<leftarrow> (if \<not> include_duplicates then
              case dups of
                Dups_NULL \<Rightarrow> Some None
              | Dups_list l \<Rightarrow> M_list_index_of l val type
              | Dups_dest \<Rightarrow> M_list_index_of dest val type
            else Some None);
     if r \<noteq> None then merge_loop dest (value_free src val) dups include_duplicates type vals
     else do {
       (b, dest) \<leftarrow> M_list_insert_at_int dest val (elements dest)
                      {M_LIST_INSERT_NODUP, M_LIST_INSERT_NOSETCHECK};
       merge_loop dest src dups include_duplicates type vals
     }
   }"

text \<open>The results are \<open>*dest\<close> and the source, of which only \<open>freed\<close> is left.\<close>

definition M_list_merge_int ::
  "('v::zero, 't::zero) M_list option \<Rightarrow> ('v, 't) M_list \<Rightarrow> ('v, 't) merge_dups \<Rightarrow> bool
     \<Rightarrow> M_list_match_type set \<Rightarrow> (('v, 't) M_list option \<times> 'v list) option" where
  "M_list_merge_int dest src dups include_duplicates type =
     (if (dest = None \<or> M_list_len (the dest) = 0) \<and> (case dups of Dups_NULL \<Rightarrow> True | _ \<Rightarrow> False) then do {
        f \<leftarrow> (case dest of None \<Rightarrow> Some [] | Some d \<Rightarrow> M_list_destroy d True);
        Some (Some src, [])
      }
      else do {
        dest \<leftarrow> (case dest of None \<Rightarrow> M_list_create (Some (list_callbacks src)) (flags src)
                  | Some d \<Rightarrow> Some d);
        let include_duplicates = (if is_set dest then False else include_duplicates);
        let type = (if is_set dest then set_match dest else type);
        xs \<leftarrow> start_read src;
        (dest, src) \<leftarrow> merge_loop (M_list_insert_begin dest) src dups include_duplicates type xs;
        dest \<leftarrow> M_list_insert_end dest;
        f \<leftarrow> M_list_destroy src False;
        Some (Some dest, f)
      })"

definition M_list_merge ::
  "('v::zero, 't::zero) M_list option \<Rightarrow> ('v, 't) M_list \<Rightarrow> bool
     \<Rightarrow> M_list_match_type set \<Rightarrow> (('v, 't) M_list option \<times> 'v list) option" where
  "M_list_merge dest src include_duplicates type =
     (case dest of
        None \<Rightarrow> Some (Some src, [])
      | Some d \<Rightarrow>
          if M_list_len d = 0 then do { f \<leftarrow> M_list_destroy d True; Some (Some src, []) }
          else if M_LIST_SORTED \<in> flags src \<and> \<not> include_duplicates then do {
            (dtemp, f) \<leftarrow> M_list_merge_int None src (Dups_list d) include_duplicates type;
            (dest, f') \<leftarrow> M_list_merge_int dest (the dtemp) Dups_NULL True type;
            Some (dest, f @ f')
          }
          else M_list_merge_int dest src Dups_dest include_duplicates type)"

end
