(* ===== verification/M_List_Ok.thy ===== *)
theory M_List_Ok
  imports M_List
begin

text \<open>
  What the operations of the growable list do. \<open>vals\<close> is the abstract value of a list, \<open>list_ok\<close>
  its invariant; every operation is shown not to leave the block, to keep the invariant, and to
  act on \<open>vals\<close> as the list operation it stands for.
\<close>

section \<open>Windows of a block that is shifted\<close>

definition ins :: "nat \<Rightarrow> 'a \<Rightarrow> 'a list \<Rightarrow> 'a list" where
  "ins i v xs = take i xs @ v # drop i xs"

definition del :: "nat \<Rightarrow> nat \<Rightarrow> 'a list \<Rightarrow> 'a list" where
  "del a e xs = take a xs @ drop (e + 1) xs"

lemma length_ins [simp]: "length (ins i v xs) = length xs + 1"
  by (simp add: ins_def)

lemma ins_length [simp]: "ins (length xs) v xs = xs @ [v]"
  by (simp add: ins_def)

lemma mset_ins [simp]: "mset (ins i v xs) = add_mset v (mset xs)"
  by (simp add: ins_def) (metis append_take_drop_id mset_append)

lemma set_ins [simp]: "set (ins i v xs) = insert v (set xs)"
  using mset_ins [of i v xs] by (metis set_mset_add_mset_insert set_mset_mset)

lemma length_del [simp]: "a \<le> e \<Longrightarrow> e < length xs \<Longrightarrow> length (del a e xs) = length xs - (e + 1 - a)"
  by (simp add: del_def)

lemma nth_ins:
  "k \<le> length xs \<Longrightarrow> i \<le> length xs \<Longrightarrow>
     ins i v xs ! k = (if k < i then xs ! k else if k = i then v else xs ! (k - 1))"
  by (auto simp: ins_def nth_append nth_Cons')

lemma nth_del:
  "a \<le> e \<Longrightarrow> e < length xs \<Longrightarrow> k < length xs - (e + 1 - a) \<Longrightarrow>
     del a e xs ! k = (if k < a then xs ! k else xs ! (e + 1 + (k - a)))"
  by (auto simp: del_def nth_append)

lemma window_insert:
  assumes "s + n < length xs" "i \<le> n" "mem_move xs (s + (i + 1)) (s + i) (n - i) = Some b"
  shows "window s (n + 1) (b[s + i := v]) = ins i v (window s n xs)"
proof (rule nth_equalityI)
  have len: "length b = length xs" using assms(3) by (rule length_mem_move)
  show "length (window s (n + 1) (b[s + i := v])) = length (ins i v (window s n xs))"
    using assms len by simp
  fix k assume "k < length (window s (n + 1) (b[s + i := v]))"
  then have k: "k < n + 1" using assms len by simp
  have copy: "mem_copy xs (s + (i + 1)) (take (n - i) (drop (s + i) xs)) = Some b"
    using assms(1,2,3) by (simp add: mem_move_def split: if_splits)
  have "b ! (s + k) = (if i < k then xs ! (s + k - 1) else xs ! (s + k))"
    using nth_mem_copy [OF copy, of "s + k"] k assms(1,2) by (auto simp: algebra_simps)
  then show "window s (n + 1) (b[s + i := v]) ! k = ins i v (window s n xs) ! k"
    using k assms(1,2) len by (auto simp: nth_ins nth_list_update)
qed

lemma window_delete:
  assumes "s + n \<le> length xs" "a \<le> e" "e < n"
    and "mem_move xs (s + a) (s + (e + 1)) (n - (e + 1)) = Some b"
  shows "window s (n - (e + 1 - a)) b = del a e (window s n xs)"
proof (rule nth_equalityI)
  have len: "length b = length xs" using assms(4) by (rule length_mem_move)
  show "length (window s (n - (e + 1 - a)) b) = length (del a e (window s n xs))"
    using assms len by simp
  fix k assume "k < length (window s (n - (e + 1 - a)) b)"
  then have k: "k < n - (e + 1 - a)" using assms len by simp
  have copy: "mem_copy xs (s + a) (take (n - (e + 1)) (drop (s + (e + 1)) xs)) = Some b"
    using assms by (simp add: mem_move_def split: if_splits)
  have "b ! (s + k) = (if a \<le> k then xs ! (s + (e + 1 + (k - a))) else xs ! (s + k))"
    using nth_mem_copy [OF copy, of "s + k"] k assms(1-3) by (auto simp: algebra_simps)
  then show "window s (n - (e + 1 - a)) b ! k = del a e (window s n xs) ! k"
    using k assms(1-3) len by (auto simp: nth_del)
qed

lemma window_shift:
  assumes "s + n \<le> length xs" "mem_move xs 0 s n = Some b"
  shows "window 0 n b = window s n xs"
proof -
  have copy: "mem_copy xs 0 (take n (drop s xs)) = Some b"
    using assms by (simp add: mem_move_def split: if_splits)
  then show ?thesis using assms(1) by (auto simp: mem_copy_def window_def split: if_splits)
qed

lemma window_mem_copy:
  "mem_copy xs s vs = Some b \<Longrightarrow> n = length vs \<Longrightarrow> window s n b = vs"
  by (auto simp: mem_copy_def window_def split: if_splits)

lemma mem_move_safe: "src + n \<le> length xs \<Longrightarrow> dst + n \<le> length xs \<Longrightarrow> \<exists>b. mem_move xs dst src n = Some b"
  by (simp add: mem_move_def mem_copy_def)

lemma mem_set_safe: "dst + n \<le> length xs \<Longrightarrow> \<exists>b. mem_set xs dst v n = Some b"
  by (simp add: mem_set_def mem_copy_def)

lemma del_mem_set:
  assumes "s + n \<le> length xs" "a \<le> e" "e < n" "mem_set xs (s + a) v (e + 1 - a) = Some b"
  shows "del a e (window s n b) = del a e (window s n xs)"
proof -
  have len: "length b = length xs"
    using assms(4) by (auto simp: mem_set_def dest: length_mem_copy)
  have nth: "b ! (s + k) = xs ! (s + k)" if "k < a \<or> e < k" "k < n" for k
    using nth_mem_copy [of xs "s + a" "replicate (e + 1 - a) v" b "s + k"] assms that
    by (auto simp: mem_set_def)
  have "take a (window s n b) = take a (window s n xs)"
    using assms nth len by (intro nth_equalityI) auto
  moreover have "drop (e + 1) (window s n b) = drop (e + 1) (window s n xs)"
    using assms(1-3) nth [of "e + 1 + _"] len by (intro nth_equalityI) (auto simp: add.assoc)
  ultimately show ?thesis by (simp add: del_def)
qed

lemma mem_set_length: "mem_set xs dst v n = Some b \<Longrightarrow> length b = length xs"
  by (auto simp: mem_set_def dest: length_mem_copy)

section \<open>Invariant\<close>

definition vals :: "('v, 't) M_list \<Rightarrow> 'v list" where
  "vals d = window (start d) (elements d) (base d)"

text \<open>The part of the state that insertions and removals leave alone.\<close>

definition cfg where
  "cfg d = (equality d, duplicate_insert d, duplicate_copy d, flags d, multi_insert d, thunk d)"

lemma cfg_update [simp]:
  "cfg (d\<lparr>base := b\<rparr>) = cfg d" "cfg (d\<lparr>start := n\<rparr>) = cfg d" "cfg (d\<lparr>elements := n\<rparr>) = cfg d"
  "cfg (d\<lparr>allocated := n\<rparr>) = cfg d" "cfg (d\<lparr>freed := fs\<rparr>) = cfg d"
  by (simp_all add: cfg_def)

fun cfg_ok where
  "cfg_ok (eq, di, dc, fl, mi, th) \<longleftrightarrow>
     (M_LIST_SORTED \<in> fl \<longrightarrow> M_LIST_STACK \<notin> fl \<and> (\<exists>c. eq = Some c))"

definition list_ok :: "('v, 't) M_list \<Rightarrow> bool" where
  "list_ok d \<longleftrightarrow>
     length (base d) = allocated d \<and> start d + elements d \<le> allocated d \<and>
     INITIAL_SIZE \<le> allocated d \<and> allocated d * 8 < SIZE_MOD \<and> cfg_ok (cfg d)"

lemma cfg_eq:
  "cfg d' = cfg d \<longleftrightarrow> equality d' = equality d \<and> duplicate_insert d' = duplicate_insert d \<and>
     duplicate_copy d' = duplicate_copy d \<and> flags d' = flags d \<and> multi_insert d' = multi_insert d \<and>
     thunk d' = thunk d"
  by (simp add: cfg_def)

text \<open>The invariant holds, and only the data and what was freed may differ from \<open>d\<close>.\<close>

definition upd_ok :: "('v, 't) M_list \<Rightarrow> 'v list \<Rightarrow> 'v list \<Rightarrow> ('v, 't) M_list \<Rightarrow> bool" where
  "upd_ok d xs fs d' \<longleftrightarrow> list_ok d' \<and> cfg d' = cfg d \<and> vals d' = xs \<and> freed d' = freed d @ fs"

lemma length_vals [simp]: "list_ok d \<Longrightarrow> length (vals d) = elements d"
  by (simp add: vals_def list_ok_def)

lemma upd_ok_elements: "upd_ok d xs fs d' \<Longrightarrow> elements d' = length xs"
  using length_vals [of d'] by (auto simp: upd_ok_def)

lemma elements_less: "list_ok d \<Longrightarrow> elements d < SIZE_MOD"
  by (auto simp: list_ok_def)

lemma start_get_vals: "list_ok d \<Longrightarrow> i < elements d \<Longrightarrow> start_get d i = Some (vals d ! i)"
  by (simp add: start_get_def arr_get_def list_ok_def vals_def)

lemma start_read_vals: "list_ok d \<Longrightarrow> start_read d = Some (vals d)"
  by (simp add: start_read_def list_ok_def vals_def)

lemma start_set_vals:
  assumes "list_ok d" "i < elements d"
  shows "\<exists>d'. start_set d i v = Some d' \<and> upd_ok d ((vals d)[i := v]) [] d'"
proof -
  have "window (start d) (elements d) ((base d)[start d + i := v]) =
      (window (start d) (elements d) (base d))[i := v]"
    using assms by (simp add: window_def drop_update_swap take_update_swap)
  then show ?thesis using assms
    by (simp add: start_set_def arr_set_def upd_ok_def list_ok_def vals_def)
qed

section \<open>Making and reclaiming room\<close>

lemma shift_data_ok:
  assumes "list_ok d"
  shows "\<exists>d'. M_list_shift_data d f = Some d' \<and> upd_ok d (vals d) [] d' \<and>
    allocated d' = allocated d \<and> elements d' = elements d \<and> (f \<longrightarrow> start d' = 0) \<and>
    (start d' + elements d' < allocated d' \<or> start d' = 0)"
proof -
  have b: "start d + elements d \<le> length (base d)" using assms by (simp add: list_ok_def)
  obtain b where move: "mem_move (base d) 0 (start d) (elements d) = Some b"
    using b mem_move_safe [of "start d" "elements d" "base d" 0] by auto
  have win: "window 0 (elements d) b = window (start d) (elements d) (base d)"
    by (rule window_shift [OF b move])
  show ?thesis
    using assms move win length_mem_move [OF move]
    by (auto simp: M_list_shift_data_def Let_def upd_ok_def list_ok_def vals_def)
qed

lemma INITIAL_SIZE_pos: "0 < INITIAL_SIZE"
  by (simp add: INITIAL_SIZE_def)

lemma grow_ok:
  assumes "list_ok d" "allocated d * 16 < SIZE_MOD"
  shows "\<exists>d'. M_list_grow d = Some d' \<and> upd_ok d (vals d) [] d' \<and> elements d' = elements d \<and>
    start d' + elements d' < allocated d'"
proof -
  obtain d1 where d1: "M_list_shift_data d False = Some d1" "upd_ok d (vals d) [] d1"
    "allocated d1 = allocated d" "elements d1 = elements d"
    "start d1 + elements d1 < allocated d1 \<or> start d1 = 0"
    using shift_data_ok [OF assms(1), of False] by blast
  show ?thesis
  proof (cases "elements d1 = allocated d1")
    case True
    let ?d2 = "d1\<lparr>allocated := allocated d1 * 2,
      base := mem_realloc 0 (base d1) (allocated d1 * 2), start := 0\<rparr>"
    have "start d1 = 0" using d1 True by (auto simp: upd_ok_def list_ok_def)
    then have "vals ?d2 = vals d1" using d1(2)
      using window_mem_realloc [of 0 "elements d1" "base d1" "allocated d1 * 2" 0]
      by (auto simp: vals_def upd_ok_def list_ok_def)
    moreover have "0 < allocated d1" using d1(2) INITIAL_SIZE_pos by (auto simp: upd_ok_def list_ok_def)
    ultimately show ?thesis using d1 True assms(2)
      by (auto simp: M_list_grow_def Let_def upd_ok_def list_ok_def)
  next
    case False
    then show ?thesis using d1 by (auto simp: M_list_grow_def upd_ok_def list_ok_def)
  qed
qed

lemma shrink_ok:
  assumes "list_ok d"
  shows "\<exists>d'. M_list_shrink d = Some d' \<and> upd_ok d (vals d) [] d'"
proof (cases "M_LIST_NEVERSHRINK \<in> flags d \<or>
    \<not> (allocated d div 2 \<ge> INITIAL_SIZE \<and> elements d \<le> allocated d div 2 * 4 div 5)")
  case True
  then show ?thesis using assms by (auto simp: M_list_shrink_def Let_def upd_ok_def)
next
  case False
  let ?r = "allocated d div 2"
  obtain d1 where d1: "M_list_shift_data d True = Some d1" "upd_ok d (vals d) [] d1"
    "allocated d1 = allocated d" "elements d1 = elements d" "start d1 = 0"
    using shift_data_ok [OF assms(1), of True] by blast
  have r: "elements d1 \<le> ?r" "?r \<le> allocated d" "INITIAL_SIZE \<le> ?r" using False d1(4) by auto
  let ?d2 = "d1\<lparr>allocated := ?r, base := mem_realloc 0 (base d1) ?r, start := 0\<rparr>"
  have "vals ?d2 = vals d1" using d1 r
    using window_mem_realloc [of 0 "elements d1" "base d1" ?r 0]
    by (auto simp: vals_def upd_ok_def list_ok_def)
  then have "upd_ok d (vals d) [] ?d2"
    using d1 r assms by (auto simp: upd_ok_def list_ok_def)
  moreover have "M_list_shrink d = Some ?d2" using False d1 by (simp add: M_list_shrink_def Let_def)
  ultimately show ?thesis by blast
qed

section \<open>Insertion\<close>

lemma store_at_ok:
  assumes "list_ok d" "start d + elements d < allocated d"
  shows "\<exists>d'. store_at d v idx = Some d' \<and> upd_ok d (ins (min idx (elements d)) v (vals d)) [] d'"
proof -
  have b: "start d + elements d < length (base d)" using assms by (simp add: list_ok_def)
  consider (append) "idx \<ge> elements d" | (front) "idx < elements d" "idx = 0" "start d > 0"
    | (move) "idx < elements d" "\<not> (idx = 0 \<and> start d > 0)" by linarith
  then show ?thesis
  proof cases
    case append
    have "window (start d) (elements d + 1) ((base d)[start d + elements d := v]) = vals d @ [v]"
      using b by (intro nth_equalityI) (auto simp: vals_def nth_append nth_list_update)
    then show ?thesis
      using append assms b length_vals [OF assms(1)]
      by (auto simp: store_at_def start_set_def arr_set_def Let_def upd_ok_def list_ok_def
          vals_def min_def ins_def)
  next
    case front
    have "window (start d - 1) (elements d + 1) ((base d)[start d - 1 := v]) = v # vals d"
      using front b by (intro nth_equalityI) (auto simp: vals_def nth_Cons' nth_list_update)
    then show ?thesis
      using front assms b
      by (auto simp: store_at_def start_set_def arr_set_def Let_def upd_ok_def list_ok_def
          vals_def ins_def)
  next
    case move
    obtain b where mv: "mem_move (base d) (start d + (idx + 1)) (start d + idx) (elements d - idx) = Some b"
      using b move(1) mem_move_safe [of "start d + idx" "elements d - idx" "base d" "start d + (idx + 1)"]
      by auto
    have "window (start d) (elements d + 1) (b[start d + idx := v]) = ins idx v (vals d)"
      unfolding vals_def by (rule window_insert [OF b _ mv]) (use move in simp)
    then show ?thesis
      using move assms b mv length_mem_move [OF mv]
      by (auto simp: store_at_def start_set_def arr_set_def Let_def upd_ok_def list_ok_def
          vals_def)
  qed
qed

lemma upd_ok_trans: "upd_ok d xs fs d1 \<Longrightarrow> upd_ok d1 ys gs d2 \<Longrightarrow> upd_ok d ys (fs @ gs) d2"
  by (simp add: upd_ok_def)

lemma upd_ok_trans_Nil: "upd_ok d xs [] d1 \<Longrightarrow> upd_ok d1 ys gs d2 \<Longrightarrow> upd_ok d ys gs d2"
  using upd_ok_trans [of d xs "[]" d1 ys gs d2] by simp

text \<open>The value that an insertion stores.\<close>

definition stored :: "('v, 't) M_list \<Rightarrow> M_list_insert_type set \<Rightarrow> 'v \<Rightarrow> 'v" where
  "stored d insert_type val =
     (if M_LIST_INSERT_DUP \<in> insert_type then
        if M_LIST_INSERT_INITIAL \<in> insert_type then duplicate_insert d val else duplicate_copy d val
      else val)"

lemma insert_at_int_ok:
  assumes "list_ok d" "allocated d * 16 < SIZE_MOD"
    and "M_LIST_INSERT_NOSETCHECK \<in> insert_type \<or> \<not> is_set d \<or> M_list_index_of d v (set_match d) = Some None"
  shows "\<exists>d'. M_list_insert_at_int d v idx insert_type = Some (True, d') \<and>
    upd_ok d (ins (min idx (elements d)) (stored d insert_type v) (vals d)) [] d'"
proof -
  obtain d1 where d1: "M_list_grow d = Some d1" "upd_ok d (vals d) [] d1" "elements d1 = elements d"
    "start d1 + elements d1 < allocated d1"
    using grow_ok [OF assms(1,2)] by blast
  then have "list_ok d1" "vals d1 = vals d" "stored d1 insert_type v = stored d insert_type v"
    by (auto simp: upd_ok_def cfg_eq stored_def)
  with store_at_ok [OF _ d1(4), of "stored d insert_type v" idx] d1(2,3)
  obtain d2 where d2: "store_at d1 (stored d insert_type v) idx = Some d2"
    "upd_ok d (ins (min idx (elements d)) (stored d insert_type v) (vals d)) [] d2"
    by (auto intro: upd_ok_trans_Nil)
  have "duplicate_insert d1 = duplicate_insert d" "duplicate_copy d1 = duplicate_copy d"
    using d1(2) by (auto simp: upd_ok_def cfg_eq)
  with d1 d2 assms(3) show ?thesis
    by (auto simp: M_list_insert_at_int_def stored_def Let_def)
qed

section \<open>Removal\<close>

lemma free_range_ok:
  "list_ok d \<Longrightarrow> i \<le> e \<Longrightarrow> e \<le> elements d \<Longrightarrow>
     free_range d i e = Some (d\<lparr>freed := freed d @ take (e - i) (drop i (vals d))\<rparr>)"
proof (induction "e - i" arbitrary: i d)
  case 0
  then show ?case by (simp add: free_range.simps [of d])
next
  case (Suc k)
  let ?d = "value_free d (vals d ! i)"
  have ok: "list_ok ?d" "vals ?d = vals d" "elements ?d = elements d"
    using Suc(3) by (simp_all add: list_ok_def vals_def value_free_def)
  have "take (e - i) (drop i (vals d)) = vals d ! i # take (e - (i + 1)) (drop (i + 1) (vals d))"
    using Suc by (simp add: Cons_nth_drop_Suc [symmetric] take_Cons')
  then show ?case
    using Suc(1) [of "i + 1" ?d] Suc(2-5) ok
    by (simp add: free_range.simps [of d] start_get_vals) (simp add: value_free_def)
qed

lemma remove_range_int:
  assumes ok: "list_ok d" and "s \<le> e" "s < elements d"
    and a: "a = M_list_convert_idx_at d s"
    and b: "b = (if M_list_convert_idx_at d e \<ge> elements d then elements d - 1 else M_list_convert_idx_at d e)"
    and ab: "a \<le> b"
  shows "\<exists>d'. M_list_remove_range d s e = Some (True, d') \<and>
    upd_ok d (del a b (vals d)) (take (b + 1 - a) (drop a (vals d))) d'"
proof -
  let ?n = "elements d" and ?fs = "take (b + 1 - a) (drop a (vals d))"
  have bn: "b < ?n" using b assms(3) by auto
  have big: "b + 1 < SIZE_MOD" "(b + 1) * 8 < SIZE_MOD" "?n < SIZE_MOD" using ok bn by (auto simp: list_ok_def)
  have fr: "free_range d a (b + 1) = Some (d\<lparr>freed := freed d @ ?fs\<rparr>)"
    using free_range_ok [OF ok, of a "b + 1"] ab bn by simp
  have win: "start d + ?n \<le> length (base d)" using ok by (simp add: list_ok_def)
  obtain m where m: "mem_set (base d) (start d + a) 0 (b + 1 - a) = Some m"
    using mem_set_safe [of "start d + a" "b + 1 - a" "base d" 0] win ab bn by auto
  have lenm: "length m = length (base d)" using m by (rule mem_set_length)
  have delm: "del a b (window (start d) ?n m) = del a b (vals d)"
    unfolding vals_def by (rule del_mem_set [OF win ab bn m])
  have n: "size_add (size_sub b a) 1 = b + 1 - a" "size_mul (b + 1 - a) 8 div 8 = b + 1 - a"
    "size_sub ?n (b + 1 - a) = ?n - (b + 1 - a)" "size_add b 1 = b + 1"
    "size_sub (?n - (b + 1 - a)) a = ?n - (b + 1)"
    using ab bn big by auto
  have "start d + (b + 1) + (?n - (b + 1)) \<le> length m" "start d + a + (?n - (b + 1)) \<le> length m"
    using win ab bn lenm by linarith+
  then obtain m' where m': "mem_move m (start d + a) (start d + (b + 1)) (?n - (b + 1)) = Some m'"
    using mem_move_safe by blast
  define d1 where "d1 = d\<lparr>freed := freed d @ ?fs, base := m, elements := ?n - (b + 1 - a)\<rparr>"
  define d2 where "d2 = (if elements d1 > 0 then
      if a = 0 then d1\<lparr>start := start d1 + (b + 1)\<rparr>
      else if b \<noteq> ?n - 1 then d1\<lparr>base := m'\<rparr> else d1
    else d1)"
  have len': "length m' = length (base d)" using length_mem_move [OF m'] lenm by simp
  have "vals d2 = del a b (window (start d) ?n m)"
  proof -
    consider (front) "a = 0" | (tail) "a \<noteq> 0" "b = ?n - 1" | (middle) "a \<noteq> 0" "b \<noteq> ?n - 1" by blast
    then show ?thesis
    proof cases
      case front
      then show ?thesis using ab bn
        by (simp add: d2_def d1_def vals_def window_def del_def drop_take add.commute)
    next
      case tail
      then show ?thesis using ab bn
        by (simp add: d2_def d1_def vals_def window_def del_def min_def)
    next
      case middle
      then have "vals d2 = window (start d) (?n - (b + 1 - a)) m'"
        using ab bn by (simp add: d2_def d1_def vals_def)
      also have "\<dots> = del a b (window (start d) ?n m)"
        by (rule window_delete [OF _ ab bn m']) (use win lenm in simp)
      finally show ?thesis .
    qed
  qed
  then have d2: "upd_ok d (del a b (vals d)) ?fs d2"
    using ok delm len' lenm ab bn by (auto simp: upd_ok_def d2_def d1_def list_ok_def)
  obtain d3 where d3: "M_list_shrink d2 = Some d3" "upd_ok d2 (vals d2) [] d3"
    using shrink_ok [of d2] d2 by (auto simp: upd_ok_def)
  have "M_list_remove_range d s e = Some (True, d3)"
    unfolding M_list_remove_range_def Let_def a [symmetric] b [symmetric] n
    using assms(2,3) d3(1) big(3) bn
    by (auto simp add: fr [simplified] m [simplified] m' [simplified] n [simplified] d2_def d1_def)
  moreover have "upd_ok d (del a b (vals d)) ?fs d3"
    using upd_ok_trans [OF d2 d3(2)] d2 by (simp add: upd_ok_def)
  ultimately show ?thesis by blast
qed

text \<open>The internal index of an element: a stack counts from the end.\<close>

definition pos_of :: "('v, 't) M_list \<Rightarrow> nat \<Rightarrow> nat" where
  "pos_of d i = (if M_LIST_STACK \<in> flags d then elements d - 1 - i else i)"

lemma convert_idx_at_pos:
  "list_ok d \<Longrightarrow> i < elements d \<Longrightarrow> M_list_convert_idx_at d i = pos_of d i"
  using elements_less [of d] by (auto simp: M_list_convert_idx_at_def pos_of_def)

lemma pos_of_less: "i < elements d \<Longrightarrow> pos_of d i < elements d"
  by (auto simp: pos_of_def)

lemma take_Suc_drop: "i < length xs \<Longrightarrow> take (Suc 0) (drop i xs) = [xs ! i]"
  by (simp add: take_Suc hd_drop_conv_nth)

lemma remove_at_ok:
  assumes "list_ok d" "i < elements d"
  shows "\<exists>d'. M_list_remove_at d i = Some (True, d') \<and>
    upd_ok d (del (pos_of d i) (pos_of d i) (vals d)) [vals d ! pos_of d i] d'"
proof -
  have c: "M_list_convert_idx_at d i = pos_of d i" using assms by (rule convert_idx_at_pos)
  have p: "pos_of d i < elements d" using assms(2) by (rule pos_of_less)
  have "pos_of d i = (if M_list_convert_idx_at d i \<ge> elements d then elements d - 1
      else M_list_convert_idx_at d i)"
    using c p by simp
  from remove_range_int [OF assms(1) order_refl assms(2) c [symmetric] this order_refl]
  show ?thesis
    using assms p take_Suc_drop [of "pos_of d i" "vals d"] by (simp add: M_list_remove_at_def)
qed

lemma remove_range_ok:
  assumes "list_ok d" "M_LIST_STACK \<notin> flags d" "s \<le> e" "s < elements d"
  shows "\<exists>d'. M_list_remove_range d s e = Some (True, d') \<and>
    upd_ok d (del s (min e (elements d - 1)) (vals d))
      (take (min e (elements d - 1) + 1 - s) (drop s (vals d))) d'"
proof -
  have "s = M_list_convert_idx_at d s" using assms by (simp add: M_list_convert_idx_at_def Let_def)
  moreover have "min e (elements d - 1) = (if M_list_convert_idx_at d e \<ge> elements d
      then elements d - 1 else M_list_convert_idx_at d e)"
    using assms(2,4) by (auto simp: M_list_convert_idx_at_def Let_def)
  moreover have "s \<le> min e (elements d - 1)" using assms(3,4) by simp
  ultimately show ?thesis by (rule remove_range_int [OF assms(1,3,4)])
qed

lemma take_at_ok:
  assumes "list_ok d" "i < elements d"
  shows "\<exists>d'. M_list_take_at d i = Some (vals d ! pos_of d i, d') \<and>
    upd_ok d (del (pos_of d i) (pos_of d i) (vals d)) [] d'"
proof -
  let ?p = "pos_of d i" and ?n = "elements d"
  have p: "?p < ?n" using assms(2) by (rule pos_of_less)
  have win: "start d + ?n \<le> length (base d)" using assms by (simp add: list_ok_def)
  define m where "m = (base d)[start d + ?p := 0]"
  have m: "mem_set (base d) (start d + ?p) 0 (?p + 1 - ?p) = Some m"
    using win p by (simp add: mem_set_def mem_copy_def m_def upd_conv_take_nth_drop)
  have lenm: "length m = length (base d)" by (simp add: m_def)
  have delm: "del ?p ?p (window (start d) ?n m) = del ?p ?p (vals d)"
    unfolding vals_def by (rule del_mem_set [OF win order_refl p m])
  have "start d + (?p + 1) + (?n - (?p + 1)) \<le> length m" "start d + ?p + (?n - (?p + 1)) \<le> length m"
    using win p lenm by linarith+
  then obtain m' where m': "mem_move m (start d + ?p) (start d + (?p + 1)) (?n - (?p + 1)) = Some m'"
    using mem_move_safe by blast
  have len': "length m' = length (base d)" using length_mem_move [OF m'] lenm by simp
  define d1 where "d1 = (if ?p = 0 then d\<lparr>base := m, start := start d + 1\<rparr>
    else if ?p \<noteq> ?n - 1 then d\<lparr>base := m'\<rparr> else d\<lparr>base := m\<rparr>)\<lparr>elements := ?n - 1\<rparr>"
  have "vals d1 = del ?p ?p (window (start d) ?n m)"
    using window_delete [of "start d" ?n m ?p ?p m'] win p lenm m'
    by (auto simp: d1_def vals_def window_def del_def min_def take_drop add.commute)
  then have d1: "upd_ok d (del ?p ?p (vals d)) [] d1"
    using assms(1) delm len' lenm p by (auto simp: upd_ok_def d1_def list_ok_def)
  obtain d2 where d2: "M_list_shrink d1 = Some d2" "upd_ok d1 (vals d1) [] d2"
    using shrink_ok [of d1] d1 by (auto simp: upd_ok_def)
  have "M_list_take_at d i = Some (vals d ! ?p, d2)"
    using assms p win m' d2(1) convert_idx_at_pos [OF assms] start_get_vals [OF assms(1) p]
    by (cases "?n = 1") (simp_all add: M_list_take_at_def Let_def start_set_def arr_set_def d1_def
        m_def split: if_splits)
  moreover have "upd_ok d (del ?p ?p (vals d)) [] d2"
    using upd_ok_trans [OF d1 d2(2)] d1 by (simp add: upd_ok_def)
  ultimately show ?thesis by blast
qed

section \<open>Where insertions go\<close>

lemma convert_idx_insert_append:
  "list_ok d \<Longrightarrow> M_LIST_SORTED \<notin> flags d \<or> multi_insert d \<Longrightarrow>
   M_list_insert_idx d v = Some (if M_LIST_STACK \<in> flags d then 0 else elements d) \<and>
   M_list_convert_idx_insert d (if M_LIST_STACK \<in> flags d then 0 else elements d) = elements d"
  using elements_less [of d] size_add_sub_one_wrap [of "elements d"]
  by (auto simp: M_list_insert_idx_def M_list_convert_idx_insert_def M_list_convert_idx_at_def Let_def)

lemma insert_idx_sorted:
  assumes "list_ok d" "M_LIST_SORTED \<in> flags d" "\<not> multi_insert d" "equality d = Some c"
    and "at = M_sort_binary_insert_idx (vals d) v (M_LIST_STABLE \<in> flags d) c (thunk d)"
  shows "at \<le> elements d \<Longrightarrow>
    M_list_insert_idx d v = Some at \<and> M_list_convert_idx_insert d at = at"
  using assms start_read_vals [OF assms(1)]
  by (auto simp: M_list_insert_idx_def M_list_convert_idx_insert_def M_list_convert_idx_at_def Let_def
      list_ok_def cfg_def)

end
