(* ===== verification/M_List_Spec.thy ===== *)
theory M_List_Spec
  imports M_List_Ok
begin

text \<open>
  The contracts of the growable list: where an insertion goes in each mode, that a sorted list
  stays sorted and a set a set, what a lookup finds, and what a removal frees.
\<close>

section \<open>Example lists\<close>

text \<open>Lists of pointers to integers in one block of four entries, for the instances below.\<close>

definition demo :: "M_list_flags set \<Rightarrow> M_uint64 list \<Rightarrow> (M_uint64 option, nat) M_list" where
  "demo fl xs =
     \<lparr>equality = Some M_sort_compar_u64, duplicate_insert = (\<lambda>v. v), duplicate_copy = (\<lambda>v. v),
      flags = fl, base = map Some xs @ replicate (4 - length xs) NULL, start = 0,
      elements = length xs, allocated = 4, multi_insert = False, thunk = 0, freed = []\<rparr>"

lemma demo_simps [simp]:
  "flags (demo fl xs) = fl" "elements (demo fl xs) = length xs" "allocated (demo fl xs) = 4"
  "duplicate_insert (demo fl xs) v = v" "multi_insert (demo fl xs) = False" "freed (demo fl xs) = []"
  "is_set (demo fl xs) \<longleftrightarrow> M_LIST_SET_VAL \<in> fl \<or> M_LIST_SET_PTR \<in> fl"
  by (simp_all add: demo_def is_set_def)

lemma vals_demo [simp]: "length xs \<le> 4 \<Longrightarrow> vals (demo fl xs) = map Some xs"
  by (simp add: vals_def demo_def window_def)

lemma demo_ok: "length xs \<le> 4 \<Longrightarrow> M_LIST_SORTED \<in> fl \<Longrightarrow> M_LIST_STACK \<notin> fl \<Longrightarrow> list_ok (demo fl xs)"
  and demo_ok': "length xs \<le> 4 \<Longrightarrow> M_LIST_SORTED \<notin> fl \<Longrightarrow> list_ok (demo fl xs)"
  by (simp_all add: list_ok_def demo_def cfg_def INITIAL_SIZE_def SIZE_MOD_def)

lemma demo_room: "allocated (demo fl xs) * 16 < SIZE_MOD"
  by (simp add: SIZE_MOD_def)

section \<open>Lookup\<close>

text \<open>The elements that \<open>M_list_index_of\<close> looks for.\<close>

definition matches :: "('v, 't::zero) M_list \<Rightarrow> ('v, 't) M_sort_compar_t \<Rightarrow> 'v \<Rightarrow> M_list_match_type set \<Rightarrow> 'v \<Rightarrow> bool" where
  "matches d c v type x \<longleftrightarrow> (if M_LIST_MATCH_PTR \<in> type then v = x else c v x 0 = 0)"

text \<open>What a correct answer is, for an answer given as an internal index.\<close>

definition found_ok :: "'v list \<Rightarrow> ('v \<Rightarrow> bool) \<Rightarrow> nat option \<Rightarrow> bool" where
  "found_ok xs P r \<longleftrightarrow> (case r of None \<Rightarrow> \<forall>x\<in>set xs. \<not> P x | Some i \<Rightarrow> i < length xs \<and> P (xs ! i))"

lemma index_scan_step:
  assumes "list_ok d" "equality d = Some c"
  shows "i < elements d \<Longrightarrow> index_scan d v type i =
      (if matches d c v type (vals d ! i) then Some (Some (M_list_convert_idx_at d i))
       else index_scan d v type (i + 1))"
    and "elements d \<le> i \<Longrightarrow> index_scan d v type i = Some None"
  using assms
  by (simp_all add: index_scan.simps [of d _ _ i] start_get_vals call_equality_def matches_def)

lemma index_scan_up_step:
  assumes "list_ok d" "equality d = Some c"
  shows "i < elements d \<Longrightarrow> index_scan_up d v i =
      (if c v (vals d ! i) 0 \<noteq> 0 then Some None
       else if v = vals d ! i then Some (Some i) else index_scan_up d v (i + 1))"
    and "elements d \<le> i \<Longrightarrow> index_scan_up d v i = Some None"
  using assms by (simp_all add: index_scan_up.simps [of d _ i] start_get_vals call_equality_def)

lemma index_scan_ok:
  assumes "list_ok d" "equality d = Some c" "\<forall>j<i. \<not> matches d c v type (vals d ! j)"
  shows "\<exists>r. index_scan d v type i = Some (map_option (M_list_convert_idx_at d) r) \<and>
    found_ok (vals d) (matches d c v type) r"
  using assms(3)
proof (induction "elements d - i" arbitrary: i)
  case 0
  then show ?case using assms(1) index_scan_step(2) [OF assms(1,2), of i]
    by (intro exI [of _ None]) (auto simp: found_ok_def in_set_conv_nth)
next
  case (Suc n)
  then have i: "i < elements d" and n: "n = elements d - (i + 1)" by simp_all
  note step = index_scan_step(1) [OF assms(1,2) i]
  show ?case
  proof (cases "matches d c v type (vals d ! i)")
    case True
    then show ?thesis using assms(1) i step by (intro exI [of _ "Some i"]) (simp add: found_ok_def)
  next
    case False
    then have "\<forall>j<i + 1. \<not> matches d c v type (vals d ! j)"
      using Suc(3) by (auto simp: less_Suc_eq)
    from Suc(1) [OF n this] show ?thesis using False step by simp
  qed
qed

text \<open>
  The scans from an equal element of a sorted array: elements equal to it are adjacent, so a
  scan may stop at the first element that is not.
\<close>

lemma sorted_between_eq:
  assumes "compar_contract c t" "c v x t = 0" "c x y t \<le> 0" "c y z t \<le> 0" "c v z t = 0"
  shows "c v y t = 0"
proof -
  have "c v y t \<le> 0" using compar_contract.compar_trans [OF assms(1), of v x y] assms(2,3) by simp
  moreover have "c z v t \<le> 0" using compar_contract.eq_iff [OF assms(1), of v z] assms(5) by simp
  then have "c y v t \<le> 0" using compar_contract.compar_trans [OF assms(1), of y z v] assms(4) by simp
  ultimately show ?thesis using compar_contract.eq_iff [OF assms(1), of v y] by simp
qed

lemma index_scan_up_ok:
  assumes "list_ok d" "equality d = Some c" "compar_contract c 0" "sorted_wrt (\<lambda>a b. c a b 0 \<le> 0) (vals d)"
    and "\<exists>k<i. k < elements d \<and> c v (vals d ! k) 0 = 0"
  shows "\<exists>r. index_scan_up d v i = Some r \<and>
    (case r of None \<Rightarrow> \<forall>j. i \<le> j \<longrightarrow> j < elements d \<longrightarrow> v \<noteq> vals d ! j
     | Some j \<Rightarrow> j < elements d \<and> v = vals d ! j)"
  using assms(5)
proof (induction "elements d - i" arbitrary: i)
  case (Suc n)
  then have i: "i < elements d" and n: "n = elements d - (i + 1)" by simp_all
  note step = index_scan_up_step(1) [OF assms(1,2) i]
  obtain k where k: "k < i" "c v (vals d ! k) 0 = 0" using Suc(3) by blast
  show ?case
  proof (cases "c v (vals d ! i) 0 = 0")
    case True
    then have "\<exists>k<i + 1. k < elements d \<and> c v (vals d ! k) 0 = 0" using i by auto
    from Suc(1) [OF n this] obtain r where r: "index_scan_up d v (i + 1) = Some r"
      "case r of None \<Rightarrow> \<forall>j. i + 1 \<le> j \<longrightarrow> j < elements d \<longrightarrow> v \<noteq> vals d ! j
        | Some j \<Rightarrow> j < elements d \<and> v = vals d ! j" by blast
    have "i \<le> j \<longleftrightarrow> j = i \<or> i + 1 \<le> j" for j by auto
    then show ?thesis using r i step True by (cases r; cases "v = vals d ! i") auto
  next
    case False
    have "v \<noteq> vals d ! j" if j: "i \<le> j" "j < elements d" for j
    proof
      assume v: "v = vals d ! j"
      have "c (vals d ! k) (vals d ! i) 0 \<le> 0" "c (vals d ! i) (vals d ! j) 0 \<le> 0"
        using compar_contract.sorted_nth_le [OF assms(3,4)] k j assms(1) by simp_all
      then have "c v (vals d ! i) 0 = 0"
        using sorted_between_eq [OF assms(3), of v "vals d ! k" "vals d ! i" "vals d ! j"] k(2)
          compar_contract.compar_refl [OF assms(3)] v by simp
      with False show False by simp
    qed
    then show ?thesis using False step by simp
  qed
qed (simp add: index_scan_up_step(2) [OF assms(1,2)])

lemma index_scan_down_ok:
  assumes "list_ok d" "equality d = Some c" "compar_contract c 0" "sorted_wrt (\<lambda>a b. c a b 0 \<le> 0) (vals d)"
  shows "i \<le> elements d \<Longrightarrow> \<exists>k\<ge>i. k < elements d \<and> c v (vals d ! k) 0 = 0 \<Longrightarrow>
    \<exists>r. index_scan_down d v i = Some r \<and>
    (case r of None \<Rightarrow> \<forall>j<i. v \<noteq> vals d ! j | Some j \<Rightarrow> j < elements d \<and> v = vals d ! j)"
proof (induction i)
  case (Suc i)
  then have i: "i < elements d" by simp
  note get = start_get_vals [OF assms(1) i]
  obtain k where k: "Suc i \<le> k" "k < elements d" "c v (vals d ! k) 0 = 0" using Suc(3) by blast
  show ?case
  proof (cases "c v (vals d ! i) 0 = 0")
    case True
    show ?thesis
    proof (cases "v = vals d ! i")
      case eq: True
      then show ?thesis using True i assms(2) get by (simp add: call_equality_def)
    next
      case False
      have "i \<le> elements d" "\<exists>k\<ge>i. k < elements d \<and> c v (vals d ! k) 0 = 0"
        using i k by (auto intro!: exI [of _ k])
      from Suc(1) [OF this] obtain r where r: "index_scan_down d v i = Some r"
        "case r of None \<Rightarrow> \<forall>j<i. v \<noteq> vals d ! j | Some j \<Rightarrow> j < elements d \<and> v = vals d ! j"
        by blast
      then show ?thesis using True False assms(2) get
        by (auto simp: call_equality_def less_Suc_eq split: option.splits)
    qed
  next
    case False
    have "v \<noteq> vals d ! j" if j: "j < Suc i" for j
    proof
      assume v: "v = vals d ! j"
      have "c (vals d ! j) (vals d ! i) 0 \<le> 0" "c (vals d ! i) (vals d ! k) 0 \<le> 0"
        using compar_contract.sorted_nth_le [OF assms(3,4)] k j assms(1) by simp_all
      then have "c v (vals d ! i) 0 = 0"
        using sorted_between_eq [OF assms(3), of v "vals d ! j" "vals d ! i" "vals d ! k"] k(3)
          compar_contract.compar_refl [OF assms(3)] v by simp
      with False show False by simp
    qed
    then show ?thesis using False assms(2) get by (simp add: call_equality_def)
  qed
qed simp

text \<open>
  The comparison of a list: a total preorder that does not look at its thunk, since some calls
  pass \<open>NULL\<close> for it; a list in sorted mode is sorted by it.
\<close>

definition order_ok :: "('v, 't::zero) M_list \<Rightarrow> ('v, 't) M_sort_compar_t \<Rightarrow> bool" where
  "order_ok d c \<longleftrightarrow>
     equality d = Some c \<and> compar_contract c 0 \<and> (\<forall>a b. c a b (thunk d) = c a b 0) \<and>
     (M_LIST_SORTED \<in> flags d \<and> \<not> multi_insert d \<longrightarrow> sorted_wrt (\<lambda>a b. c a b 0 \<le> 0) (vals d))"

lemma order_okD:
  assumes "order_ok d c"
  shows "equality d = Some c" "compar_contract c 0" "c a b (thunk d) = c a b 0"
    "compar_contract c (thunk d)"
    "M_LIST_SORTED \<in> flags d \<Longrightarrow> \<not> multi_insert d \<Longrightarrow> sorted_wrt (\<lambda>a b. c a b 0 \<le> 0) (vals d)"
    "M_LIST_SORTED \<in> flags d \<Longrightarrow> \<not> multi_insert d \<Longrightarrow> sorted_wrt (\<lambda>a b. c a b (thunk d) \<le> 0) (vals d)"
  using assms by (auto simp: order_ok_def compar_contract_def)

lemma demo_order:
  assumes "length xs \<le> 4" "sorted_wrt (\<le>) xs"
  shows "order_ok (demo fl xs) M_sort_compar_u64"
proof -
  have "sorted_wrt (\<lambda>a b. M_sort_compar_u64 (Some a) (Some b) (0 :: nat) \<le> 0) xs"
    by (rule sorted_wrt_mono_rel [OF _ assms(2)]) (auto simp: M_sort_compar_u64_def)
  moreover have "compar_contract M_sort_compar_u64 (0 :: nat)" by (rule compar_u64.compar_contract_axioms)
  ultimately show ?thesis using vals_demo [OF assms(1), of fl]
    by (simp add: order_ok_def sorted_wrt_map) (simp add: demo_def M_sort_compar_u64_def)
qed

lemma index_sorted_ok:
  assumes ok: "list_ok d" and ord: "order_ok d c" and srt: "M_LIST_SORTED \<in> flags d" "\<not> multi_insert d"
  shows "\<exists>r. index_sorted d v type = Some (map_option (M_list_convert_idx_at d) r) \<and>
    found_ok (vals d) (matches d c v type) r"
proof -
  note cc = order_okD(4) [OF ord] and sorted = order_okD(6) [OF ord srt]
  note cc0 = order_okD(2) [OF ord] and sorted0 = order_okD(5) [OF ord srt]
  let ?search = "M_sort_binary_search (vals d) v (M_LIST_STABLE \<in> flags d) c (thunk d)"
  obtain ret idx where search: "?search = (ret, idx)" by (cases ?search)
  show ?thesis
  proof (cases ret)
    case False
    have "c v (vals d ! i) 0 \<noteq> 0" if "i < elements d" for i
      using compar_contract.binary_search_complete [OF cc sorted, of i v "M_LIST_STABLE \<in> flags d"] that search False ok
        order_okD(3) [OF ord] by auto
    then have "\<forall>x\<in>set (vals d). c v x 0 \<noteq> 0" using ok by (auto simp: in_set_conv_nth)
    moreover have "c x x 0 = 0" for x by (rule compar_contract.compar_refl [OF cc0])
    ultimately show ?thesis
      using search False start_read_vals [OF ok] order_okD(1) [OF ord]
      by (intro exI [of _ None]) (auto simp: index_sorted_def found_ok_def matches_def)
  next
    case True
    then have idx: "idx < elements d" "c v (vals d ! idx) 0 = 0"
      using compar_contract.binary_search_sound [OF cc sorted] search ok order_okD(3) [OF ord] by auto
    show ?thesis
    proof (cases "M_LIST_MATCH_PTR \<in> type \<and> v \<noteq> vals d ! idx")
      case False
      then show ?thesis
        using search True idx start_read_vals [OF ok] order_okD(1) [OF ord] start_get_vals [OF ok idx(1)] ok
        by (intro exI [of _ "Some idx"]) (auto simp: index_sorted_def found_ok_def matches_def)
    next
      case ptr: True
      have "\<exists>k<idx + 1. k < elements d \<and> c v (vals d ! k) 0 = 0" using idx by auto
      from index_scan_up_ok [OF ok order_okD(1) [OF ord] cc0 sorted0 this]
      obtain up where up: "index_scan_up d v (idx + 1) = Some up"
        "case up of None \<Rightarrow> \<forall>j. idx + 1 \<le> j \<longrightarrow> j < elements d \<longrightarrow> v \<noteq> vals d ! j
          | Some j \<Rightarrow> j < elements d \<and> v = vals d ! j" by blast
      have "idx \<le> elements d" "\<exists>k\<ge>idx. k < elements d \<and> c v (vals d ! k) 0 = 0"
        using idx by auto
      from index_scan_down_ok [OF ok order_okD(1) [OF ord] cc0 sorted0 this]
      obtain dn where dn: "index_scan_down d v idx = Some dn"
        "case dn of None \<Rightarrow> \<forall>j<idx. v \<noteq> vals d ! j | Some j \<Rightarrow> j < elements d \<and> v = vals d ! j"
        by blast
      let ?r = "case up of Some i \<Rightarrow> Some i | None \<Rightarrow> dn"
      have "found_ok (vals d) (matches d c v type) ?r"
        using up(2) dn(2) ptr ok
        by (auto simp: found_ok_def matches_def in_set_conv_nth split: option.splits)
          (metis Suc_leI Suc_eq_plus1 linorder_neqE_nat)
      moreover have "index_sorted d v type = Some (map_option (M_list_convert_idx_at d) ?r)"
        using search True idx start_read_vals [OF ok] order_okD(1) [OF ord] start_get_vals [OF ok idx(1)]
          ptr up(1) dn(1)
        by (simp add: index_sorted_def split: option.splits)
      ultimately show ?thesis by blast
    qed
  qed
qed

lemma pos_of_pos_of: "i < elements d \<Longrightarrow> pos_of d (pos_of d i) = i"
  by (simp add: pos_of_def)

lemma index_of_ok:
  assumes "list_ok d" "order_ok d c" "v \<noteq> 0"
  shows "\<exists>r. M_list_index_of d v type = Some r \<and>
    found_ok (vals d) (matches d c v type) (map_option (pos_of d) r) \<and>
    (case r of None \<Rightarrow> True | Some i \<Rightarrow> i < elements d)"
proof (cases "elements d = 0")
  case True
  then show ?thesis by (simp add: M_list_index_of_def found_ok_def vals_def)
next
  case False
  then have "\<exists>r. M_list_index_of d v type = Some (map_option (M_list_convert_idx_at d) r) \<and>
      found_ok (vals d) (matches d c v type) r"
    using index_sorted_ok [OF assms(1,2)] index_scan_ok [OF assms(1), of c 0] assms(2,3)
    by (auto simp: M_list_index_of_def order_ok_def)
  then obtain r where r: "M_list_index_of d v type = Some (map_option (M_list_convert_idx_at d) r)"
    "found_ok (vals d) (matches d c v type) r" by blast
  then show ?thesis using assms(1)
    by (auto simp: found_ok_def convert_idx_at_pos pos_of_pos_of pos_of_less split: option.splits)
qed

text \<open>
  C8. A lookup by value or by pointer answers for every list, sorted or not, and every match
  type: an index it gives is that of a matching element, and when it gives none no element
  matches.
\<close>

theorem M_list_index_of_correct:
  assumes "list_ok d" "order_ok d c" "v \<noteq> 0"
  shows "\<exists>r. M_list_index_of d v type = Some r \<and>
    (case r of None \<Rightarrow> \<forall>x\<in>set (vals d). \<not> matches d c v type x
     | Some i \<Rightarrow> i < elements d \<and> (\<exists>x. M_list_at d i = Some x \<and> matches d c v type x))"
proof -
  obtain r where r: "M_list_index_of d v type = Some r"
    "found_ok (vals d) (matches d c v type) (map_option (pos_of d) r)"
    "case r of None \<Rightarrow> True | Some i \<Rightarrow> i < elements d"
    using index_of_ok [OF assms] by blast
  then show ?thesis using assms(1)
    by (auto simp: found_ok_def M_list_at_def convert_idx_at_pos start_get_vals pos_of_less
        split: option.splits)
qed

theorem M_list_index_of_correct_witness:
  "M_list_index_of (demo {M_LIST_SORTED} [3, 5, 9]) (Some 5) {} = Some (Some 1) \<and>
   (\<exists>x. M_list_at (demo {M_LIST_SORTED} [3, 5, 9]) 1 = Some x \<and>
     matches (demo {M_LIST_SORTED} [3, 5, 9]) M_sort_compar_u64 (Some 5) {} x)"
proof -
  have r: "M_list_index_of (demo {M_LIST_SORTED} [3, 5, 9]) (Some 5) {} = Some (Some 1)" by code_simp
  have "list_ok (demo {M_LIST_SORTED} [3, 5, 9])" "order_ok (demo {M_LIST_SORTED} [3, 5, 9]) M_sort_compar_u64"
    by (rule demo_ok demo_order; simp)+
  from M_list_index_of_correct [OF this, of "Some 5" "{}"] r show ?thesis
    by (simp add: zero_option_def)
qed

section \<open>Insertion\<close>

lemma insert_idx_total:
  assumes "list_ok d"
  shows "\<exists>i. M_list_insert_idx d v = Some i"
  using start_read_vals [OF assms] by (auto simp: M_list_insert_idx_def split: option.splits)

lemma stored_initial: "stored d {M_LIST_INSERT_INITIAL, M_LIST_INSERT_DUP} v = duplicate_insert d v"
  by (simp add: stored_def)

lemma insert_append:
  assumes "list_ok d" "allocated d * 16 < SIZE_MOD" "M_LIST_SORTED \<notin> flags d \<or> multi_insert d"
    and "\<not> is_set d \<or> M_list_index_of d v (set_match d) = Some None"
  shows "\<exists>d'. M_list_insert d v = Some (True, d') \<and> upd_ok d (vals d @ [duplicate_insert d v]) [] d'"
  using insert_at_int_ok [OF assms(1,2), of "{M_LIST_INSERT_INITIAL, M_LIST_INSERT_DUP}" v "elements d"]
    convert_idx_insert_append [OF assms(1,3), of v] assms(1,4) ins_length [of "vals d"]
  by (auto simp: M_list_insert_def stored_initial)

text \<open>
  C9. Outside sorted mode an insertion appends a copy of the value, in a plain list as in a
  stack, without leaving the block; nothing is freed and the invariant holds again.
\<close>

theorem M_list_insert_appends:
  assumes "list_ok d" "allocated d * 16 < SIZE_MOD" "M_LIST_SORTED \<notin> flags d \<or> multi_insert d"
    and "\<not> is_set d"
  shows "\<exists>d'. M_list_insert d v = Some (True, d') \<and> list_ok d' \<and>
    vals d' = vals d @ [duplicate_insert d v] \<and> freed d' = freed d \<and> cfg d' = cfg d"
  using insert_append [OF assms(1-3)] assms(4) by (auto simp: upd_ok_def)

theorem M_list_insert_appends_witness:
  "\<exists>d'. M_list_insert (demo {M_LIST_STACK} [5, 7]) (Some 9) = Some (True, d') \<and>
     vals d' = [Some 5, Some 7, Some 9]"
  using M_list_insert_appends [OF demo_ok' demo_room, of "[5, 7]" "{M_LIST_STACK}" "Some 9"]
  by simp blast

lemma sorted_wrt_thunk:
  "order_ok d c \<Longrightarrow> sorted_wrt (\<lambda>a b. c a b (thunk d) \<le> 0) xs \<longleftrightarrow> sorted_wrt (\<lambda>a b. c a b 0 \<le> 0) xs"
  by (simp add: order_ok_def)

lemma order_ok_upd:
  "order_ok d c \<Longrightarrow> cfg d' = cfg d \<Longrightarrow>
   (M_LIST_SORTED \<in> flags d \<Longrightarrow> \<not> multi_insert d \<Longrightarrow> sorted_wrt (\<lambda>a b. c a b 0 \<le> 0) (vals d')) \<Longrightarrow>
   order_ok d' c"
  by (auto simp: order_ok_def cfg_eq)

text \<open>A copy that compares as the value goes where the value belongs.\<close>

lemma sorted_ins_copy:
  assumes c: "compar_contract c t" and s: "sorted_wrt (\<lambda>a b. c a b t \<le> 0) xs"
    and copy: "\<forall>x. c x v' t = c x v t"
    and i: "i = M_sort_binary_insert_idx xs v is_stable c t"
  shows "i \<le> length xs \<and> sorted_wrt (\<lambda>a b. c a b t \<le> 0) (ins i v' xs)"
proof -
  have v: "compar_contract.insertable c t xs v i"
    using compar_contract.binary_insert_idx_insertable [OF c s] i by simp
  have "c v' x t \<le> 0 \<longleftrightarrow> c v x t \<le> 0" for x
    using copy compar_contract.not_le [OF c, of v' x] compar_contract.not_le [OF c, of v x] by auto
  then have "compar_contract.insertable c t xs v' i"
    using v copy by (simp add: compar_contract.insertable_def [OF c])
  then show ?thesis
    using compar_contract.is_sorted_insert [OF c s] v
    by (auto simp: ins_def compar_contract.insertable_def [OF c])
qed

lemma insert_sorted:
  assumes ok: "list_ok d" "allocated d * 16 < SIZE_MOD" and ord: "order_ok d c"
    and srt: "M_LIST_SORTED \<in> flags d" "\<not> multi_insert d"
    and copy: "\<forall>x. c x (duplicate_insert d v) 0 = c x v 0"
    and new: "\<not> is_set d \<or> M_list_index_of d v (set_match d) = Some None"
  shows "\<exists>d' i. M_list_insert d v = Some (True, d') \<and> upd_ok d (ins i (duplicate_insert d v) (vals d)) [] d' \<and>
    order_ok d' c"
proof -
  define i where "i = M_sort_binary_insert_idx (vals d) v (M_LIST_STABLE \<in> flags d) c (thunk d)"
  have i: "i \<le> elements d" "sorted_wrt (\<lambda>a b. c a b (thunk d) \<le> 0) (ins i (duplicate_insert d v) (vals d))"
    using sorted_ins_copy [OF order_okD(4) [OF ord] order_okD(6) [OF ord srt] _ i_def] copy ok(1)
      order_okD(3) [OF ord] by auto
  have idx: "M_list_insert_idx d v = Some i" "M_list_convert_idx_insert d i = i"
    using insert_idx_sorted [OF ok(1) srt order_okD(1) [OF ord] i_def i(1)] by auto
  obtain d' where d': "M_list_insert_at_int d v i {M_LIST_INSERT_INITIAL, M_LIST_INSERT_DUP} = Some (True, d')"
    "upd_ok d (ins (min i (elements d)) (stored d {M_LIST_INSERT_INITIAL, M_LIST_INSERT_DUP} v) (vals d)) [] d'"
    using insert_at_int_ok [OF ok, of "{M_LIST_INSERT_INITIAL, M_LIST_INSERT_DUP}" v i] new by auto
  have upd: "upd_ok d (ins i (duplicate_insert d v) (vals d)) [] d'"
    using d'(2) i(1) by (simp add: stored_initial)
  moreover have "order_ok d' c"
    by (rule order_ok_upd [OF ord]) (use upd i(2) order_okD(3) [OF ord] in \<open>auto simp: upd_ok_def\<close>)
  moreover have "M_list_insert d v = Some (True, d')" using d'(1) idx by (simp add: M_list_insert_def)
  ultimately show ?thesis by blast
qed

text \<open>
  C10. In sorted mode an insertion keeps the list sorted by its comparison and adds exactly one
  copy of the value, provided a copy compares like its original.
\<close>

theorem M_list_insert_keeps_sorted:
  assumes "list_ok d" "allocated d * 16 < SIZE_MOD" "order_ok d c"
    and "M_LIST_SORTED \<in> flags d" "\<not> multi_insert d" "\<not> is_set d"
    and "\<forall>x. c x (duplicate_insert d v) 0 = c x v 0"
  shows "\<exists>d'. M_list_insert d v = Some (True, d') \<and> list_ok d' \<and> order_ok d' c \<and>
    sorted_wrt (\<lambda>a b. c a b 0 \<le> 0) (vals d') \<and>
    mset (vals d') = add_mset (duplicate_insert d v) (mset (vals d)) \<and> freed d' = freed d"
proof -
  obtain d' i where d': "M_list_insert d v = Some (True, d')"
    "upd_ok d (ins i (duplicate_insert d v) (vals d)) [] d'" "order_ok d' c"
    using insert_sorted [OF assms(1-5,7)] assms(6) by blast
  have "flags d' = flags d" "multi_insert d' = multi_insert d" using d'(2) by (auto simp: upd_ok_def cfg_eq)
  then have "sorted_wrt (\<lambda>a b. c a b 0 \<le> 0) (vals d')" using order_okD(5) [OF d'(3)] assms(4,5) by simp
  then show ?thesis using d' by (auto simp: upd_ok_def)
qed

theorem M_list_insert_keeps_sorted_witness:
  "\<exists>d'. M_list_insert (demo {M_LIST_SORTED} [3, 5, 9]) (Some 4) = Some (True, d') \<and>
     sorted_wrt (\<lambda>a b. M_sort_compar_u64 a b (0 :: nat) \<le> 0) (vals d') \<and>
     mset (vals d') = {#Some 4, Some 3, Some 5, Some 9#}"
proof -
  have "\<exists>d'. M_list_insert (demo {M_LIST_SORTED} [3, 5, 9]) (Some 4) = Some (True, d') \<and> list_ok d' \<and>
      order_ok d' M_sort_compar_u64 \<and> sorted_wrt (\<lambda>a b. M_sort_compar_u64 a b (0 :: nat) \<le> 0) (vals d') \<and>
      mset (vals d') = add_mset (duplicate_insert (demo {M_LIST_SORTED} [3, 5, 9]) (Some 4))
        (mset (vals (demo {M_LIST_SORTED} [3, 5, 9]))) \<and> freed d' = freed (demo {M_LIST_SORTED} [3, 5, 9])"
    by (rule M_list_insert_keeps_sorted) (simp_all add: demo_ok demo_order SIZE_MOD_def)
  then show ?thesis by (elim exE conjE) (intro exI conjI, assumption+, simp)
qed

section \<open>Sets\<close>

text \<open>No two elements are equal for the comparison.\<close>

definition set_ok :: "('v, 't::zero) M_list \<Rightarrow> ('v, 't) M_sort_compar_t \<Rightarrow> bool" where
  "set_ok d c \<longleftrightarrow> sorted_wrt (\<lambda>a b. c a b 0 \<noteq> 0) (vals d)"

lemma sorted_wrt_ins:
  assumes "sorted_wrt P xs" "\<forall>x\<in>set xs. P x v \<and> P v x"
  shows "sorted_wrt P (ins i v xs)"
proof -
  have "sorted_wrt P (take i xs @ drop i xs)" using assms(1) by simp
  moreover have "\<forall>x\<in>set (take i xs). P x v" "\<forall>x\<in>set (drop i xs). P v x"
    using assms(2) by (auto dest: in_set_takeD in_set_dropD)
  ultimately show ?thesis by (auto simp: ins_def sorted_wrt_append simp del: append_take_drop_id)
qed

text \<open>
  C11. In a list that is a set by value an insertion succeeds exactly when no element equals the
  value, and the elements stay pairwise distinct; a refused insertion changes nothing.
\<close>

theorem M_list_insert_keeps_set:
  assumes "list_ok d" "allocated d * 16 < SIZE_MOD" "order_ok d c" "set_ok d c" "v \<noteq> 0"
    and "M_LIST_SET_VAL \<in> flags d" "M_LIST_SET_PTR \<notin> flags d"
    and "\<forall>x. c x (duplicate_insert d v) 0 = c x v 0"
  shows "\<exists>b d'. M_list_insert d v = Some (b, d') \<and> list_ok d' \<and> set_ok d' c \<and>
    (b \<longleftrightarrow> (\<forall>x\<in>set (vals d). c v x 0 \<noteq> 0)) \<and> (\<not> b \<longrightarrow> d' = d)"
proof -
  note cc = order_okD(2) [OF assms(3)]
  obtain r where r: "M_list_index_of d v (set_match d) = Some r"
    "found_ok (vals d) (matches d c v (set_match d)) (map_option (pos_of d) r)"
    using index_of_ok [OF assms(1,3,5)] by blast
  have set: "is_set d" using assms(6) by (simp add: is_set_def)
  show ?thesis
  proof (cases r)
    case None
    then have new: "\<forall>x\<in>set (vals d). c v x 0 \<noteq> 0"
      using r(2) assms(7) by (simp add: found_ok_def matches_def set_match_def)
    obtain d' i where d': "M_list_insert d v = Some (True, d')"
      "upd_ok d (ins i (duplicate_insert d v) (vals d)) [] d'"
    proof (cases "M_LIST_SORTED \<in> flags d \<and> \<not> multi_insert d")
      case True
      then show ?thesis using that insert_sorted [OF assms(1-3) _ _ assms(8)] r(1) None by blast
    next
      case False
      then show ?thesis
        using that insert_append [OF assms(1,2)] r(1) None ins_length [of "vals d"] by metis
    qed
    have copy: "c x (duplicate_insert d v) 0 \<noteq> 0 \<and> c (duplicate_insert d v) x 0 \<noteq> 0"
      if "x \<in> set (vals d)" for x
      using new that assms(8) compar_contract.eq_sym [OF cc, of x v]
        compar_contract.eq_sym [OF cc, of x "duplicate_insert d v"] by auto
    have "set_ok d' c"
      using d'(2) assms(4) copy sorted_wrt_ins [of "\<lambda>a b. c a b 0 \<noteq> 0" "vals d" "duplicate_insert d v" i]
      by (simp add: set_ok_def upd_ok_def)
    then show ?thesis using d' new by (auto simp: upd_ok_def)
  next
    case (Some i)
    then have "\<not> (\<forall>x\<in>set (vals d). c v x 0 \<noteq> 0)"
      using r(2) assms(7) by (auto simp: found_ok_def matches_def set_match_def)
    moreover have "M_list_insert d v = Some (False, d)"
      using r(1) Some set insert_idx_total [OF assms(1), of v] assms(3)
      by (auto simp: M_list_insert_def M_list_insert_at_int_def)
    ultimately show ?thesis using assms(1,4) by auto
  qed
qed

theorem M_list_insert_keeps_set_witness:
  "\<exists>b d'. M_list_insert (demo {M_LIST_SET_VAL} [3, 5]) (Some 5) = Some (b, d') \<and>
     \<not> b \<and> set_ok d' M_sort_compar_u64"
proof -
  have "set_ok (demo {M_LIST_SET_VAL} [3, 5]) M_sort_compar_u64"
    by (simp add: set_ok_def M_sort_compar_u64_def)
  moreover have "\<not> (\<forall>x\<in>{Some 3, Some 5}. M_sort_compar_u64 (Some (5 :: M_uint64)) x (0 :: nat) \<noteq> 0)"
    by (simp add: M_sort_compar_u64_def)
  moreover have "\<exists>b d'. M_list_insert (demo {M_LIST_SET_VAL} [3, 5]) (Some 5) = Some (b, d') \<and> list_ok d' \<and>
      set_ok d' M_sort_compar_u64 \<and>
      (b \<longleftrightarrow> (\<forall>x\<in>set (vals (demo {M_LIST_SET_VAL} [3, 5])). M_sort_compar_u64 (Some 5) x (0 :: nat) \<noteq> 0)) \<and>
      (\<not> b \<longrightarrow> d' = demo {M_LIST_SET_VAL} [3, 5])"
    by (rule M_list_insert_keeps_set)
      (simp_all add: demo_ok' demo_order SIZE_MOD_def zero_option_def set_ok_def M_sort_compar_u64_def)
  ultimately show ?thesis by (elim exE conjE) (intro exI conjI, assumption+, simp_all)
qed

section \<open>Removal\<close>


text \<open>
  C12. Taking the element at an index gives the value \<open>M_list_at\<close> shows there, passes its
  ownership to the caller without freeing it, and closes the gap; in a stack the indices count
  from the end.
\<close>

theorem M_list_take_at_correct:
  assumes "list_ok d" "i < elements d"
  shows "\<exists>x d'. M_list_take_at d i = Some (x, d') \<and> M_list_at d i = Some x \<and> list_ok d' \<and>
    freed d' = freed d \<and> cfg d' = cfg d \<and>
    (let p = (if M_LIST_STACK \<in> flags d then elements d - 1 - i else i) in
       vals d' = take p (vals d) @ drop (p + 1) (vals d))"
  using take_at_ok [OF assms] assms
  by (auto simp: upd_ok_def M_list_at_def convert_idx_at_pos start_get_vals pos_of_less pos_of_def del_def)

theorem M_list_take_at_correct_witness:
  "\<exists>x d'. M_list_take_at (demo {M_LIST_STACK} [3, 5, 9]) 0 = Some (x, d') \<and>
     M_list_at (demo {M_LIST_STACK} [3, 5, 9]) 0 = Some x \<and> vals d' = [Some 3, Some 5]"
  using M_list_take_at_correct [OF demo_ok', of "[3, 5, 9]" "{M_LIST_STACK}" 0] by auto



lemma mem_move_self: "s + n \<le> length xs \<Longrightarrow> mem_move xs s s n = Some xs"
  by (simp add: mem_move_def mem_copy_def)
    (metis add.commute append.assoc append_take_drop_id take_add)

text \<open>
  In a stack the two bounds of a range are converted one by one and change order: removing
  the range of two neighbours reports success and removes nothing.
\<close>

lemma M_list_remove_range_stack:
  assumes "list_ok d" "M_LIST_STACK \<in> flags d" "s + 1 < elements d"
  shows "\<exists>d'. M_list_remove_range d s (s + 1) = Some (True, d') \<and> vals d' = vals d \<and> freed d' = freed d"
proof -
  define b where "b = elements d - 2 - s"
  have b: "elements d < SIZE_MOD" "b + 1 < elements d" "b \<noteq> elements d - 1"
    using assms by (auto simp: elements_less b_def)
  have conv: "M_list_convert_idx_at d s = b + 1" "M_list_convert_idx_at d (s + 1) = b"
    using convert_idx_at_pos [OF assms(1)] assms(2,3) by (auto simp: pos_of_def b_def)
  have "size_sub b (b + 1) = SIZE_MOD - 1" using size_sub_wrap [of b "b + 1"] b by simp
  then have n: "size_add (size_sub b (b + 1)) 1 = 0" "size_add b 1 = b + 1"
    using b by (simp_all add: size_add_def)
  have if_b: "(if b \<ge> elements d then elements d - 1 else b) = b" using b by simp
  have fr: "free_range d (b + 1) (b + 1) = Some d" by (simp add: free_range.simps)
  have ms: "mem_set (base d) (start d + (b + 1)) 0 0 = Some (base d)"
    using assms(1) b(2) by (simp add: mem_set_def mem_copy_def list_ok_def)
  have mv: "mem_move (base d) (start d + (b + 1)) (start d + (b + 1)) (elements d - (b + 1)) = Some (base d)"
    using assms(1) b by (intro mem_move_self) (simp add: list_ok_def)
  obtain d' where d': "M_list_shrink d = Some d'" "upd_ok d (vals d) [] d'"
    using shrink_ok [OF assms(1)] by blast
  have "M_list_remove_range d s (s + 1) = Some (True, d')"
    unfolding M_list_remove_range_def Let_def conv if_b n
    using assms(3) b d'(1)
    by (simp add: fr [simplified] ms [simplified] mv [simplified] size_mul_def)
  then show ?thesis using d'(2) by (auto simp: upd_ok_def)
qed

lemma M_list_remove_range_stack_example:
  "\<exists>d'. M_list_remove_range (demo {M_LIST_STACK} [3, 5, 9]) 0 1 = Some (True, d') \<and>
     vals d' = [Some 3, Some 5, Some 9]"
  using M_list_remove_range_stack [OF demo_ok', of "[3, 5, 9]" "{M_LIST_STACK}" 0] by auto

section \<open>Removal by value\<close>

definition val_match :: "('v, 't) M_list \<Rightarrow> ('v, 't) M_sort_compar_t \<Rightarrow> 'v \<Rightarrow> M_list_match_type set \<Rightarrow> 'v \<Rightarrow> bool" where
  "val_match d c v type x \<longleftrightarrow> (if M_LIST_MATCH_PTR \<in> type then v = x else c v x (thunk d) = 0)"


lemma match_test:
  "equality d = Some c \<Longrightarrow>
   (if M_LIST_MATCH_PTR \<in> type then Some (v = x)
    else do { r \<leftarrow> call_equality d v x (thunk d); Some (r = 0) }) = Some (val_match d c v type x)"
  by (simp add: val_match_def call_equality_def)





lemma match_unsorted_skip:
  assumes "list_ok d" "equality d = Some c"
  shows "n \<le> elements d \<Longrightarrow> i \<le> n \<Longrightarrow> \<forall>j. i \<le> j \<longrightarrow> j < n \<longrightarrow> \<not> val_match d c v type (vals d ! j) \<Longrightarrow>
    match_unsorted d v nv type M_LIST_MATCH_OP_REMOVE ptr 0 n =
    match_unsorted d v nv type M_LIST_MATCH_OP_REMOVE ptr 0 i"
proof (induction n)
  case (Suc n)
  then show ?case
  proof (cases "i = Suc n")
    case False
    have "\<not> val_match d c v type (vals d ! n)" using Suc(3,4) False by simp
    then have "match_unsorted d v nv type M_LIST_MATCH_OP_REMOVE ptr 0 (Suc n) =
        match_unsorted d v nv type M_LIST_MATCH_OP_REMOVE ptr 0 n"
      using start_get_vals [OF assms(1), of n] match_test [OF assms(2)] Suc(2) by simp
    then show ?thesis using Suc False by simp
  qed simp
qed simp

text \<open>
  In a stack the index of a match is converted as if it were counted from the end: removing
  the last stored match, at position \<open>i\<close>, frees and removes the element at \<open>n - 1 - i\<close> instead.
\<close>

lemma M_list_remove_val_stack:
  assumes "list_ok d" "M_LIST_STACK \<in> flags d" "equality d = Some c" "v \<noteq> 0" "i < elements d"
    and "c v (vals d ! i) (thunk d) = 0" "\<forall>j. i < j \<longrightarrow> j < elements d \<longrightarrow> c v (vals d ! j) (thunk d) \<noteq> 0"
  shows "\<exists>d'. M_list_remove_val d v {} = Some (1, d') \<and>
    (let p = elements d - 1 - i in
     vals d' = take p (vals d) @ drop (p + 1) (vals d) \<and> freed d' = freed d @ [vals d ! p])"
proof -
  obtain d1 where d1: "M_list_remove_at d i = Some (True, d1)"
    "upd_ok d (del (pos_of d i) (pos_of d i) (vals d)) [vals d ! pos_of d i] d1"
    using remove_at_ok [OF assms(1,5)] by blast
  have "M_LIST_SORTED \<notin> flags d" using assms(1,2) by (auto simp: list_ok_def cfg_def)
  moreover have "match_unsorted d v 0 {} M_LIST_MATCH_OP_REMOVE 0 0 (elements d) =
      match_unsorted d v 0 {} M_LIST_MATCH_OP_REMOVE 0 0 (Suc i)"
    by (rule match_unsorted_skip [OF assms(1,3)]) (use assms(5,7) in \<open>auto simp: val_match_def\<close>)
  moreover have "match_unsorted d v 0 {} M_LIST_MATCH_OP_REMOVE 0 0 (Suc i) = Some (1, d1)"
    using start_get_vals [OF assms(1,5)] assms(3,6) d1(1) by (simp add: call_equality_def)
  ultimately have "M_list_remove_val d v {} = Some (1, d1)"
    using assms(3-5) by (simp add: M_list_remove_val_def M_list_match_op_val_int_def)
  then show ?thesis using d1(2) assms(2) by (simp add: upd_ok_def pos_of_def del_def)
qed

lemma M_list_remove_val_stack_example:
  "\<exists>d'. M_list_remove_val (demo {M_LIST_STACK} [3, 5, 9]) (Some 3) {} = Some (1, d') \<and>
     vals d' = [Some 3, Some 5] \<and> freed d' = [Some 9]"
proof -
  have "\<exists>d'. M_list_remove_val (demo {M_LIST_STACK} [3, 5, 9]) (Some 3) {} = Some (1, d') \<and>
    (let p = elements (demo {M_LIST_STACK} [3, 5, 9]) - 1 - 0 in
     vals d' = take p (vals (demo {M_LIST_STACK} [3, 5, 9])) @ drop (p + 1) (vals (demo {M_LIST_STACK} [3, 5, 9])) \<and>
     freed d' = freed (demo {M_LIST_STACK} [3, 5, 9]) @ [vals (demo {M_LIST_STACK} [3, 5, 9]) ! p])"
    by (rule M_list_remove_val_stack [where c = M_sort_compar_u64])
      (simp_all add: demo_ok' zero_option_def M_sort_compar_u64_def less_Suc_eq numeral_3_eq_3,
       simp_all add: demo_def)
  then show ?thesis by simp
qed

section \<open>Removing duplicates from a sorted list\<close>

fun every_other :: "'a list \<Rightarrow> 'a list" where
  "every_other (x # y # zs) = x # every_other zs"
| "every_other xs = xs"

lemma sorted_wrt_del:
  assumes "sorted_wrt P xs" "a \<le> e"
  shows "sorted_wrt P (del a e xs)"
proof -
  have "sorted_wrt P (take a xs @ drop a xs)" using assms(1) by simp
  moreover have "set (drop (e + 1) xs) \<subseteq> set (drop a xs)"
    using assms(2) by (intro set_drop_subset_set_drop) simp
  ultimately show ?thesis using assms(1)
    by (auto simp: del_def sorted_wrt_append sorted_wrt_drop simp del: append_take_drop_id)
qed

lemma dedup_sorted_distinct:
  assumes "M_LIST_MATCH_PTR \<notin> type"
  shows "list_ok d \<Longrightarrow> M_LIST_STACK \<notin> flags d \<Longrightarrow> equality d = Some c \<Longrightarrow>
    sorted_wrt (\<lambda>a b. c a b 0 \<noteq> 0) (vals d) \<Longrightarrow> i \<le> elements d \<Longrightarrow>
    \<exists>d'. dedup_sorted d type i = Some d' \<and> vals d' = take i (vals d) @ every_other (drop i (vals d))"
proof (induction "elements d - i" arbitrary: d i rule: less_induct)
  case less
  consider (fin) "i = elements d" | (last) "i + 1 = elements d" | (more) "i + 1 < elements d"
    using less(6) by linarith
  then show ?case
  proof cases
    case fin
    then show ?thesis using fin less(2) by (simp add: dedup_sorted.simps [of d])
  next
    case last
    have "M_list_convert_idx_at d (i + 1) = i + 1"
      using last less(3) by (simp add: M_list_convert_idx_at_def)
    then have "M_list_remove_range d (M_list_convert_idx_at d (i + 1)) (M_list_convert_idx_at d (i + 1)) = Some (False, d)"
      using last by (simp add: M_list_remove_range_def)
    moreover have "dedup_run d i (i + 1) = Some (i + 1)" using last by (simp add: dedup_run.simps)
    ultimately have "dedup_sorted d type i = dedup_sorted d type (i + 1)"
      using last assms by (simp add: dedup_sorted.simps [of d _ i])
    also have "\<dots> = Some d" using last by (simp add: dedup_sorted.simps [of d])
    finally show ?thesis
      using last less(2) Cons_nth_drop_Suc [of i "vals d"] append_take_drop_id [of i "vals d"]
      by (cases "drop i (vals d)") auto
  next
    case more
    have "c (vals d ! i) (vals d ! (i + 1)) 0 \<noteq> 0"
      using sorted_wrt_nth_less [OF less(5), of i "i + 1"] more less(2) by simp
    then have run: "dedup_run d i (i + 1) = Some (i + 1)"
      using more start_get_vals [OF less(2)] less(4)
      by (simp add: dedup_run.simps [of d i "Suc i"] call_equality_def)
    have conv: "M_list_convert_idx_at d (i + 1) = i + 1"
      using more less(3) by (simp add: M_list_convert_idx_at_def)
    obtain d1 where d1: "M_list_remove_range d (i + 1) (i + 1) = Some (True, d1)"
      "upd_ok d (del (i + 1) (i + 1) (vals d)) [vals d ! (i + 1)] d1"
    proof -
      have "min (i + 1) (elements d - 1) = i + 1" using more by simp
      then show ?thesis using that remove_range_ok [OF less(2,3) order_refl more] more less(2)
          take_Suc_drop [of "i + 1" "vals d"] by auto
    qed
    have d1': "elements d1 = elements d - 1" "list_ok d1" "M_LIST_STACK \<notin> flags d1" "equality d1 = Some c"
      "sorted_wrt (\<lambda>a b. c a b 0 \<noteq> 0) (vals d1)" "vals d1 = del (i + 1) (i + 1) (vals d)"
      using d1(2) upd_ok_elements [OF d1(2)] more less(2-5) by (auto simp: upd_ok_def cfg_eq sorted_wrt_del)
    have "elements d1 - (i + 1) < elements d - i" "i + 1 \<le> elements d1" using d1'(1) more by linarith+
    from less(1) [OF this(1) d1'(2-5) this(2)] obtain d' where d': "dedup_sorted d1 type (i + 1) = Some d'"
      "vals d' = take (i + 1) (vals d1) @ every_other (drop (i + 1) (vals d1))" by blast
    have "dedup_sorted d type i = Some d'"
      using more assms run conv d1(1) d'(1) by (simp add: dedup_sorted.simps [of d _ i])
    moreover have "take (i + 1) (vals d1) @ every_other (drop (i + 1) (vals d1)) =
        take i (vals d) @ every_other (drop i (vals d))"
    proof -
      have "drop i (vals d) = vals d ! i # vals d ! (i + 1) # drop (i + 2) (vals d)"
        using more less(2) by (simp add: Cons_nth_drop_Suc)
      then show ?thesis using more less(2) take_Suc_conv_app_nth [of i "vals d"]
        by (simp add: d1'(6) del_def)
    qed
    ultimately show ?thesis using d'(2) by simp
  qed
qed

text \<open>
  Removing the duplicates of a sorted list by value removes the element after each run as
  well: a sorted list without duplicates keeps only every other element.
\<close>

lemma M_list_remove_duplicates_sorted:
  assumes "list_ok d" "M_LIST_SORTED \<in> flags d" "\<not> multi_insert d" "equality d = Some c"
    and "sorted_wrt (\<lambda>a b. c a b 0 \<noteq> 0) (vals d)"
  shows "\<exists>d'. M_list_remove_duplicates d {} = Some d' \<and> vals d' = every_other (vals d)"
  using dedup_sorted_distinct [OF _ assms(1) _ assms(4,5), of "{}" 0] assms(1-4)
  by (simp add: M_list_remove_duplicates_def list_ok_def cfg_def)

lemma M_list_remove_duplicates_sorted_example:
  "\<exists>d'. M_list_remove_duplicates (demo {M_LIST_SORTED} [1, 2, 3]) {} = Some d' \<and>
     vals d' = [Some 1, Some 3]"
proof -
  have "\<exists>d'. M_list_remove_duplicates (demo {M_LIST_SORTED} [1, 2, 3]) {} = Some d' \<and>
      vals d' = every_other (vals (demo {M_LIST_SORTED} [1, 2, 3]))"
    by (rule M_list_remove_duplicates_sorted [where c = M_sort_compar_u64])
      (simp_all add: demo_ok M_sort_compar_u64_def, simp add: demo_def)
  then show ?thesis by simp
qed

section \<open>Insertion in bulk and at an index\<close>

lemma sort_data_ok:
  assumes "list_ok d" "equality d = Some c" "compar_contract c (thunk d)" "M_LIST_SORTED \<in> flags d"
  shows "\<exists>d' xs. sort_data d = Some d' \<and> upd_ok d xs [] d' \<and> mset xs = mset (vals d) \<and>
    sorted_wrt (\<lambda>a b. c a b (thunk d) \<le> 0) xs"
proof (cases "elements d = 0")
  case True
  then have "vals d = []" by (simp add: vals_def)
  then show ?thesis using assms(1) True by (auto simp: sort_data_def upd_ok_def)
next
  case False
  define xs where "xs = (if M_LIST_STABLE \<in> flags d then M_sort_mergesort (vals d) c (thunk d)
    else M_sort_qsort (vals d) c (thunk d))"
  have xs: "mset xs = mset (vals d)" "sorted_wrt (\<lambda>a b. c a b (thunk d) \<le> 0) xs"
    using compar_contract.M_sort_qsort_ok [OF assms(3), of "vals d"]
      compar_contract.is_sorted_mergesort [OF assms(3), of "vals d"]
      mset_M_sort_mergesort [of "vals d" c "thunk d"]
    by (auto simp: xs_def)
  have len: "length xs = elements d" using mset_eq_length [OF xs(1)] assms(1) by simp
  obtain b where b: "mem_copy (base d) (start d) xs = Some b"
    using assms(1) len by (auto simp: mem_copy_def list_ok_def)
  have "vals (d\<lparr>base := b\<rparr>) = xs" using window_mem_copy [OF b, of "elements d"] len by (simp add: vals_def)
  then have "upd_ok d xs [] (d\<lparr>base := b\<rparr>)"
    using assms(1) length_mem_copy [OF b] by (simp add: upd_ok_def list_ok_def)
  moreover have "sort_data d = Some (d\<lparr>base := b\<rparr>)"
    using False assms(2,4) start_read_vals [OF assms(1)] b by (simp add: sort_data_def xs_def)
  ultimately show ?thesis using xs by blast
qed

lemma cfg_ok_multi: "cfg_ok (cfg (d\<lparr>multi_insert := b\<rparr>)) = cfg_ok (cfg d)"
  by (simp add: cfg_def)

text \<open>
  C15. Ending a bulk insertion sorts the list with the sort its flags select, whatever order the
  elements were appended in, and keeps exactly its elements.
\<close>

theorem M_list_insert_end_sorts:
  assumes "list_ok d" "equality d = Some c" "compar_contract c (thunk d)" "M_LIST_SORTED \<in> flags d"
    and "multi_insert d"
  shows "\<exists>d'. M_list_insert_end d = Some d' \<and> list_ok d' \<and> \<not> multi_insert d' \<and>
    mset (vals d') = mset (vals d) \<and> sorted_wrt (\<lambda>a b. c a b (thunk d') \<le> 0) (vals d') \<and> freed d' = freed d"
proof -
  obtain d1 xs where d1: "sort_data d = Some d1" "upd_ok d xs [] d1" "mset xs = mset (vals d)"
    "sorted_wrt (\<lambda>a b. c a b (thunk d) \<le> 0) xs"
    using sort_data_ok [OF assms(1-4)] by blast
  have "list_ok (d1\<lparr>multi_insert := False\<rparr>)" "vals (d1\<lparr>multi_insert := False\<rparr>) = xs"
    using d1(2) cfg_ok_multi [of False d1] by (auto simp: upd_ok_def list_ok_def vals_def)
  moreover have "thunk d1 = thunk d" "freed d1 = freed d" using d1(2) by (auto simp: upd_ok_def cfg_eq)
  ultimately show ?thesis using d1 assms(5) by (auto simp: M_list_insert_end_def)
qed

theorem M_list_insert_end_sorts_witness:
  "\<exists>d'. M_list_insert_end (M_list_insert_begin (demo {M_LIST_SORTED} [9, 3, 5])) = Some d' \<and>
     mset (vals d') = {#Some 9, Some 3, Some 5#} \<and>
     sorted_wrt (\<lambda>a b. M_sort_compar_u64 a b (thunk d') \<le> 0) (vals d')"
proof -
  let ?d = "M_list_insert_begin (demo {M_LIST_SORTED} [9, 3, 5])"
  have "list_ok ?d" "vals ?d = [Some 9, Some 3, Some 5]"
    by (simp_all add: M_list_insert_begin_def list_ok_def vals_def window_def demo_def cfg_def
        INITIAL_SIZE_def SIZE_MOD_def)
  moreover have "equality ?d = Some M_sort_compar_u64" "M_LIST_SORTED \<in> flags ?d" "multi_insert ?d"
    by (simp_all add: M_list_insert_begin_def demo_def)
  moreover have "compar_contract M_sort_compar_u64 (thunk ?d)" by (rule compar_u64.compar_contract_axioms)
  ultimately show ?thesis using M_list_insert_end_sorts [of ?d M_sort_compar_u64] by auto
qed

text \<open>
  Inserting at an index past the end of a plain list puts the value before the last element,
  where the header promises the end of the list.
\<close>

lemma M_list_insert_at_past_end:
  assumes "list_ok d" "allocated d * 16 < SIZE_MOD" "M_LIST_STACK \<notin> flags d" "M_LIST_SORTED \<notin> flags d"
    and "\<not> is_set d" "0 < elements d" "elements d < idx"
  shows "\<exists>d'. M_list_insert_at d v idx = Some (True, d') \<and>
    vals d' = butlast (vals d) @ [duplicate_insert d v, last (vals d)]"
proof -
  let ?n = "elements d"
  have "M_list_convert_idx_at d idx = ?n - 1"
    using assms(3,6,7) by (simp add: M_list_convert_idx_at_def)
  moreover have "ins (?n - 1) x (vals d) = butlast (vals d) @ [x, last (vals d)]" for x
    using length_vals [OF assms(1)] assms(6) by (cases "vals d" rule: rev_cases) (auto simp: ins_def)
  ultimately show ?thesis
    using insert_at_int_ok [OF assms(1,2), of "{M_LIST_INSERT_INITIAL, M_LIST_INSERT_DUP}" v "?n - 1"] assms
    by (auto simp: M_list_insert_at_def stored_initial upd_ok_def)
qed

lemma M_list_insert_at_past_end_example:
  "\<exists>d'. M_list_insert_at (demo {} [3, 5]) (Some 9) 7 = Some (True, d') \<and>
     vals d' = [Some 3, Some 9, Some 5]"
  using M_list_insert_at_past_end [OF demo_ok' demo_room, of "[3, 5]" "{}" 7 "Some 9"] by auto

end
