(* ===== verification/M_Rand.thy ===== *)
theory M_Rand
  imports M_Prelude
begin

text \<open>
  The random number generator (\<^verbatim>\<open>src/base/math/m_rand.c\<close>): xoshiro256** with a splitmix64
  seed expansion, and the reduction of a number to a range by rejection. A state is given; the
  seed 0 stands for one that is made from the clock and from addresses, which is an argument.
\<close>

section \<open>Definitions\<close>

record M_rand_state =
  s0 :: M_uint64
  s1 :: M_uint64
  s2 :: M_uint64
  s3 :: M_uint64

definition M_rand_rotate_left :: "M_uint64 \<Rightarrow> nat \<Rightarrow> M_uint64" where
  "M_rand_rotate_left v r = (push_bit r v) OR (drop_bit (64 - r) v)"

definition M_rand_splitmix64 :: "M_uint64 \<Rightarrow> M_uint64" where
  "M_rand_splitmix64 seed =
     (let seed = seed + 0x9E3779B97F4A7C15;
          seed = (seed XOR drop_bit 30 seed) * 0xBF58476D1CE4E5B9;
          seed = (seed XOR drop_bit 27 seed) * 0x94D049BB133111EB
      in seed XOR drop_bit 31 seed)"

definition M_rand :: "M_rand_state \<Rightarrow> M_uint64 \<times> M_rand_state" where
  "M_rand state =
     (let ret = M_rand_rotate_left (s1 state * 5) 7 * 9;
          tmp = push_bit 17 (s1 state);
          state = state\<lparr>s2 := s2 state XOR s0 state\<rparr>;
          state = state\<lparr>s3 := s3 state XOR s1 state\<rparr>;
          state = state\<lparr>s1 := s1 state XOR s2 state\<rparr>;
          state = state\<lparr>s0 := s0 state XOR s3 state\<rparr>;
          state = state\<lparr>s2 := s2 state XOR tmp\<rparr>;
          state = state\<lparr>s3 := M_rand_rotate_left (s3 state) 45\<rparr>
      in (ret, state))"

definition M_RAND_XOROSHIRO256SS_JUMP :: "M_uint64 list" where
  "M_RAND_XOROSHIRO256SS_JUMP =
     [0x180EC6D33CFD0ABA, 0xD5A61266F0C9392C, 0xA9582618E03FC9AA, 0x39ABDC4529B1661C]"

text \<open>One iteration of the inner loop of \<open>M_rand_jump\<close>: the state and the sum collected so far.\<close>

definition jump_step :: "M_uint64 \<Rightarrow> nat \<Rightarrow> M_rand_state \<times> M_rand_state \<Rightarrow> M_rand_state \<times> M_rand_state" where
  "jump_step w b = (\<lambda>(state, acc).
     (snd (M_rand state),
      if w AND push_bit b 1 \<noteq> 0
      then \<lparr>s0 = s0 acc XOR s0 state, s1 = s1 acc XOR s1 state,
            s2 = s2 acc XOR s2 state, s3 = s3 acc XOR s3 state\<rparr>
      else acc))"

definition M_rand_jump :: "M_rand_state \<Rightarrow> M_rand_state" where
  "M_rand_jump state =
     snd (fold (\<lambda>w. fold (jump_step w) [0..<64]) M_RAND_XOROSHIRO256SS_JUMP
       (state, \<lparr>s0 = 0, s1 = 0, s2 = 0, s3 = 0\<rparr>))"

definition M_rand_create :: "M_uint64 \<Rightarrow> M_uint64 \<Rightarrow> M_rand_state" where
  "M_rand_create env_seed seed =
     (let seed = (if seed = 0 then env_seed else seed);
          a = seed; b = M_rand_splitmix64 a; c = M_rand_splitmix64 b; d = M_rand_splitmix64 c
      in M_rand_jump \<lparr>s0 = a, s1 = b, s2 = c, s3 = d\<rparr>)"

definition M_RAND_MAX :: M_uint64 where
  "M_RAND_MAX = - 1"

text \<open>The draws are repeated until one falls outside the tail; \<open>None\<close> is an endless repetition.\<close>

partial_function (option) M_rand_range ::
  "M_rand_state \<Rightarrow> M_uint64 \<Rightarrow> M_uint64 \<Rightarrow> (M_uint64 \<times> M_rand_state) option" where
  "M_rand_range state lo hi =
     (if lo \<ge> hi then Some (if lo = hi then lo else 0, state)
      else
        let range = hi - lo; (r, state) = M_rand state in
        if r \<ge> M_RAND_MAX - M_RAND_MAX mod range then M_rand_range state lo hi
        else Some (lo + r div (M_RAND_MAX div range), state))"

declare M_rand_range.simps [code]

definition M_rand_max :: "M_rand_state \<Rightarrow> M_uint64 \<Rightarrow> (M_uint64 \<times> M_rand_state) option" where
  "M_rand_max state hi = M_rand_range state 0 hi"

definition M_rand_duplicate :: "M_rand_state \<Rightarrow> M_rand_state" where
  "M_rand_duplicate state = \<lparr>s0 = s0 state, s1 = s1 state, s2 = s2 state, s3 = s3 state\<rparr>"

text \<open>The loop of \<open>M_rand_str\<close>; \<open>n\<close> characters are left to draw.\<close>

fun rand_str_loop :: "M_rand_state \<Rightarrow> bytes \<Rightarrow> nat \<Rightarrow> (bytes \<times> M_rand_state) option" where
  "rand_str_loop state charset 0 = Some ([], state)"
| "rand_str_loop state charset (Suc n) = do {
     (r, state) \<leftarrow> M_rand_range state 0 (of_nat (length charset));
     c \<leftarrow> arr_get charset (unat r);
     (cs, state) \<leftarrow> rand_str_loop state charset n;
     Some (c # cs, state)
   }"

text \<open>The string that is written is terminated by a zero byte; the inner option is \<open>M_FALSE\<close>.\<close>

definition M_rand_str :: "M_rand_state \<Rightarrow> bytes \<Rightarrow> nat \<Rightarrow> (bytes \<times> M_rand_state) option option" where
  "M_rand_str state charset len =
     (if length charset = 0 \<or> len = 0 then Some None
      else do { (cs, state) \<leftarrow> rand_str_loop state charset len; Some (Some (cs @ [0], state)) })"

section \<open>Ranges\<close>

text \<open>A draw that is accepted falls in the range: it is one of \<open>range\<close> groups of equal size.\<close>

lemma reduce_bound:
  fixes lo hi r :: M_uint64
  assumes "lo < hi" "r < M_RAND_MAX - M_RAND_MAX mod (hi - lo)"
  shows "lo \<le> lo + r div (M_RAND_MAX div (hi - lo)) \<and> lo + r div (M_RAND_MAX div (hi - lo)) < hi"
proof -
  let ?g = "hi - lo"
  have g: "unat ?g = unat hi - unat lo" "0 < unat ?g"
    using assms(1) by (simp_all add: unat_sub word_less_nat_alt less_imp_le)
  define m where "m = unat M_RAND_MAX"
  define q where "q = m div unat ?g"
  have "unat (M_RAND_MAX - M_RAND_MAX mod ?g) = m - m mod unat ?g"
    by (simp add: unat_sub word_le_nat_alt unat_mod m_def)
  then have "unat r < m - m mod unat ?g" using assms(2) by (simp add: word_less_nat_alt)
  also have "\<dots> = unat ?g * q" unfolding q_def by (metis minus_mod_eq_mult_div)
  finally have "unat r div q < unat ?g" by (simp add: less_mult_imp_div_less)
  then have d: "unat (r div (M_RAND_MAX div ?g)) < unat hi - unat lo"
    using g by (simp add: unat_div m_def q_def)
  then have "unat lo + unat (r div (M_RAND_MAX div ?g)) < unat hi" by simp
  moreover from this have "unat (lo + r div (M_RAND_MAX div ?g)) = unat lo + unat (r div (M_RAND_MAX div ?g))"
    using unsigned_less [of hi, where 'a = nat] by (intro unat_add_lem [THEN iffD1]) linarith
  ultimately show ?thesis by (simp add: word_le_nat_alt word_less_nat_alt)
qed

text \<open>The state after \<open>n\<close> draws.\<close>

definition drawn :: "nat \<Rightarrow> M_rand_state \<Rightarrow> M_rand_state" where
  "drawn n = ((\<lambda>st. snd (M_rand st)) ^^ n)"

lemma drawn_Suc: "drawn (Suc n) st = drawn n (snd (M_rand st))"
  by (simp add: drawn_def funpow_Suc_right del: funpow.simps)

lemma M_rand_range_step:
  "lo < hi \<Longrightarrow> M_rand_range st lo hi =
     (if fst (M_rand st) < M_RAND_MAX - M_RAND_MAX mod (hi - lo)
      then Some (lo + fst (M_rand st) div (M_RAND_MAX div (hi - lo)), snd (M_rand st))
      else M_rand_range (snd (M_rand st)) lo hi)"
  by (simp add: M_rand_range.simps [of st] case_prod_unfold Let_def not_le [symmetric])

lemma range_returns:
  assumes "lo < hi" "fst (M_rand (drawn n st)) < M_RAND_MAX - M_RAND_MAX mod (hi - lo)"
  shows "\<exists>r st'. M_rand_range st lo hi = Some (r, st') \<and> lo \<le> r \<and> r < hi"
  using assms(2)
proof (induction n arbitrary: st)
  case 0
  then show ?case using reduce_bound [OF assms(1), of "fst (M_rand st)"]
    by (simp add: M_rand_range_step [OF assms(1), of st] drawn_def)
next
  case (Suc n)
  then show ?case using reduce_bound [OF assms(1), of "fst (M_rand st)"]
    by (simp add: M_rand_range_step [OF assms(1), of st] drawn_Suc)
qed

text \<open>
  C16. If some later draw falls outside the tail, \<open>M_rand_range\<close> returns, and its result lies in
  the half-open range.
\<close>

theorem M_rand_range_correct:
  assumes "lo < hi" "fst (M_rand (drawn n st)) < M_RAND_MAX - M_RAND_MAX mod (hi - lo)"
  shows "\<exists>r st'. M_rand_range st lo hi = Some (r, st') \<and> lo \<le> r \<and> r < hi"
  using assms by (rule range_returns)

theorem M_rand_range_correct_witness:
  "\<exists>r st'. M_rand_range \<lparr>s0 = 1, s1 = 2, s2 = 3, s3 = 4\<rparr> 5 32 = Some (r, st') \<and> 5 \<le> r \<and> r < 32"
proof (rule M_rand_range_correct [where n = 0])
  show "(5 :: M_uint64) < 32" by simp
  show "fst (M_rand (drawn 0 \<lparr>s0 = 1, s1 = 2, s2 = 3, s3 = 4\<rparr>)) < M_RAND_MAX - M_RAND_MAX mod (32 - 5)"
    unfolding drawn_def by code_simp
qed

section \<open>The generator does not get stuck\<close>

lemma push_bit_fixpoint:
  fixes x :: "'a::len word"
  assumes "push_bit k x = x" "0 < k"
  shows "x = 0"
proof (rule bit_word_eqI)
  fix n
  have "\<not> bit x n"
  proof (induction n rule: less_induct)
    case (less n)
    have "bit x n \<longleftrightarrow> bit (push_bit k x) n" using assms(1) by simp
    then have "bit x n \<Longrightarrow> k \<le> n \<and> bit x (n - k)" by (auto simp: bit_push_bit_iff)
    with less [of "n - k"] assms(2) show ?case by auto
  qed
  then show "bit x n \<longleftrightarrow> bit 0 n" by simp
qed

lemma bit_rotate_left:
  assumes "r < 64" "n < 64"
  shows "bit (M_rand_rotate_left v r) n = bit v (if r \<le> n then n - r else n + 64 - r)"
proof (cases "r \<le> n")
  case True
  then have "\<not> bit (drop_bit (64 - r) v) n" using assms bit_imp_le_length [of v "64 - r + n"] by (auto simp: bit_drop_bit_eq)
  then show ?thesis using True assms by (simp add: M_rand_rotate_left_def bit_or_iff bit_push_bit_iff)
next
  case False
  then show ?thesis using assms
    by (simp add: M_rand_rotate_left_def bit_or_iff bit_push_bit_iff bit_drop_bit_eq add.commute)
qed

lemma rotate_left_inj:
  assumes "M_rand_rotate_left v r = M_rand_rotate_left w r" "r < 64"
  shows "v = w"
proof (rule bit_word_eqI)
  fix n assume n: "n < LENGTH(64)"
  define m where "m = (if n + r < 64 then n + r else n + r - 64)"
  have "m < 64" "(if r \<le> m then m - r else m + 64 - r) = n" using n assms(2) by (auto simp: m_def)
  then show "bit v n \<longleftrightarrow> bit w n"
    using bit_rotate_left [OF assms(2), of m v] bit_rotate_left [OF assms(2), of m w] assms(1) by simp
qed

lemma xor_zero_iff: "a XOR b = 0 \<longleftrightarrow> a = b" for a b :: "'a::len word"
  by (metis xor.right_neutral xor.assoc xor_self_eq)

text \<open>
  No draw leads to the all-zero state, the fixed point in which the generator would give 0
  for ever, from any other state.
\<close>

lemma M_rand_state_nonzero:
  assumes "state \<noteq> \<lparr>s0 = 0, s1 = 0, s2 = 0, s3 = 0\<rparr>"
  shows "snd (M_rand state) \<noteq> \<lparr>s0 = 0, s1 = 0, s2 = 0, s3 = 0\<rparr>"
proof
  assume z: "snd (M_rand state) = \<lparr>s0 = 0, s1 = 0, s2 = 0, s3 = 0\<rparr>"
  obtain a b c d where st: "state = \<lparr>s0 = a, s1 = b, s2 = c, s3 = d\<rparr>" by (cases state)
  from z have r: "M_rand_rotate_left (d XOR b) 45 = 0" and zs: "a XOR (d XOR b) = 0" "b XOR (c XOR a) = 0"
    "(c XOR a) XOR push_bit 17 b = 0"
    by (simp_all add: M_rand_def Let_def st)
  have "d XOR b = 0" by (rule rotate_left_inj [of _ 45]) (use r in \<open>simp_all add: M_rand_rotate_left_def\<close>)
  then have "d = b" by (simp add: xor_zero_iff)
  with zs(1) have "a = 0" by simp
  with zs(2,3) have "b = c" "push_bit 17 b = b" by (simp_all add: xor_zero_iff)
  then have "b = 0" using push_bit_fixpoint [of 17 b] by simp
  with \<open>a = 0\<close> \<open>b = c\<close> \<open>d = b\<close> st assms show False by simp
qed

lemma M_rand_state_nonzero_example:
  "snd (M_rand \<lparr>s0 = 1, s1 = 0, s2 = 0, s3 = 0\<rparr>) \<noteq> \<lparr>s0 = 0, s1 = 0, s2 = 0, s3 = 0\<rparr>"
  by (rule M_rand_state_nonzero) simp

section \<open>Draws of 32 bits\<close>

text \<open>
  The range of 32-bit seeds divides the range of the draws, so a draw is rejected only if it is the
  largest number. A draw tells the word \<open>s1\<close> of the state, and no state keeps that word for ever.
\<close>

lemma M_rand_inj:
  assumes "fst (M_rand st) = fst (M_rand st')"
  shows "s1 st = s1 st'"
proof -
  have "(9 :: M_uint64) * 0x8E38E38E38E38E39 = 1" "(5 :: M_uint64) * 0xCCCCCCCCCCCCCCCD = 1" by simp_all
  then have nine: "(y * 9) * 0x8E38E38E38E38E39 = y" and five: "(y * 5) * 0xCCCCCCCCCCCCCCCD = y" for y :: M_uint64
    by (simp_all only: mult.assoc mult_1_right)
  have "M_rand_rotate_left (s1 st * 5) 7 * 9 = M_rand_rotate_left (s1 st' * 5) 7 * 9"
    using assms by (simp add: M_rand_def Let_def)
  then have "M_rand_rotate_left (s1 st * 5) 7 = M_rand_rotate_left (s1 st' * 5) 7" using nine by metis
  then have "s1 st * 5 = s1 st' * 5" by (rule rotate_left_inj) simp
  then show ?thesis using five by metis
qed

lemma M_rand_next:
  "s0 (snd (M_rand st)) = s0 st XOR (s3 st XOR s1 st)" "s1 (snd (M_rand st)) = s1 st XOR (s2 st XOR s0 st)"
  "s2 (snd (M_rand st)) = (s2 st XOR s0 st) XOR push_bit 17 (s1 st)" "s3 (snd (M_rand st)) = M_rand_rotate_left (s3 st XOR s1 st) 45"
  by (simp_all add: M_rand_def Let_def)

lemma xor_fix: "a XOR b = a \<longleftrightarrow> b = 0" for a b :: "'a::len word"
  by (metis xor.right_neutral xor.assoc xor_self_eq xor.left_neutral)

lemma not_all_max: "\<exists>n. fst (M_rand (drawn n st)) \<noteq> M_RAND_MAX"
proof (rule ccontr)
  assume "\<not> ?thesis"
  then have m: "fst (M_rand (drawn n st)) = M_RAND_MAX" for n by blast
  have z: "drawn 0 st = st" by (simp add: drawn_def)
  define K T where "K = s1 st" and "T = push_bit 17 K"
  have k: "s1 (drawn n st) = K" for n using M_rand_inj [of "drawn n st" "drawn 0 st"] m [of n] m [of 0] by (simp add: K_def z)
  have nxt: "drawn (Suc n) st = snd (M_rand (drawn n st))" for n by (simp add: drawn_def)
  have eq: "s2 (drawn n st) = s0 (drawn n st)" for n
    using k [of n] k [of "Suc n"] M_rand_next(2) [of "drawn n st"] by (simp add: nxt xor_fix xor_zero_iff)
  have "s2 (drawn (Suc n) st) = T" for n using M_rand_next(3) [of "drawn n st"] by (simp add: nxt eq k T_def)
  then have t: "s0 (drawn (Suc n) st) = T" for n using eq by metis
  have d: "s3 (drawn (Suc n) st) = K" for n
    using t [of n] t [of "Suc n"] M_rand_next(1) [of "drawn (Suc n) st"] k [of "Suc n"]
    by (simp add: nxt [of "Suc n"] xor_fix xor_zero_iff)
  have "K = 0" using d [of 1] d [of 0] k [of 1] M_rand_next(4) [of "drawn 1 st"] nxt [of 1]
    by (simp add: M_rand_rotate_left_def)
  then show False using m [of 0] K_def by (simp add: M_rand_def Let_def M_RAND_MAX_def M_rand_rotate_left_def drawn_def)
qed
lemma range_32_returns: "\<exists>r st'. M_rand_range st 1 (2 ^ 32) = Some (r, st')"
proof -
  obtain n where "fst (M_rand (drawn n st)) \<noteq> M_RAND_MAX" using not_all_max by blast
  then have "fst (M_rand (drawn n st)) < M_RAND_MAX - M_RAND_MAX mod (2 ^ 32 - 1)"
    by (simp add: M_RAND_MAX_def word_order.not_eq_extremum)
  then show ?thesis using range_returns [of 1 "2 ^ 32" n st] by auto
qed

end
