(* ===== verification/M_LList.thy ===== *)
theory M_LList
  imports Bithacks M_Rand Sort_Compar
begin

text \<open>
  The linked list (\<^verbatim>\<open>src/base/list/m_llist.c\<close>): a doubly linked list, optionally circular, or
  a skip list when it is kept sorted.

  A list is a record with the fields of \<open>struct M_llist\<close> and the store \<open>nodes\<close> of its nodes. The
  address of a node is a number, \<open>NULL\<close> is 0. Every access to a node goes through \<open>node_get\<close> or
  \<open>node_upd\<close>, which are \<open>None\<close> for a null pointer and for a node that has been freed; an operation
  whose model is \<open>None\<close> has made such an access, or never returns. Addresses are not used again
  after they have been freed. A node belongs to the list it is an argument with, so the field
  \<open>parent\<close> and the comparison of two parents have no counterpart. The calls of \<open>value_free\<close> are
  recorded in \<open>l_freed\<close>.
\<close>

section \<open>State\<close>

type_synonym addr = nat

datatype M_llist_flags = M_LLIST_SORTED | M_LLIST_CIRCULAR

text \<open>\<open>M_LLIST_MATCH_VAL\<close> is 0, the empty set of flags.\<close>

datatype M_llist_match_type = M_LLIST_MATCH_PTR | M_LLIST_MATCH_ALL

datatype M_llist_insert_type = M_LLIST_INSERT_NODUP | M_LLIST_INSERT_DUP | M_LLIST_INSERT_INITIAL

datatype M_llist_match_op = M_LLIST_MATCH_OP_COUNT | M_LLIST_MATCH_OP_REMOVE

text \<open>The fields of the union: \<open>n_next\<close>, \<open>n_prev\<close> unsorted, \<open>n_nexts\<close>, \<open>n_prevs\<close>, \<open>n_levels\<close> sorted.\<close>

record 'v M_llist_node =
  n_val :: 'v
  n_next :: addr
  n_prev :: addr
  n_nexts :: "addr list"
  n_prevs :: "addr list"
  n_levels :: nat

text \<open>\<open>l_head\<close> is the head unsorted; \<open>l_heads\<close>, \<open>l_levels\<close>, \<open>l_rand_state\<close> are the head sorted.\<close>

record ('v, 't) M_llist =
  l_equality :: "('v, 't) M_sort_compar_t option"
  l_equality_thunk :: 't
  l_duplicate_insert :: "'v \<Rightarrow> 'v"
  l_duplicate_copy :: "'v \<Rightarrow> 'v"
  l_flags :: "M_llist_flags set"
  l_elements :: nat
  l_heads :: "addr list"
  l_levels :: nat
  l_rand_state :: M_rand_state
  l_head :: addr
  l_tail :: addr
  nodes :: "addr \<Rightarrow> 'v M_llist_node option"
  fresh :: addr
  l_freed :: "'v list"

record ('v, 't) M_llist_callbacks =
  lcb_equality :: "('v, 't) M_sort_compar_t option"
  lcb_duplicate_insert :: "('v \<Rightarrow> 'v) option"
  lcb_duplicate_copy :: "('v \<Rightarrow> 'v) option"

definition M_LLIST_START_LEVEL :: nat where
  "M_LLIST_START_LEVEL = 4"

definition M_LLIST_START_LEVEL_ELEMENTS :: nat where
  "M_LLIST_START_LEVEL_ELEMENTS = 16"

definition M_llist_duplicate_func_default :: "'v \<Rightarrow> 'v" where
  "M_llist_duplicate_func_default arg = arg"

text \<open>\<open>n->\<dots>\<close>, read and written, and calls of \<open>d->equality\<close> and \<open>d->value_free\<close>.\<close>

definition node_get :: "('v, 't) M_llist \<Rightarrow> addr \<Rightarrow> 'v M_llist_node option" where
  "node_get d n = (if n = NULL then None else nodes d n)"

definition node_upd ::
  "('v, 't) M_llist \<Rightarrow> addr \<Rightarrow> ('v M_llist_node \<Rightarrow> 'v M_llist_node) \<Rightarrow> ('v, 't) M_llist option" where
  "node_upd d n f = do { x \<leftarrow> node_get d n; Some (d\<lparr>nodes := (nodes d)(n \<mapsto> f x)\<rparr>) }"

definition l_compare :: "('v, 't) M_llist \<Rightarrow> 'v \<Rightarrow> 'v \<Rightarrow> int option" where
  "l_compare d a b =
     (case l_equality d of None \<Rightarrow> None | Some c \<Rightarrow> Some (c a b (l_equality_thunk d)))"

definition l_value_free :: "('v, 't) M_llist \<Rightarrow> 'v \<Rightarrow> ('v, 't) M_llist" where
  "l_value_free d v = d\<lparr>l_freed := l_freed d @ [v]\<rparr>"

text \<open>\<open>n->links.sorted.next[i]\<close> and \<open>prev[i]\<close>, read and written.\<close>

definition next_at :: "('v, 't) M_llist \<Rightarrow> addr \<Rightarrow> nat \<Rightarrow> addr option" where
  "next_at d n i = do { x \<leftarrow> node_get d n; arr_get (n_nexts x) i }"

definition prev_at :: "('v, 't) M_llist \<Rightarrow> addr \<Rightarrow> nat \<Rightarrow> addr option" where
  "prev_at d n i = do { x \<leftarrow> node_get d n; arr_get (n_prevs x) i }"

definition set_next_at :: "('v, 't) M_llist \<Rightarrow> addr \<Rightarrow> nat \<Rightarrow> addr \<Rightarrow> ('v, 't) M_llist option" where
  "set_next_at d n i m = do {
     x \<leftarrow> node_get d n;
     ms \<leftarrow> arr_set (n_nexts x) i m;
     node_upd d n (\<lambda>x. x\<lparr>n_nexts := ms\<rparr>)
   }"

definition set_prev_at :: "('v, 't) M_llist \<Rightarrow> addr \<Rightarrow> nat \<Rightarrow> addr \<Rightarrow> ('v, 't) M_llist option" where
  "set_prev_at d n i m = do {
     x \<leftarrow> node_get d n;
     ms \<leftarrow> arr_set (n_prevs x) i m;
     node_upd d n (\<lambda>x. x\<lparr>n_prevs := ms\<rparr>)
   }"

section \<open>Levels\<close>

definition M_llist_max_level :: "('v, 't) M_llist \<Rightarrow> nat" where
  "M_llist_max_level d =
     (let elements = l_elements d + 1 in
      if elements \<le> M_LLIST_START_LEVEL_ELEMENTS then M_LLIST_START_LEVEL
      else unat (M_uint64_log2 (M_uint64_round_up_to_power_of_two (of_nat elements))))"

text \<open>The loop draws bits until one is set; \<open>level\<close> counts them.\<close>

partial_function (option) calc_level_loop ::
  "M_rand_state \<Rightarrow> M_uint64 \<Rightarrow> nat \<Rightarrow> (nat \<times> M_rand_state) option" where
  "calc_level_loop st r level =
     (let (r, st) = (if r = 0 then M_rand st else (r, st)) in
      if r mod 2 \<noteq> 0 then Some (level + 1, st) else calc_level_loop st (r div 2) (level + 1))"

declare calc_level_loop.simps [code]

definition M_llist_node_calc_level :: "('v, 't) M_llist \<Rightarrow> (nat \<times> ('v, 't) M_llist) option" where
  "M_llist_node_calc_level d = do {
     let new_max_level = min (l_levels d + 1) (M_llist_max_level d);
     (level, st) \<leftarrow> calc_level_loop (l_rand_state d) 0 0;
     Some (if level > new_max_level then new_max_level else level, d\<lparr>l_rand_state := st\<rparr>)
   }"

section \<open>Nodes\<close>

definition M_llist_node_create ::
  "('v, 't) M_llist \<Rightarrow> 'v \<Rightarrow> M_llist_insert_type set \<Rightarrow> addr \<times> ('v, 't) M_llist" where
  "M_llist_node_create d val insert_type =
     (let v = (if M_LLIST_INSERT_DUP \<in> insert_type then
                 if M_LLIST_INSERT_INITIAL \<in> insert_type then l_duplicate_insert d val
                 else l_duplicate_copy d val
               else val)
      in (fresh d,
          d\<lparr>nodes := (nodes d)(fresh d \<mapsto>
              \<lparr>n_val = v, n_next = NULL, n_prev = NULL, n_nexts = [], n_prevs = [], n_levels = 0\<rparr>),
            fresh := fresh d + 1\<rparr>))"

definition M_llist_node_destory :: "('v, 't) M_llist \<Rightarrow> addr \<Rightarrow> bool \<Rightarrow> ('v, 't) M_llist option" where
  "M_llist_node_destory d n destroy_val =
     (if n = NULL then Some d
      else do {
        x \<leftarrow> node_get d n;
        let d = (if destroy_val then l_value_free d (n_val x) else d);
        Some (d\<lparr>nodes := (nodes d)(n := None)\<rparr>)
      })"

definition M_llist_node_unlink :: "('v, 't) M_llist \<Rightarrow> addr \<Rightarrow> ('v, 't) M_llist option" where
  "M_llist_node_unlink d n =
     (if n = NULL \<or> M_LLIST_SORTED \<in> l_flags d then Some d
      else do {
        x \<leftarrow> node_get d n;
        let nx = n_next x;
        let pv = n_prev x;
        d \<leftarrow> (if nx \<noteq> NULL then node_upd d nx (\<lambda>y. y\<lparr>n_prev := pv\<rparr>) else Some d);
        d \<leftarrow> (if pv \<noteq> NULL then node_upd d pv (\<lambda>y. y\<lparr>n_next := nx\<rparr>) else Some d);
        x \<leftarrow> node_get d n;
        let d = (if n = l_head d then d\<lparr>l_head := n_next x\<rparr> else d);
        let d = (if n = l_tail d then d\<lparr>l_tail := n_prev x\<rparr> else d);
        node_upd d n (\<lambda>y. y\<lparr>n_next := NULL, n_prev := NULL\<rparr>)
      })"

section \<open>Insertion\<close>

text \<open>The inner loop of \<open>M_llist_insert_sorted\<close>, which moves forward at level \<open>i\<close>.\<close>

partial_function (option) scan_forward ::
  "('v, 't) M_llist \<Rightarrow> 'v \<Rightarrow> nat \<Rightarrow> addr \<Rightarrow> addr option" where
  "scan_forward d val i n1 = do {
     m \<leftarrow> next_at d n1 i;
     if m = NULL then Some n1
     else do {
       y \<leftarrow> node_get d m;
       c \<leftarrow> l_compare d val (n_val y);
       if c > 0 then scan_forward d val i m else Some n1
     }
   }"

declare scan_forward.simps [code]

text \<open>One level of the loop: the node to start from at this level, and the node chained in.\<close>

definition insert_sorted_start ::
  "('v, 't) M_llist \<Rightarrow> 'v \<Rightarrow> nat \<Rightarrow> addr \<Rightarrow> addr option" where
  "insert_sorted_start d val i n1 = do {
     n1 \<leftarrow> (if n1 = NULL then do {
               h \<leftarrow> arr_get (l_heads d) i;
               if h \<noteq> NULL then do {
                 y \<leftarrow> node_get d h;
                 c \<leftarrow> l_compare d (n_val y) val;
                 Some (if c > 0 then NULL else h)
               } else Some h
             } else Some n1);
     if n1 \<noteq> NULL then scan_forward d val i n1 else Some n1
   }"

definition insert_sorted_chain ::
  "('v, 't) M_llist \<Rightarrow> addr \<Rightarrow> nat \<Rightarrow> addr \<Rightarrow> ('v, 't) M_llist option" where
  "insert_sorted_chain d node i n1 = do {
     d \<leftarrow> (if n1 = NULL then do {
              h \<leftarrow> arr_get (l_heads d) i;
              d \<leftarrow> set_next_at d node i h;
              d \<leftarrow> set_prev_at d node i NULL;
              hs \<leftarrow> arr_set (l_heads d) i node;
              Some (d\<lparr>l_heads := hs\<rparr>)
            } else do {
              m \<leftarrow> next_at d n1 i;
              d \<leftarrow> set_next_at d node i m;
              d \<leftarrow> set_prev_at d node i n1;
              set_next_at d n1 i node
            });
     m \<leftarrow> next_at d node i;
     if m \<noteq> NULL then set_prev_at d m i node
     else if i = 0 then Some (d\<lparr>l_tail := node\<rparr>)
     else Some d
   }"

fun insert_sorted_loop ::
  "('v, 't) M_llist \<Rightarrow> addr \<Rightarrow> 'v \<Rightarrow> nat \<Rightarrow> addr \<Rightarrow> nat \<Rightarrow> ('v, 't) M_llist option" where
  "insert_sorted_loop d node val levels n1 0 = Some d"
| "insert_sorted_loop d node val levels n1 (Suc i) = do {
     n1 \<leftarrow> insert_sorted_start d val i n1;
     d \<leftarrow> (if i \<ge> levels then Some d else insert_sorted_chain d node i n1);
     insert_sorted_loop d node val levels n1 i
   }"

definition M_llist_insert_sorted :: "('v, 't) M_llist \<Rightarrow> addr \<Rightarrow> (bool \<times> ('v, 't) M_llist) option" where
  "M_llist_insert_sorted d node =
     (if node = NULL \<or> M_LLIST_SORTED \<notin> l_flags d then Some (False, d)
      else do {
        (levels, d) \<leftarrow> M_llist_node_calc_level d;
        let d = (if l_levels d < levels
                 then d\<lparr>l_levels := levels, l_heads := mem_realloc NULL (l_heads d) levels\<rparr> else d);
        d \<leftarrow> node_upd d node (\<lambda>x. x\<lparr>n_levels := levels, n_nexts := replicate levels NULL,
                                    n_prevs := replicate levels NULL\<rparr>);
        x \<leftarrow> node_get d node;
        d \<leftarrow> insert_sorted_loop d node (n_val x) levels NULL (l_levels d);
        Some (True, d\<lparr>l_elements := l_elements d + 1\<rparr>)
      })"

definition M_llist_insert_unsorted ::
  "('v, 't) M_llist \<Rightarrow> addr \<Rightarrow> addr \<Rightarrow> (bool \<times> ('v, 't) M_llist) option" where
  "M_llist_insert_unsorted d node after =
     (if node = NULL \<or> M_LLIST_SORTED \<in> l_flags d then Some (False, d)
      else if after = NULL then do {
        let nx = l_head d;
        d \<leftarrow> node_upd d node (\<lambda>x. x\<lparr>n_next := nx\<rparr>);
        d \<leftarrow> (if nx \<noteq> NULL then node_upd d nx (\<lambda>x. x\<lparr>n_prev := node\<rparr>)
               else if M_LLIST_CIRCULAR \<in> l_flags d then node_upd d node (\<lambda>x. x\<lparr>n_next := node\<rparr>)
               else Some d);
        let d = d\<lparr>l_head := node\<rparr>;
        let d = (if l_tail d = NULL then d\<lparr>l_tail := node\<rparr> else d);
        d \<leftarrow> (if M_LLIST_CIRCULAR \<in> l_flags d then do {
                 d \<leftarrow> node_upd d node (\<lambda>x. x\<lparr>n_prev := l_tail d\<rparr>);
                 node_upd d (l_tail d) (\<lambda>x. x\<lparr>n_next := node\<rparr>)
               } else Some d);
        Some (True, d\<lparr>l_elements := l_elements d + 1\<rparr>)
      } else do {
        y \<leftarrow> node_get d after;
        let nx = n_next y;
        d \<leftarrow> node_upd d node (\<lambda>x. x\<lparr>n_prev := after, n_next := nx\<rparr>);
        d \<leftarrow> node_upd d after (\<lambda>x. x\<lparr>n_next := node\<rparr>);
        d \<leftarrow> (if nx = NULL then Some (d\<lparr>l_tail := node\<rparr>)
               else do {
                 let d = (if M_LLIST_CIRCULAR \<in> l_flags d \<and> nx = l_head d then d\<lparr>l_tail := node\<rparr> else d);
                 node_upd d nx (\<lambda>x. x\<lparr>n_prev := node\<rparr>)
               });
        Some (True, d\<lparr>l_elements := l_elements d + 1\<rparr>)
      })"

definition M_llist_insert_node :: "('v, 't) M_llist \<Rightarrow> addr \<Rightarrow> (bool \<times> ('v, 't) M_llist) option" where
  "M_llist_insert_node d node =
     (if node = NULL then Some (False, d)
      else if M_LLIST_SORTED \<in> l_flags d then M_llist_insert_sorted d node
      else M_llist_insert_unsorted d node (l_tail d))"

text \<open>The four public insertions return the new node, or \<open>NULL\<close>.\<close>

definition M_llist_insert :: "('v::zero, 't) M_llist \<Rightarrow> 'v \<Rightarrow> (addr \<times> ('v, 't) M_llist) option" where
  "M_llist_insert d val =
     (if val = NULL then Some (NULL, d)
      else do {
        let (node, d) = M_llist_node_create d val {M_LLIST_INSERT_DUP, M_LLIST_INSERT_INITIAL};
        (b, d) \<leftarrow> M_llist_insert_node d node;
        Some (node, d)
      })"

definition M_llist_insert_first :: "('v::zero, 't) M_llist \<Rightarrow> 'v \<Rightarrow> (addr \<times> ('v, 't) M_llist) option" where
  "M_llist_insert_first d val =
     (if val = NULL \<or> M_LLIST_SORTED \<in> l_flags d then Some (NULL, d)
      else do {
        let (node, d) = M_llist_node_create d val {M_LLIST_INSERT_DUP, M_LLIST_INSERT_INITIAL};
        (b, d) \<leftarrow> M_llist_insert_unsorted d node NULL;
        Some (node, d)
      })"

definition M_llist_insert_before ::
  "('v::zero, 't) M_llist \<Rightarrow> addr \<Rightarrow> 'v \<Rightarrow> (addr \<times> ('v, 't) M_llist) option" where
  "M_llist_insert_before d n val =
     (if n = NULL \<or> val = NULL \<or> M_LLIST_SORTED \<in> l_flags d then Some (NULL, d)
      else do {
        let (node, d) = M_llist_node_create d val {M_LLIST_INSERT_DUP, M_LLIST_INSERT_INITIAL};
        x \<leftarrow> node_get d n;
        (b, d) \<leftarrow> M_llist_insert_unsorted d node (n_prev x);
        Some (node, d)
      })"

definition M_llist_insert_after ::
  "('v::zero, 't) M_llist \<Rightarrow> addr \<Rightarrow> 'v \<Rightarrow> (addr \<times> ('v, 't) M_llist) option" where
  "M_llist_insert_after d n val =
     (if n = NULL \<or> val = NULL \<or> M_LLIST_SORTED \<in> l_flags d then Some (NULL, d)
      else do {
        let (node, d) = M_llist_node_create d val {M_LLIST_INSERT_DUP, M_LLIST_INSERT_INITIAL};
        (b, d) \<leftarrow> M_llist_insert_unsorted d node n;
        Some (node, d)
      })"

section \<open>Lookup\<close>

definition M_llist_len :: "('v, 't) M_llist \<Rightarrow> nat" where
  "M_llist_len d = l_elements d"

definition M_llist_first :: "('v, 't) M_llist \<Rightarrow> addr option" where
  "M_llist_first d =
     (if M_LLIST_SORTED \<in> l_flags d then arr_get (l_heads d) 0 else Some (l_head d))"

definition M_llist_last :: "('v, 't) M_llist \<Rightarrow> addr" where
  "M_llist_last d = l_tail d"

definition M_llist_node_next :: "('v, 't) M_llist \<Rightarrow> addr \<Rightarrow> addr option" where
  "M_llist_node_next d n =
     (if n = NULL then Some NULL
      else if M_LLIST_SORTED \<in> l_flags d then next_at d n 0
      else do { x \<leftarrow> node_get d n; Some (n_next x) })"

definition M_llist_node_prev :: "('v, 't) M_llist \<Rightarrow> addr \<Rightarrow> addr option" where
  "M_llist_node_prev d n =
     (if n = NULL then Some NULL
      else if M_LLIST_SORTED \<in> l_flags d then prev_at d n 0
      else do { x \<leftarrow> node_get d n; Some (n_prev x) })"

definition M_llist_node_val :: "('v::zero, 't) M_llist \<Rightarrow> addr \<Rightarrow> 'v option" where
  "M_llist_node_val d n =
     (if n = NULL then Some NULL else do { x \<leftarrow> node_get d n; Some (n_val x) })"

text \<open>
  The loops of \<open>M_llist_find\<close>. At one level, \<open>find_level\<close> gives the node it ends at and whether
  that node matches. \<open>find_back\<close> goes back to the first match, \<open>find_ptr\<close> forward to the pointer;
  \<open>find_unsorted\<close> is the loop over an unsorted list.
\<close>

partial_function (option) find_level ::
  "('v, 't) M_llist \<Rightarrow> 'v \<Rightarrow> nat \<Rightarrow> addr \<Rightarrow> (addr \<times> bool) option" where
  "find_level d val i node = do {
     x \<leftarrow> node_get d node;
     eq \<leftarrow> l_compare d (n_val x) val;
     if eq = 0 then Some (node, True)
     else if eq > 0 then do { p \<leftarrow> prev_at d node i; Some (p, False) }
     else do {
       m \<leftarrow> next_at d node i;
       if m \<noteq> NULL then find_level d val i m else Some (m, False)
     }
   }"

fun find_levels :: "('v, 't) M_llist \<Rightarrow> 'v \<Rightarrow> nat \<Rightarrow> addr \<Rightarrow> (addr \<times> bool) option" where
  "find_levels d val 0 node = Some (node, False)"
| "find_levels d val (Suc i) node = do {
     node \<leftarrow> (if node = NULL then arr_get (l_heads d) i else Some node);
     if node = NULL then find_levels d val i node
     else do {
       (node, val_match) \<leftarrow> find_level d val i node;
       if val_match then Some (node, True) else find_levels d val i node
     }
   }"

partial_function (option) find_back :: "('v, 't) M_llist \<Rightarrow> 'v \<Rightarrow> addr \<Rightarrow> addr option" where
  "find_back d val node =
     (if node \<noteq> NULL then do {
        p \<leftarrow> M_llist_node_prev d node;
        if p = NULL then Some node
        else do {
          y \<leftarrow> node_get d p;
          c \<leftarrow> l_compare d (n_val y) val;
          if c = 0 then find_back d val p else Some node
        }
      } else Some node)"

partial_function (option) find_ptr :: "('v, 't) M_llist \<Rightarrow> 'v \<Rightarrow> addr \<Rightarrow> addr option" where
  "find_ptr d val node =
     (if node \<noteq> NULL then do {
        x \<leftarrow> node_get d node;
        if val = n_val x then Some node
        else do {
          m \<leftarrow> M_llist_node_next d node;
          if m = NULL then Some NULL
          else do {
            y \<leftarrow> node_get d m;
            c \<leftarrow> l_compare d (n_val y) val;
            if c = 0 then find_ptr d val m else Some NULL
          }
        }
      } else Some NULL)"

definition node_match :: "('v, 't) M_llist \<Rightarrow> 'v \<Rightarrow> M_llist_match_type set \<Rightarrow> 'v \<Rightarrow> bool option" where
  "node_match d val type v =
     (if M_LLIST_MATCH_PTR \<notin> type then do { c \<leftarrow> l_compare d v val; Some (c = 0) }
      else Some (val = v))"

partial_function (option) find_unsorted ::
  "('v, 't) M_llist \<Rightarrow> 'v \<Rightarrow> M_llist_match_type set \<Rightarrow> addr \<Rightarrow> addr \<Rightarrow> addr option" where
  "find_unsorted d val type first node =
     (if node \<noteq> NULL then do {
        x \<leftarrow> node_get d node;
        eq \<leftarrow> node_match d val type (n_val x);
        if eq then Some node
        else if n_next x = first then Some NULL
        else find_unsorted d val type first (n_next x)
      } else Some NULL)"

declare find_level.simps [code] find_back.simps [code] find_ptr.simps [code] find_unsorted.simps [code]

definition M_llist_find :: "('v::zero, 't) M_llist \<Rightarrow> 'v \<Rightarrow> M_llist_match_type set \<Rightarrow> addr option" where
  "M_llist_find d val type =
     (if val = NULL \<or> M_LLIST_MATCH_PTR \<notin> type \<and> l_equality d = None then Some NULL
      else if M_LLIST_SORTED \<in> l_flags d then do {
        (node, val_match) \<leftarrow> find_levels d val (l_levels d) NULL;
        if \<not> val_match then Some NULL
        else do {
          node \<leftarrow> find_back d val node;
          if M_LLIST_MATCH_PTR \<notin> type then Some node else find_ptr d val node
        }
      }
      else find_unsorted d val type (l_head d) (l_head d))"

section \<open>Removal\<close>

text \<open>The two loops over the levels: relinking the neighbours, and counting the levels in use.\<close>

fun unlink_sorted :: "('v, 't) M_llist \<Rightarrow> addr \<Rightarrow> nat \<Rightarrow> ('v, 't) M_llist option" where
  "unlink_sorted d n 0 = Some d"
| "unlink_sorted d n (Suc i) = do {
     nx \<leftarrow> next_at d n i;
     pv \<leftarrow> prev_at d n i;
     d \<leftarrow> (if nx = NULL then Some (if i = 0 then d\<lparr>l_tail := pv\<rparr> else d) else set_prev_at d nx i pv);
     d \<leftarrow> (if pv = NULL then do { hs \<leftarrow> arr_set (l_heads d) i nx; Some (d\<lparr>l_heads := hs\<rparr>) }
            else set_next_at d pv i nx);
     unlink_sorted d n i
   }"

fun used_levels :: "addr list \<Rightarrow> nat \<Rightarrow> nat option" where
  "used_levels hs 0 = Some 0"
| "used_levels hs (Suc i) =
     (if i = 0 then Some 1
      else do { h \<leftarrow> arr_get hs i; if h = NULL then used_levels hs i else Some (Suc i) })"

text \<open>The result is the value that is taken, \<open>NULL\<close> when the node is removed.\<close>

definition M_llist_take_remove_node ::
  "('v::zero, 't) M_llist \<Rightarrow> addr \<Rightarrow> bool \<Rightarrow> (bool \<times> 'v \<times> ('v, 't) M_llist) option" where
  "M_llist_take_remove_node d n is_remove =
     (if n = NULL then Some (False, NULL, d)
      else do {
        d \<leftarrow> (if M_LLIST_SORTED \<in> l_flags d then do {
                 x \<leftarrow> node_get d n;
                 d \<leftarrow> unlink_sorted d n (n_levels x);
                 cnt \<leftarrow> used_levels (l_heads d) (l_levels d);
                 Some (if cnt < l_levels d
                       then d\<lparr>l_levels := cnt, l_heads := mem_realloc NULL (l_heads d) cnt\<rparr> else d)
               } else M_llist_node_unlink d n);
        x \<leftarrow> node_get d n;
        let val = (if \<not> is_remove then n_val x else NULL);
        d \<leftarrow> M_llist_node_destory d n is_remove;
        Some (True, val, d\<lparr>l_elements := size_sub (l_elements d) 1\<rparr>)
      })"

definition M_llist_take_node :: "('v::zero, 't) M_llist \<Rightarrow> addr \<Rightarrow> ('v \<times> ('v, 't) M_llist) option" where
  "M_llist_take_node d n = do {
     (ok, val, d) \<leftarrow> M_llist_take_remove_node d n False;
     Some (if ok then val else NULL, d)
   }"

definition M_llist_remove_node :: "('v::zero, 't) M_llist \<Rightarrow> addr \<Rightarrow> (bool \<times> ('v, 't) M_llist) option" where
  "M_llist_remove_node d n = do {
     (ok, val, d) \<leftarrow> M_llist_take_remove_node d n True;
     Some (ok, d)
   }"

text \<open>The loop of \<open>M_llist_match_op_val_int\<close>; \<open>first\<close> is \<open>NULL\<close> for a sorted list.\<close>

partial_function (option) match_loop ::
  "('v::zero, 't) M_llist \<Rightarrow> 'v \<Rightarrow> M_llist_match_type set \<Rightarrow> M_llist_match_op \<Rightarrow> addr \<Rightarrow> addr \<Rightarrow> nat
     \<Rightarrow> (nat \<times> ('v, 't) M_llist) option" where
  "match_loop d val type match_op first node cnt =
     (if node \<noteq> NULL then do {
        nx \<leftarrow> M_llist_node_next d node;
        x \<leftarrow> node_get d node;
        val_match \<leftarrow> (if M_LLIST_SORTED \<in> l_flags d \<or> M_LLIST_MATCH_PTR \<notin> type
                       then do { c \<leftarrow> l_compare d val (n_val x); Some (c = 0) } else Some False);
        let match = ((val_match \<or> M_LLIST_SORTED \<notin> l_flags d \<and> M_LLIST_MATCH_PTR \<in> type) \<and>
                     (M_LLIST_MATCH_PTR \<in> type \<longrightarrow> val = n_val x));
        (cnt, d) \<leftarrow> (if match then
                       if match_op = M_LLIST_MATCH_OP_REMOVE then do {
                         (ok, d) \<leftarrow> M_llist_remove_node d node;
                         Some (if ok then cnt + 1 else cnt, d)
                       } else Some (cnt + 1, d)
                     else Some (cnt, d));
        if M_LLIST_SORTED \<in> l_flags d \<and> \<not> val_match then Some (cnt, d)
        else if cnt = 1 \<and> M_LLIST_MATCH_ALL \<notin> type \<and> match_op \<noteq> M_LLIST_MATCH_OP_COUNT then Some (cnt, d)
        else if nx = first then Some (cnt, d)
        else match_loop d val type match_op first nx cnt
      } else Some (cnt, d))"

declare match_loop.simps [code]

definition M_llist_match_op_val_int ::
  "('v::zero, 't) M_llist \<Rightarrow> 'v \<Rightarrow> M_llist_match_type set \<Rightarrow> M_llist_match_op
     \<Rightarrow> (nat \<times> ('v, 't) M_llist) option" where
  "M_llist_match_op_val_int d val type match_op =
     (if val = NULL \<or> M_LLIST_MATCH_PTR \<notin> type \<and> l_equality d = None then Some (0, d)
      else do {
        (first, node) \<leftarrow> (if M_LLIST_SORTED \<in> l_flags d
                           then do { n \<leftarrow> M_llist_find d val type; Some (NULL, n) }
                           else Some (l_head d, l_head d));
        match_loop d val type match_op first node 0
      })"

definition M_llist_count ::
  "('v::zero, 't) M_llist \<Rightarrow> 'v \<Rightarrow> M_llist_match_type set \<Rightarrow> (nat \<times> ('v, 't) M_llist) option" where
  "M_llist_count d val type = M_llist_match_op_val_int d val type M_LLIST_MATCH_OP_COUNT"

definition M_llist_remove_val ::
  "('v::zero, 't) M_llist \<Rightarrow> 'v \<Rightarrow> M_llist_match_type set \<Rightarrow> (nat \<times> ('v, 't) M_llist) option" where
  "M_llist_remove_val d val type = M_llist_match_op_val_int d val type M_LLIST_MATCH_OP_REMOVE"

text \<open>The inner loop over \<open>n2\<close> and the outer loop over \<open>n1\<close> of \<open>M_llist_remove_duplicates\<close>.\<close>

partial_function (option) llist_dedup_inner ::
  "('v::zero, 't) M_llist \<Rightarrow> M_llist_match_type set \<Rightarrow> addr \<Rightarrow> addr \<Rightarrow> addr \<Rightarrow> ('v, 't) M_llist option" where
  "llist_dedup_inner d type first n1 n2 =
     (if n2 \<noteq> NULL then do {
        nx \<leftarrow> M_llist_node_next d n2;
        if n1 = n2 then if nx = first then Some d else llist_dedup_inner d type first n1 nx
        else do {
          x \<leftarrow> node_get d n1;
          y \<leftarrow> node_get d n2;
          eq \<leftarrow> (if M_LLIST_MATCH_PTR \<notin> type \<or> M_LLIST_SORTED \<in> l_flags d
                  then l_compare d (n_val x) (n_val y) else Some 1);
          (b, d) \<leftarrow> (if M_LLIST_MATCH_PTR \<notin> type \<and> eq = 0 \<or> M_LLIST_MATCH_PTR \<in> type \<and> n_val x = n_val y
                      then M_llist_remove_node d n2 else Some (True, d));
          if M_LLIST_SORTED \<in> l_flags d \<and> eq \<noteq> 0 then Some d
          else if nx = first then Some d
          else llist_dedup_inner d type first n1 nx
        }
      } else Some d)"

partial_function (option) llist_dedup_outer ::
  "('v::zero, 't) M_llist \<Rightarrow> M_llist_match_type set \<Rightarrow> addr \<Rightarrow> addr \<Rightarrow> ('v, 't) M_llist option" where
  "llist_dedup_outer d type first n1 =
     (if n1 \<noteq> NULL then do {
        n2 \<leftarrow> (if M_LLIST_SORTED \<in> l_flags d then M_llist_node_next d n1 else M_llist_first d);
        d \<leftarrow> llist_dedup_inner d type first n1 n2;
        n1 \<leftarrow> M_llist_node_next d n1;
        if n1 = first then Some d else llist_dedup_outer d type first n1
      } else Some d)"

declare llist_dedup_inner.simps [code] llist_dedup_outer.simps [code]

definition M_llist_remove_duplicates ::
  "('v::zero, 't) M_llist \<Rightarrow> M_llist_match_type set \<Rightarrow> ('v, 't) M_llist option" where
  "M_llist_remove_duplicates d type =
     (if M_LLIST_MATCH_PTR \<notin> type \<and> l_equality d = None then Some d
      else do { first \<leftarrow> M_llist_first d; llist_dedup_outer d type first first })"

section \<open>Moving nodes\<close>

definition M_llist_move_before ::
  "('v, 't) M_llist \<Rightarrow> addr \<Rightarrow> addr \<Rightarrow> (bool \<times> ('v, 't) M_llist) option" where
  "M_llist_move_before d move before =
     (if before = NULL \<or> move = NULL \<or> before = move then Some (False, d)
      else if M_LLIST_SORTED \<in> l_flags d then Some (False, d)
      else do {
        x \<leftarrow> node_get d move;
        if n_next x = before then Some (True, d)
        else do {
          d \<leftarrow> M_llist_node_unlink d move;
          let d = (if l_head d = before then d\<lparr>l_head := move\<rparr> else d);
          y \<leftarrow> node_get d before;
          let pv = n_prev y;
          d \<leftarrow> node_upd d before (\<lambda>y. y\<lparr>n_prev := move\<rparr>);
          d \<leftarrow> node_upd d move (\<lambda>x. x\<lparr>n_next := before, n_prev := pv\<rparr>);
          d \<leftarrow> (if pv \<noteq> NULL then node_upd d pv (\<lambda>y. y\<lparr>n_next := move\<rparr>) else Some d);
          Some (True, d)
        }
      })"

definition M_llist_move_after ::
  "('v, 't) M_llist \<Rightarrow> addr \<Rightarrow> addr \<Rightarrow> (bool \<times> ('v, 't) M_llist) option" where
  "M_llist_move_after d move after =
     (if after = NULL \<or> move = NULL \<or> after = move then Some (False, d)
      else if M_LLIST_SORTED \<in> l_flags d then Some (False, d)
      else do {
        x \<leftarrow> node_get d move;
        if n_prev x = after then Some (True, d)
        else do {
          d \<leftarrow> M_llist_node_unlink d move;
          let d = (if l_tail d = after then d\<lparr>l_tail := move\<rparr> else d);
          y \<leftarrow> node_get d after;
          let nx = n_next y;
          d \<leftarrow> node_upd d after (\<lambda>y. y\<lparr>n_next := move\<rparr>);
          d \<leftarrow> node_upd d move (\<lambda>x. x\<lparr>n_prev := after, n_next := nx\<rparr>);
          d \<leftarrow> (if nx \<noteq> NULL then node_upd d nx (\<lambda>y. y\<lparr>n_prev := move\<rparr>) else Some d);
          Some (True, d)
        }
      })"

definition M_llist_set_first :: "('v, 't) M_llist \<Rightarrow> addr \<Rightarrow> ('v, 't) M_llist option" where
  "M_llist_set_first d n =
     (if n = NULL \<or> M_LLIST_SORTED \<in> l_flags d \<or> M_llist_len d \<le> 1 then Some d
      else if M_LLIST_CIRCULAR \<in> l_flags d then do {
        x \<leftarrow> node_get d n;
        Some (d\<lparr>l_tail := n_prev x, l_head := n\<rparr>)
      }
      else do { (b, d) \<leftarrow> M_llist_move_before d n (l_head d); Some d })"

definition M_llist_set_last :: "('v, 't) M_llist \<Rightarrow> addr \<Rightarrow> ('v, 't) M_llist option" where
  "M_llist_set_last d n =
     (if n = NULL \<or> M_LLIST_SORTED \<in> l_flags d \<or> M_llist_len d \<le> 1 then Some d
      else if M_LLIST_CIRCULAR \<in> l_flags d then do {
        x \<leftarrow> node_get d n;
        Some (d\<lparr>l_head := n_next x, l_tail := n\<rparr>)
      }
      else do { (b, d) \<leftarrow> M_llist_move_after d n (l_tail d); Some d })"

section \<open>Whole lists\<close>

text \<open>\<open>M_rand_create (0)\<close> takes its seed from the environment, \<open>env_seed\<close>.\<close>

definition M_llist_create ::
  "M_uint64 \<Rightarrow> ('v, 't) M_llist_callbacks option \<Rightarrow> M_llist_flags set \<Rightarrow> ('v, 't::zero) M_llist option" where
  "M_llist_create env_seed callbacks fl =
     (if M_LLIST_SORTED \<in> fl \<and> M_LLIST_CIRCULAR \<in> fl then None
      else
        let d = \<lparr>l_equality = None, l_equality_thunk = NULL,
                 l_duplicate_insert = M_llist_duplicate_func_default,
                 l_duplicate_copy = M_llist_duplicate_func_default, l_flags = fl, l_elements = 0,
                 l_heads = [], l_levels = 0, l_rand_state = \<lparr>s0 = 0, s1 = 0, s2 = 0, s3 = 0\<rparr>,
                 l_head = NULL, l_tail = NULL, nodes = (\<lambda>_. None), fresh = 1, l_freed = []\<rparr>;
            d = (if M_LLIST_SORTED \<in> fl
                 then d\<lparr>l_levels := M_LLIST_START_LEVEL, l_heads := replicate M_LLIST_START_LEVEL NULL,
                        l_rand_state := M_rand_create env_seed 0\<rparr> else d)
        in Some (case callbacks of
             None \<Rightarrow> d
           | Some cb \<Rightarrow>
               d\<lparr>l_equality := (case lcb_equality cb of None \<Rightarrow> l_equality d | Some f \<Rightarrow> Some f),
                 l_duplicate_insert := (case lcb_duplicate_insert cb of None \<Rightarrow> l_duplicate_insert d | Some f \<Rightarrow> f),
                 l_duplicate_copy := (case lcb_duplicate_copy cb of None \<Rightarrow> l_duplicate_copy d | Some f \<Rightarrow> f)\<rparr>))"

definition M_llist_change_sorting ::
  "('v, 't::zero) M_llist \<Rightarrow> ('v, 't) M_sort_compar_t option \<Rightarrow> 't \<Rightarrow> bool \<times> ('v, 't) M_llist" where
  "M_llist_change_sorting d equality_cb equality_thunk =
     (if M_LLIST_SORTED \<notin> l_flags d \<or> M_llist_len d > 0 then (False, d)
      else if equality_cb = None \<and> equality_thunk = NULL then (False, d)
      else (True, d\<lparr>l_equality := (if equality_cb \<noteq> None then equality_cb else l_equality d),
                    l_equality_thunk := equality_thunk\<rparr>))"

partial_function (option) llist_destroy_loop ::
  "('v, 't) M_llist \<Rightarrow> bool \<Rightarrow> addr \<Rightarrow> addr \<Rightarrow> ('v, 't) M_llist option" where
  "llist_destroy_loop d destroy_vals first node =
     (if node \<noteq> NULL then do {
        nx \<leftarrow> M_llist_node_next d node;
        d \<leftarrow> M_llist_node_destory d node destroy_vals;
        if nx = first then Some d else llist_destroy_loop d destroy_vals first nx
      } else Some d)"

declare llist_destroy_loop.simps [code]

text \<open>The result is the list as \<open>M_free\<close> finds it, with what is left in its store.\<close>

definition M_llist_destroy :: "('v, 't) M_llist \<Rightarrow> bool \<Rightarrow> ('v, 't) M_llist option" where
  "M_llist_destroy d destroy_vals = do {
     first \<leftarrow> M_llist_first d;
     llist_destroy_loop d destroy_vals first first
   }"

definition llist_callbacks :: "('v, 't) M_llist \<Rightarrow> ('v, 't) M_llist_callbacks" where
  "llist_callbacks d =
     \<lparr>lcb_equality = l_equality d, lcb_duplicate_insert = Some (l_duplicate_insert d),
      lcb_duplicate_copy = Some (l_duplicate_copy d)\<rparr>"

partial_function (option) llist_duplicate_loop ::
  "('v, 't) M_llist \<Rightarrow> ('v, 't) M_llist \<Rightarrow> addr \<Rightarrow> addr \<Rightarrow> ('v, 't) M_llist option" where
  "llist_duplicate_loop d dupd first node =
     (if node \<noteq> NULL then do {
        x \<leftarrow> node_get d node;
        let (dupnode, dupd) = M_llist_node_create dupd (n_val x) {M_LLIST_INSERT_DUP};
        (b, dupd) \<leftarrow> M_llist_insert_node dupd dupnode;
        nx \<leftarrow> M_llist_node_next d node;
        if nx = first then Some dupd else llist_duplicate_loop d dupd first nx
      } else Some dupd)"

declare llist_duplicate_loop.simps [code]

text \<open>The flags of a list that exists are not both set, so the creation does not fail.\<close>

definition M_llist_duplicate :: "M_uint64 \<Rightarrow> ('v, 't::zero) M_llist \<Rightarrow> ('v, 't) M_llist option" where
  "M_llist_duplicate env_seed d = do {
     dupd \<leftarrow> M_llist_create env_seed (Some (llist_callbacks d)) (l_flags d);
     first \<leftarrow> M_llist_first d;
     llist_duplicate_loop d dupd first first
   }"

partial_function (option) llist_merge_loop ::
  "('v::zero, 't) M_llist \<Rightarrow> ('v, 't) M_llist \<Rightarrow> bool \<Rightarrow> M_llist_match_type set \<Rightarrow> addr \<Rightarrow> addr
     \<Rightarrow> (('v, 't) M_llist \<times> ('v, 't) M_llist) option" where
  "llist_merge_loop dest src include_duplicates type first node =
     (if node \<noteq> NULL then do {
        x \<leftarrow> node_get src node;
        dup \<leftarrow> (if include_duplicates then Some False
                 else do { n \<leftarrow> M_llist_find dest (n_val x) type; Some (n \<noteq> NULL) });
        (dest, src) \<leftarrow>
          (if dup then Some (dest, src)
           else do {
             let (new, dest) = M_llist_node_create dest (n_val x) {M_LLIST_INSERT_NODUP};
             (b, dest) \<leftarrow> M_llist_insert_node dest new;
             src \<leftarrow> node_upd src node (\<lambda>x. x\<lparr>n_val := NULL\<rparr>);
             Some (dest, src)
           });
        nx \<leftarrow> M_llist_node_next src node;
        if nx = first then Some (dest, src)
        else llist_merge_loop dest src include_duplicates type first nx
      } else Some (dest, src))"

declare llist_merge_loop.simps [code]

text \<open>Both lists, the source as \<open>M_llist_destroy\<close> leaves it.\<close>

definition M_llist_merge ::
  "('v::zero, 't) M_llist \<Rightarrow> ('v, 't) M_llist \<Rightarrow> bool \<Rightarrow> M_llist_match_type set
     \<Rightarrow> (('v, 't) M_llist \<times> ('v, 't) M_llist) option" where
  "M_llist_merge dest src include_duplicates type = do {
     first \<leftarrow> M_llist_first src;
     (dest, src) \<leftarrow> llist_merge_loop dest src include_duplicates type first first;
     src \<leftarrow> M_llist_destroy src True;
     Some (dest, src)
   }"

end
