(* ===== verification/M_LList_Ok.thy ===== *)
theory M_LList_Ok
  imports M_LList
begin

text \<open>
  The well-formedness of an unsorted linked list, and what the pointer operations do to the
  sequence of its nodes.

  \<open>nx c ns n\<close> is the node after \<open>n\<close> in the sequence \<open>ns\<close>, where \<open>c\<close> says whether the sequence
  is closed to a ring; the node before \<open>n\<close> is the one after it in the reversed sequence, so each
  fact about the forward links also gives the one about the backward links.
\<close>

section \<open>Sequences of nodes\<close>

definition first_of :: "addr list \<Rightarrow> addr" where
  "first_of ns = (case ns of [] \<Rightarrow> NULL | n # _ \<Rightarrow> n)"

lemma first_of_simps [simp]: "first_of [] = 0" "first_of (n # ns) = n"
  by (simp_all add: first_of_def)

lemma first_of_append: "first_of (xs @ ys) = (if xs = [] then first_of ys else first_of xs)"
  by (cases xs) simp_all

lemma first_of_rev: "first_of (rev ns) = (if ns = [] then 0 else last ns)"
  by (induction ns rule: rev_induct) simp_all

lemma first_of_in [simp]: "ns \<noteq> [] \<Longrightarrow> first_of ns \<in> set ns"
  by (cases ns) simp_all

lemma first_of_eq_0: "0 \<notin> set ns \<Longrightarrow> first_of ns = 0 \<longleftrightarrow> ns = []"
  by (cases ns) auto

fun succ_of :: "addr \<Rightarrow> addr list \<Rightarrow> addr \<Rightarrow> addr" where
  "succ_of q [] n = q"
| "succ_of q (m # ms) n = (if n = m then (if ms = [] then q else hd ms) else succ_of q ms n)"

definition nx :: "bool \<Rightarrow> addr list \<Rightarrow> addr \<Rightarrow> addr" where
  "nx c ns n = succ_of (if c then first_of ns else 0) ns n"

lemma succ_of_split:
  "n \<notin> set xs \<Longrightarrow> succ_of q (xs @ n # ys) n = (if ys = [] then q else hd ys)"
  by (induction xs) simp_all

lemma nx_split:
  "n \<notin> set xs \<Longrightarrow>
   nx c (xs @ n # ys) n = (if ys = [] then if c then first_of (xs @ [n]) else 0 else hd ys)"
  by (simp add: nx_def succ_of_split first_of_append)

lemma nx_in:
  assumes "distinct ns" "n \<in> set ns"
  shows "nx c ns n \<in> set ns \<or> nx c ns n = 0"
proof -
  from assms(2) obtain xs ys where "ns = xs @ n # ys" by (auto simp: in_set_conv_decomp)
  with assms(1) show ?thesis using first_of_in [of "xs @ [n]"] by (cases ys) (auto simp: nx_split)
qed

text \<open>The node before is the inverse of the node after.\<close>

lemma nx_rev:
  assumes "distinct ns" "0 \<notin> set ns" "n \<in> set ns" "nx c ns n = m" "m \<noteq> 0"
  shows "nx c (rev ns) m = n"
proof -
  from assms(3) obtain xs ys where ns: "ns = xs @ n # ys" by (auto simp: in_set_conv_decomp)
  show ?thesis
  proof (cases ys)
    case (Cons y zs)
    then have "m = y" using assms ns by (simp add: nx_split)
    moreover have "rev ns = rev zs @ y # n # rev xs" by (simp add: ns Cons)
    ultimately show ?thesis using assms(1) by (simp add: nx_split ns Cons)
  next
    case Nil
    with assms ns have m: "c" "m = first_of (xs @ [n])" by (auto simp: nx_split split: if_splits)
    show ?thesis
    proof (cases xs)
      case Nil
      with m ns \<open>ys = []\<close> show ?thesis using nx_split [of n "[]" c "[]"] by simp
    next
      case (Cons x zs)
      then have "m = x" "rev ns = (n # rev zs) @ x # []" using m \<open>ys = []\<close> ns by simp_all
      then show ?thesis using assms(1) m(1) ns Cons nx_split [of x "n # rev zs" c "[]"] by simp
    qed
  qed
qed

lemma nx_rev_iff:
  assumes "distinct ns" "0 \<notin> set ns" "n \<in> set ns" "m \<in> set ns"
  shows "nx c (rev ns) m = n \<longleftrightarrow> nx c ns n = m"
proof
  assume "nx c ns n = m"
  then show "nx c (rev ns) m = n" using nx_rev assms by metis
next
  assume "nx c (rev ns) m = n"
  moreover have "n \<noteq> 0" using assms by metis
  ultimately show "nx c ns n = m" using nx_rev [of "rev ns" m c n] assms by simp
qed

text \<open>Removing a node, and inserting one after or before another.\<close>

lemma nx_remove:
  assumes "distinct (xs @ n # ys)" "m \<in> set (xs @ ys)" "n \<noteq> 0"
  shows "nx c (xs @ ys) m =
    (if nx c (xs @ n # ys) m = n then nx c (xs @ n # ys) n else nx c (xs @ n # ys) m)"
proof (cases "m \<in> set xs")
  case True
  then obtain us vs where xs: "xs = us @ m # vs" by (auto simp: in_set_conv_decomp)
  show ?thesis
  proof (cases vs)
    case Nil
    then show ?thesis using assms(1) nx_split [of m us c "n # ys"] nx_split [of m us c ys]
        nx_split [of n "us @ [m]" c ys] by (auto simp: xs first_of_append)
  next
    case (Cons v ws)
    then show ?thesis using assms(1) nx_split [of m us c "v # ws @ n # ys"]
        nx_split [of m us c "v # ws @ ys"] by (auto simp: xs)
  qed
next
  case False
  then obtain us vs where ys: "ys = us @ m # vs" using assms(2) by (auto simp: in_set_conv_decomp)
  show ?thesis
  proof (cases vs)
    case Nil
    have "first_of ((xs @ us) @ [m]) = first_of (us @ [m])" if "xs = []" using that by simp
    then show ?thesis using assms(1,3) Nil nx_split [of m "xs @ n # us" c "[]"]
        nx_split [of m "xs @ us" c "[]"] nx_split [of n xs c "us @ [m]"]
      by (cases xs; cases us) (auto simp: ys first_of_append)
  next
    case (Cons v ws)
    then show ?thesis using assms(1) nx_split [of m "xs @ n # us" c "v # ws"]
        nx_split [of m "xs @ us" c "v # ws"] by (auto simp: ys)
  qed
qed


lemma nx_inj:
  assumes "distinct ns" "0 \<notin> set ns" "n \<in> set ns" "m \<in> set ns" "nx c ns n = nx c ns m" "nx c ns n \<noteq> 0"
  shows "n = m"
  using nx_rev [OF assms(1-3) refl assms(6)] nx_rev [OF assms(1,2,4) refl] assms(5,6) by simp

lemma nx_insert_after:
  assumes "distinct (xs @ b # a # ys)" "0 \<notin> set (xs @ b # a # ys)" "m \<in> set (xs @ b # a # ys)"
  shows "nx c (xs @ b # a # ys) m =
    (if m = b then a else if m = a then nx c (xs @ b # ys) b else nx c (xs @ b # ys) m)"
proof -
  have b: "nx c (xs @ b # a # ys) b = a" using assms(1) by (simp add: nx_split)
  have r: "nx c (xs @ b # ys) m' = (if nx c (xs @ b # a # ys) m' = a then nx c (xs @ b # a # ys) a
      else nx c (xs @ b # a # ys) m')" if "m' \<in> set (xs @ b # ys)" for m'
    using nx_remove [of "xs @ [b]" a ys m' c] assms that by simp
  have "nx c (xs @ b # a # ys) m \<noteq> a" if "m \<noteq> b"
    using nx_inj [of "xs @ b # a # ys" m b c] assms that b by auto
  then show ?thesis using r [of b] r [of m] assms(3) b by auto
qed

lemma nx_insert_before:
  assumes "distinct (xs @ a # b # ys)" "0 \<notin> set (xs @ a # b # ys)" "m \<in> set (xs @ a # b # ys)"
  shows "nx c (xs @ a # b # ys) m =
    (if m = a then b else if nx c (xs @ b # ys) m = b then a else nx c (xs @ b # ys) m)"
proof -
  have a: "nx c (xs @ a # b # ys) a = b" using assms(1) by (simp add: nx_split)
  have r: "nx c (xs @ b # ys) m = (if nx c (xs @ a # b # ys) m = a then nx c (xs @ a # b # ys) a
      else nx c (xs @ a # b # ys) m)" if "m \<noteq> a"
    using nx_remove [of xs a "b # ys" m c] assms that by auto
  have "nx c (xs @ a # b # ys) m \<noteq> b" if "m \<noteq> a"
    using nx_inj [of "xs @ a # b # ys" m a c] assms that a by auto
  then show ?thesis using r a by auto
qed

section \<open>Well-formed lists\<close>

text \<open>
  \<open>linked d ns\<close>: the nodes \<open>ns\<close>, in this order, are the unsorted list \<open>d\<close>. \<open>llist_ok d ns\<close>: they
  are also all the nodes there are, and they are counted.
\<close>

abbreviation circular :: "('v, 't) M_llist \<Rightarrow> bool" where
  "circular d \<equiv> M_LLIST_CIRCULAR \<in> l_flags d"

definition links :: "bool \<Rightarrow> (addr \<Rightarrow> 'v M_llist_node option) \<Rightarrow> addr list \<Rightarrow> addr list \<Rightarrow> bool" where
  "links c N ns ms \<longleftrightarrow> (\<forall>n\<in>set ms. \<exists>x. N n = Some x \<and> n_next x = nx c ns n \<and> n_prev x = nx c (rev ns) n)"

definition linked :: "('v, 't) M_llist \<Rightarrow> addr list \<Rightarrow> bool" where
  "linked d ns \<longleftrightarrow>
     M_LLIST_SORTED \<notin> l_flags d \<and> distinct ns \<and> 0 \<notin> set ns \<and>
     l_head d = first_of ns \<and> l_tail d = first_of (rev ns) \<and> links (circular d) (nodes d) ns ns"

definition llist_ok :: "('v, 't) M_llist \<Rightarrow> addr list \<Rightarrow> bool" where
  "llist_ok d ns \<longleftrightarrow>
     linked d ns \<and> dom (nodes d) = set ns \<and> (\<forall>n\<in>set ns. n < fresh d) \<and> 0 < fresh d \<and>
     l_elements d = length ns \<and> length ns < SIZE_MOD"

text \<open>The values of a sequence of nodes.\<close>

definition lval :: "('v, 't) M_llist \<Rightarrow> addr \<Rightarrow> 'v" where
  "lval d n = n_val (the (nodes d n))"

abbreviation lvals :: "('v, 't) M_llist \<Rightarrow> addr list \<Rightarrow> 'v list" where
  "lvals d \<equiv> map (lval d)"

text \<open>What no operation on a list changes: the callbacks and the flags.\<close>

definition same_cfg :: "('v, 't) M_llist \<Rightarrow> ('v, 't) M_llist \<Rightarrow> bool" where
  "same_cfg d d' \<longleftrightarrow>
     l_equality d' = l_equality d \<and> l_equality_thunk d' = l_equality_thunk d \<and>
     l_duplicate_insert d' = l_duplicate_insert d \<and> l_duplicate_copy d' = l_duplicate_copy d \<and>
     l_flags d' = l_flags d"

lemma linked_node:
  "linked d ns \<Longrightarrow> n \<in> set ns \<Longrightarrow>
   \<exists>x. nodes d n = Some x \<and> n_next x = nx (circular d) ns n \<and> n_prev x = nx (circular d) (rev ns) n"
  by (auto simp: linked_def links_def)

lemma node_get_Some [simp]: "node_get d n = Some x \<longleftrightarrow> n \<noteq> 0 \<and> nodes d n = Some x"
  by (auto simp: node_get_def)

lemma node_upd_Some: "n \<noteq> 0 \<Longrightarrow> nodes d n = Some x \<Longrightarrow> node_upd d n f = Some (d\<lparr>nodes := (nodes d)(n \<mapsto> f x)\<rparr>)"
  by (simp add: node_upd_def node_get_def)

text \<open>The effect of the assignments to \<open>prev\<close> and \<open>next\<close> of a neighbour that may be null.\<close>

definition put_prev :: "addr \<Rightarrow> addr \<Rightarrow> (addr \<Rightarrow> 'v M_llist_node option) \<Rightarrow> addr \<Rightarrow> 'v M_llist_node option" where
  "put_prev n p N = N(n := map_option (\<lambda>x. x\<lparr>n_prev := p\<rparr>) (N n))"

definition put_next :: "addr \<Rightarrow> addr \<Rightarrow> (addr \<Rightarrow> 'v M_llist_node option) \<Rightarrow> addr \<Rightarrow> 'v M_llist_node option" where
  "put_next n p N = N(n := map_option (\<lambda>x. x\<lparr>n_next := p\<rparr>) (N n))"

lemma put_prev_app: "put_prev n p N m = (if m = n then map_option (\<lambda>x. x\<lparr>n_prev := p\<rparr>) (N m) else N m)"
  by (simp add: put_prev_def)

lemma put_next_app: "put_next n p N m = (if m = n then map_option (\<lambda>x. x\<lparr>n_next := p\<rparr>) (N m) else N m)"
  by (simp add: put_next_def)

lemma put_null [simp]: "N 0 = None \<Longrightarrow> put_prev 0 p N = N" "N 0 = None \<Longrightarrow> put_next 0 p N = N"
  by (auto simp: put_prev_def put_next_def)

lemma put_None [simp]:
  "put_prev n p N m = None \<longleftrightarrow> N m = None" "put_next n p N m = None \<longleftrightarrow> N m = None"
  by (auto simp: put_prev_app put_next_app)

lemma put_ex [simp]:
  "(\<exists>y. put_prev n p N m = Some y) \<longleftrightarrow> (\<exists>y. N m = Some y)"
  "(\<exists>y. put_next n p N m = Some y) \<longleftrightarrow> (\<exists>y. N m = Some y)"
  by (auto simp: put_prev_app put_next_app)

lemma node_upd_prev: "n \<noteq> 0 \<Longrightarrow> nodes d n \<noteq> None \<Longrightarrow>
    node_upd d n (\<lambda>x. x\<lparr>n_prev := p\<rparr>) = Some (d\<lparr>nodes := put_prev n p (nodes d)\<rparr>)"
  by (auto simp: node_upd_Some put_prev_def)

lemma node_upd_next: "n \<noteq> 0 \<Longrightarrow> nodes d n \<noteq> None \<Longrightarrow>
    node_upd d n (\<lambda>x. x\<lparr>n_next := p\<rparr>) = Some (d\<lparr>nodes := put_next n p (nodes d)\<rparr>)"
  by (auto simp: node_upd_Some put_next_def)

lemma opt_upd_prev:
  "nodes d 0 = None \<Longrightarrow> (n \<noteq> 0 \<Longrightarrow> nodes d n \<noteq> None) \<Longrightarrow>
   (if 0 < n then node_upd d n (\<lambda>x. x\<lparr>n_prev := p\<rparr>) else Some d) = Some (d\<lparr>nodes := put_prev n p (nodes d)\<rparr>)"
  by (cases "n = 0") (simp_all add: node_upd_prev)

lemma opt_upd_next:
  "nodes d 0 = None \<Longrightarrow> (n \<noteq> 0 \<Longrightarrow> nodes d n \<noteq> None) \<Longrightarrow>
   (if 0 < n then node_upd d n (\<lambda>x. x\<lparr>n_next := p\<rparr>) else Some d) = Some (d\<lparr>nodes := put_next n p (nodes d)\<rparr>)"
  by (cases "n = 0") (simp_all add: node_upd_next)

text \<open>What relinking keeps: the values, the nodes, the counters and the callbacks.\<close>

definition relinked :: "('v, 't) M_llist \<Rightarrow> ('v, 't) M_llist \<Rightarrow> bool" where
  "relinked d d' \<longleftrightarrow>
     same_cfg d d' \<and> fresh d' = fresh d \<and> l_elements d' = l_elements d \<and> l_freed d' = l_freed d \<and>
     (\<forall>m. map_option n_val (nodes d' m) = map_option n_val (nodes d m))"

lemma relinked_lval: "relinked d d' \<Longrightarrow> lval d' = lval d"
proof
  fix n assume "relinked d d'"
  then have "map_option n_val (nodes d' n) = map_option n_val (nodes d n)" by (simp add: relinked_def)
  then show "lval d' n = lval d n" by (cases "nodes d n"; cases "nodes d' n") (auto simp: lval_def)
qed

lemma relinked_dom: "relinked d d' \<Longrightarrow> dom (nodes d') = dom (nodes d)"
  unfolding relinked_def dom_def by (metis map_option_is_None)

lemma linked_nx_dom:
  assumes "linked d ns" "n \<in> set ns" "nx c ns n \<noteq> 0"
  shows "nodes d (nx c ns n) \<noteq> None"
proof -
  have "nx c ns n \<in> set ns" using nx_in [of ns n c] assms by (auto simp: linked_def)
  then show ?thesis using linked_node [OF assms(1)] by fastforce
qed

lemma linked_pv_dom:
  assumes "linked d ns" "n \<in> set ns" "nx c (rev ns) n \<noteq> 0"
  shows "nodes d (nx c (rev ns) n) \<noteq> None"
proof -
  have "nx c (rev ns) n \<in> set ns" using nx_in [of "rev ns" n c] assms by (auto simp: linked_def)
  then show ?thesis using linked_node [OF assms(1)] by fastforce
qed

lemma nx_neq_self:
  assumes "distinct (xs @ n # ys)" "n \<noteq> 0" "c \<longrightarrow> xs @ ys \<noteq> []"
  shows "nx c (xs @ n # ys) n \<noteq> n"
proof -
  have "nx c (xs @ n # ys) n = (if ys = [] then if c then first_of (xs @ [n]) else 0 else hd ys)"
    using assms(1) by (intro nx_split) simp
  then show ?thesis using assms by (cases ys; cases xs) auto
qed

lemma unlink_ok:
  assumes "linked d (xs @ n # ys)" "nodes d 0 = None" "circular d \<longrightarrow> xs @ ys \<noteq> []"
  shows "\<exists>d'. M_llist_node_unlink d n = Some d' \<and> linked d' (xs @ ys) \<and> relinked d d' \<and>
    (\<forall>m. m \<notin> set (xs @ n # ys) \<longrightarrow> nodes d' m = nodes d m)"
proof -
  let ?ns = "xs @ n # ys" and ?c = "circular d"
  define a p where "a = nx ?c ?ns n" and "p = nx ?c (rev ?ns) n"
  have ns: "distinct ?ns" "0 \<notin> set ?ns" "M_LLIST_SORTED \<notin> l_flags d" "n \<noteq> 0"
    using assms(1) by (auto simp: linked_def)
  obtain x where x: "nodes d n = Some x" "n_next x = a" "n_prev x = p"
    using linked_node [OF assms(1), of n] by (auto simp: a_def p_def)
  have dom: "a \<noteq> 0 \<Longrightarrow> nodes d a \<noteq> None" "p \<noteq> 0 \<Longrightarrow> nodes d p \<noteq> None"
    using linked_nx_dom [OF assms(1), of n ?c] linked_pv_dom [OF assms(1), of n ?c] by (auto simp: a_def p_def)
  have neq: "a \<noteq> n" "p \<noteq> n" using nx_neq_self [of xs n ys ?c] nx_neq_self [of "rev ys" n "rev xs" ?c] ns assms(3)
    by (auto simp: a_def p_def)
  define N where "N = put_next p a (put_prev a p (nodes d))"
  have Nn: "N n = Some x" using neq x by (simp add: N_def put_next_app put_prev_app)
  define d' where "d' = d\<lparr>nodes := N(n \<mapsto> x\<lparr>n_next := 0, n_prev := 0\<rparr>),
     l_head := (if n = l_head d then a else l_head d), l_tail := (if n = l_tail d then p else l_tail d)\<rparr>"
  have step: "M_llist_node_unlink d n = Some d'"
    using ns x dom assms(2) Nn
    by (auto simp: M_llist_node_unlink_def node_get_def opt_upd_prev opt_upd_next put_prev_app node_upd_Some
        N_def [symmetric] d'_def)
  have N: "N m = map_option (\<lambda>y. y\<lparr>n_next := if m = p then a else n_next y, n_prev := if m = a then p else n_prev y\<rparr>) (nodes d m)" for m
    by (cases "nodes d m") (auto simp: N_def put_next_app put_prev_app)
  have "links ?c (nodes d') (xs @ ys) (xs @ ys)"
    unfolding links_def
  proof
    fix m assume m: "m \<in> set (xs @ ys)"
    then have "m \<in> set ?ns" "m \<noteq> n" using ns by auto
    obtain y where y: "nodes d m = Some y" "n_next y = nx ?c ?ns m" "n_prev y = nx ?c (rev ?ns) m"
      using linked_node [OF assms(1) \<open>m \<in> set ?ns\<close>] by auto
    have "nx ?c (xs @ ys) m = (if m = p then a else n_next y)"
      using nx_remove [of xs n ys m ?c] nx_rev_iff [of ?ns m n ?c] ns m \<open>m \<in> set ?ns\<close> y by (auto simp: a_def p_def)
    moreover have "nx ?c (rev (xs @ ys)) m = (if m = a then p else n_prev y)"
      using nx_remove [of "rev ys" n "rev xs" m ?c] nx_rev_iff [of ?ns n m ?c] ns m \<open>m \<in> set ?ns\<close> y
      by (auto simp: a_def p_def Int_commute)
    ultimately show "\<exists>x. nodes d' m = Some x \<and> n_next x = nx ?c (xs @ ys) m \<and> n_prev x = nx ?c (rev (xs @ ys)) m"
      using y \<open>m \<noteq> n\<close> by (simp add: d'_def N)
  qed
  moreover have "l_head d' = first_of (xs @ ys)" "l_tail d' = first_of (rev (xs @ ys))"
    using assms(1,3) ns
    by (auto simp: d'_def linked_def a_def p_def nx_split first_of_append first_of_def hd_rev split: list.splits)
  ultimately have "linked d' (xs @ ys)" using ns by (auto simp: linked_def d'_def)
  moreover have "map_option n_val (nodes d' m) = map_option n_val (nodes d m)" for m
    using x by (cases "nodes d m") (auto simp: d'_def N)
  then have "relinked d d'" by (simp add: relinked_def same_cfg_def d'_def)
  moreover have "nodes d' m = nodes d m" if "m \<notin> set ?ns" for m
  proof -
    have "a \<noteq> 0 \<Longrightarrow> a \<in> set ?ns" "p \<noteq> 0 \<Longrightarrow> p \<in> set ?ns"
      using nx_in [of ?ns n ?c] nx_in [of "rev ?ns" n ?c] ns by (auto simp: a_def p_def)
    then show ?thesis using that assms(2) by (cases "m = 0") (auto simp: d'_def N_def put_next_app put_prev_app)
  qed
  ultimately show ?thesis using step by blast
qed

section \<open>Linking a node in\<close>

lemma links_insert_before:
  assumes "distinct (xs @ n # b # ys)" "0 \<notin> set (xs @ n # b # ys)"
    "links c N (xs @ b # ys) (xs @ b # ys)" "p = nx c (rev (xs @ b # ys)) b"
    "N' n = Some x" "n_next x = b" "n_prev x = p"
    "\<And>m. m \<in> set (xs @ b # ys) \<Longrightarrow> N' m = map_option (\<lambda>y. y\<lparr>n_next := if m = p then n else n_next y,
       n_prev := if m = b then n else n_prev y\<rparr>) (N m)"
  shows "links c N' (xs @ n # b # ys) (xs @ n # b # ys)"
  unfolding links_def
proof
  let ?ns = "xs @ b # ys" and ?ms = "xs @ n # b # ys"
  fix m assume m: "m \<in> set ?ms"
  have nb: "nx c ?ms m = (if m = n then b else if nx c ?ns m = b then n else nx c ?ns m)"
    using nx_insert_before [of xs n b ys m c] assms(1,2) m by blast
  have "nx c (rev ys @ b # n # rev xs) m =
      (if m = b then n else if m = n then nx c (rev ys @ b # rev xs) b else nx c (rev ys @ b # rev xs) m)"
    by (rule nx_insert_after) (use assms(1,2) m in auto)
  then have pb: "nx c (rev ?ms) m = (if m = b then n else if m = n then p else nx c (rev ?ns) m)"
    by (simp add: assms(4))
  show "\<exists>x. N' m = Some x \<and> n_next x = nx c ?ms m \<and> n_prev x = nx c (rev ?ms) m"
  proof (cases "m = n")
    case True
    then show ?thesis using nb pb assms(1,5-7) by auto
  next
    case False
    then have m': "m \<in> set ?ns" using m by auto
    then obtain y where "N m = Some y" "n_next y = nx c ?ns m" "n_prev y = nx c (rev ?ns) m"
      using assms(3) by (auto simp: links_def)
    moreover have "nx c ?ns m = b \<longleftrightarrow> m = p"
      using nx_rev_iff [of ?ns m b c] assms(1,2,4) m' by auto
    ultimately show ?thesis using nb pb assms(8) [OF m'] False by auto
  qed
qed

lemma links_insert_after:
  assumes "distinct (xs @ b # n # ys)" "0 \<notin> set (xs @ b # n # ys)"
    "links c N (xs @ b # ys) (xs @ b # ys)" "a = nx c (xs @ b # ys) b"
    "N' n = Some x" "n_next x = a" "n_prev x = b"
    "\<And>m. m \<in> set (xs @ b # ys) \<Longrightarrow> N' m = map_option (\<lambda>y. y\<lparr>n_next := if m = b then n else n_next y,
       n_prev := if m = a then n else n_prev y\<rparr>) (N m)"
  shows "links c N' (xs @ b # n # ys) (xs @ b # n # ys)"
  unfolding links_def
proof
  let ?ns = "xs @ b # ys" and ?ms = "xs @ b # n # ys"
  fix m assume m: "m \<in> set ?ms"
  have nb: "nx c ?ms m = (if m = b then n else if m = n then a else nx c ?ns m)"
    using nx_insert_after [of xs b n ys m c] assms(1,2,4) m by blast
  have "nx c (rev ys @ n # b # rev xs) m =
      (if m = n then b else if nx c (rev ys @ b # rev xs) m = b then n else nx c (rev ys @ b # rev xs) m)"
    by (rule nx_insert_before) (use assms(1,2) m in auto)
  then have pb: "nx c (rev ?ms) m = (if m = n then b else if nx c (rev ?ns) m = b then n else nx c (rev ?ns) m)"
    by simp
  show "\<exists>x. N' m = Some x \<and> n_next x = nx c ?ms m \<and> n_prev x = nx c (rev ?ms) m"
  proof (cases "m = n")
    case True
    then show ?thesis using nb pb assms(1,5-7) by auto
  next
    case False
    then have m': "m \<in> set ?ns" using m by auto
    then obtain y where "N m = Some y" "n_next y = nx c ?ns m" "n_prev y = nx c (rev ?ns) m"
      using assms(3) by (auto simp: links_def)
    moreover have "nx c (rev ?ns) m = b \<longleftrightarrow> m = a"
      using nx_rev_iff [of ?ns b m c] assms(1,2,4) m' by auto
    ultimately show ?thesis using nb pb assms(8) [OF m'] False by auto
  qed
qed

lemma relinked_trans: "relinked d d' \<Longrightarrow> relinked d' d'' \<Longrightarrow> relinked d d''"
  by (simp add: relinked_def same_cfg_def)

text \<open>\<open>l_plus d'\<close> is \<open>d'\<close> with one more element counted.\<close>

abbreviation l_plus :: "('v, 't) M_llist \<Rightarrow> ('v, 't) M_llist" where
  "l_plus d \<equiv> d\<lparr>l_elements := l_elements d + 1\<rparr>"

lemma insert_unsorted_after:
  assumes "linked d (xs @ b # ys)" "nodes d 0 = None" "n \<noteq> 0" "n \<notin> set (xs @ b # ys)" "nodes d n = Some x"
  shows "\<exists>d'. M_llist_insert_unsorted d n b = Some (True, l_plus d') \<and> linked d' (xs @ b # n # ys) \<and> relinked d d'"
proof -
  let ?ns = "xs @ b # ys" and ?c = "circular d"
  define a where "a = nx ?c ?ns b"
  have ns: "distinct ?ns" "0 \<notin> set ?ns" "M_LLIST_SORTED \<notin> l_flags d" "b \<noteq> 0" "b \<noteq> n"
    "links ?c (nodes d) ?ns ?ns"
    using assms(1,4) by (auto simp: linked_def)
  obtain y where y: "nodes d b = Some y" "n_next y = a" "n_prev y = nx ?c (rev ?ns) b"
    using linked_node [OF assms(1), of b] by (auto simp: a_def)
  have dom: "nodes d a \<noteq> None" if "a \<noteq> 0" using linked_nx_dom [OF assms(1), of b ?c] that by (auto simp: a_def)
  have an: "a \<noteq> n" using nx_in [of ?ns b ?c] ns assms(3,4) by (auto simp: a_def)
  define N where "N = put_prev a n (put_next b n ((nodes d)(n \<mapsto> x\<lparr>n_prev := b, n_next := a\<rparr>)))"
  define d' where "d' = d\<lparr>nodes := N, l_tail := (if a = 0 \<or> ?c \<and> a = l_head d then n else l_tail d)\<rparr>"
  have step: "M_llist_insert_unsorted d n b = Some (True, l_plus d')"
  proof -
    define N1 where "N1 = (nodes d)(n \<mapsto> x\<lparr>n_prev := b, n_next := a\<rparr>)"
    have u: "node_upd d n (\<lambda>x. x\<lparr>n_prev := b, n_next := a\<rparr>) = Some (d\<lparr>nodes := N1\<rparr>)"
      "node_upd (d\<lparr>nodes := N1\<rparr>) b (\<lambda>x. x\<lparr>n_next := n\<rparr>) = Some (d\<lparr>nodes := put_next b n N1\<rparr>)"
      using assms(3,5) ns(4,5) y(1) by (simp_all add: node_upd_Some N1_def put_next_def)
    have v: "node_upd (d\<lparr>nodes := put_next b n N1, l_tail := t\<rparr>) a (\<lambda>x. x\<lparr>n_prev := n\<rparr>) =
        Some (d\<lparr>nodes := N, l_tail := t\<rparr>)"
      "node_upd (d\<lparr>nodes := put_next b n N1\<rparr>) a (\<lambda>x. x\<lparr>n_prev := n\<rparr>) = Some (d\<lparr>nodes := N\<rparr>)"
      if "a \<noteq> 0" for t
      using dom that an by (auto simp: node_upd_prev N1_def N_def)
    have z: "N = put_next b n N1" if "a = 0" using that assms(2,3) by (simp add: N_def N1_def put_next_app)
    show ?thesis
      using ns(3,4) y(1,2) assms(3) z u v
      by (cases "a = 0"; cases "a = l_head d"; cases "circular d")
        (simp_all add: M_llist_insert_unsorted_def node_get_def d'_def)
  qed
  have N: "N m = map_option (\<lambda>y. y\<lparr>n_next := if m = b then n else n_next y,
       n_prev := if m = a then n else n_prev y\<rparr>) (nodes d m)" if "m \<noteq> n" for m
    using that by (cases "nodes d m") (auto simp: N_def put_next_app put_prev_app)
  have Nn: "N n = Some (x\<lparr>n_prev := b, n_next := a\<rparr>)" using an ns by (simp add: N_def put_next_app put_prev_app)
  have "links ?c N (xs @ b # n # ys) (xs @ b # n # ys)"
  proof (rule links_insert_after [where N = "nodes d" and a = a])
    show "N m = map_option (\<lambda>y. y\<lparr>n_next := if m = b then n else n_next y,
       n_prev := if m = a then n else n_prev y\<rparr>) (nodes d m)" if "m \<in> set ?ns" for m
      using that assms(4) by (intro N) blast
  qed (use ns(1,2) assms(3,4) in \<open>auto intro!: Nn ns(6) a_def\<close>)
  moreover have "l_tail d' = first_of (rev (xs @ b # n # ys))"
  proof (cases ys)
    case Nil
    then show ?thesis using assms(1) by (auto simp: d'_def linked_def a_def nx_split first_of_append)
  next
    case (Cons z zs)
    moreover have "z \<noteq> l_head d" using ns Cons assms(1) by (cases xs) (auto simp: linked_def)
    ultimately show ?thesis using assms(1) ns(1,2) by (auto simp: d'_def linked_def a_def nx_split first_of_append)
  qed
  moreover have "l_head d' = first_of (xs @ b # n # ys)"
    using assms(1) by (cases xs) (auto simp: d'_def linked_def)
  ultimately have "linked d' (xs @ b # n # ys)" using ns assms(3,4) by (auto simp: linked_def d'_def)
  moreover have "map_option n_val (N m) = map_option n_val (nodes d m)" for m
    using Nn assms(5) by (cases "m = n"; cases "nodes d m") (auto simp: N)
  then have "relinked d d'" by (simp add: relinked_def same_cfg_def d'_def)
  ultimately show ?thesis using step by blast
qed

text \<open>\<open>link_before\<close> is the part of \<open>M_llist_move_before\<close> after the node has been unlinked.\<close>

lemma link_before:
  assumes "linked d (xs @ b # ys)" "nodes d 0 = None" "n \<noteq> 0" "n \<notin> set (xs @ b # ys)" "nodes d n = Some x"
    "p = nx (circular d) (rev (xs @ b # ys)) b"
    "N = put_next p n ((put_prev b n (nodes d))(n \<mapsto> x\<lparr>n_next := b, n_prev := p\<rparr>))"
    "d' = d\<lparr>l_head := if l_head d = b then n else l_head d, nodes := N\<rparr>"
  shows "linked d' (xs @ n # b # ys) \<and> relinked d d'"
proof -
  let ?ns = "xs @ b # ys" and ?c = "circular d"
  have ns: "distinct ?ns" "0 \<notin> set ?ns" "M_LLIST_SORTED \<notin> l_flags d" "b \<noteq> 0" "b \<noteq> n"
    "links ?c (nodes d) ?ns ?ns"
    using assms(1,4) by (auto simp: linked_def)
  have pn: "p \<noteq> n" using nx_in [of "rev ?ns" b ?c] ns(1) assms(3,4,6) by (auto simp: Int_commute)
  have N: "N m = map_option (\<lambda>y. y\<lparr>n_next := if m = p then n else n_next y,
       n_prev := if m = b then n else n_prev y\<rparr>) (nodes d m)" if "m \<noteq> n" for m
    using that by (cases "nodes d m") (auto simp: assms(7) put_next_app put_prev_app)
  have Nn: "N n = Some (x\<lparr>n_next := b, n_prev := p\<rparr>)" using pn by (simp add: assms(7) put_next_app)
  have "links ?c N (xs @ n # b # ys) (xs @ n # b # ys)"
  proof (rule links_insert_before [where N = "nodes d" and p = p])
    show "N m = map_option (\<lambda>y. y\<lparr>n_next := if m = p then n else n_next y,
       n_prev := if m = b then n else n_prev y\<rparr>) (nodes d m)" if "m \<in> set ?ns" for m
      using that assms(4) by (intro N) blast
  qed (use ns(1,2) assms(3,4) in \<open>auto intro!: Nn ns(6) simp: assms(6)\<close>)
  moreover have "l_head d' = first_of (xs @ n # b # ys)"
    using assms(1) ns(1) by (cases xs) (auto simp: assms(8) linked_def)
  moreover have "l_tail d' = first_of (rev (xs @ n # b # ys))"
    using assms(1) by (auto simp: assms(8) linked_def first_of_append)
  ultimately have "linked d' (xs @ n # b # ys)" using ns assms(3,4) by (auto simp: linked_def assms(8))
  moreover have "map_option n_val (N m) = map_option n_val (nodes d m)" for m
    using Nn assms(5) by (cases "m = n"; cases "nodes d m") (auto simp: N)
  then have "relinked d d'" by (simp add: relinked_def same_cfg_def assms(8))
  ultimately show ?thesis by blast
qed

lemma insert_unsorted_empty:
  assumes "linked d []" "n \<noteq> 0" "nodes d n = Some x" "n_prev x = 0"
  shows "\<exists>d'. M_llist_insert_unsorted d n 0 = Some (True, l_plus d') \<and> linked d' [n] \<and> relinked d d'"
proof -
  define d' where "d' = d\<lparr>l_head := n, l_tail := n,
     nodes := (nodes d)(n \<mapsto> x\<lparr>n_next := if circular d then n else 0, n_prev := if circular d then n else 0\<rparr>)\<rparr>"
  have "M_llist_insert_unsorted d n 0 = Some (True, l_plus d')"
    using assms by (cases d; cases x; cases "circular d")
      (auto simp: M_llist_insert_unsorted_def linked_def node_upd_Some d'_def)
  moreover have "linked d' [n]"
    using assms nx_split [of n "[]" "circular d" "[]"] by (auto simp: linked_def d'_def links_def)
  moreover have "relinked d d'" using assms by (auto simp: relinked_def same_cfg_def d'_def)
  ultimately show ?thesis by blast
qed

lemma insert_unsorted_front:
  assumes "linked d (b # ys)" "nodes d 0 = None" "n \<noteq> 0" "n \<notin> set (b # ys)" "nodes d n = Some x" "n_prev x = 0"
  shows "\<exists>d'. M_llist_insert_unsorted d n 0 = Some (True, l_plus d') \<and> linked d' (n # b # ys) \<and> relinked d d'"
proof -
  let ?c = "circular d"
  define p where "p = nx ?c (rev (b # ys)) b"
  define N where "N = put_next p n ((put_prev b n (nodes d))(n \<mapsto> x\<lparr>n_next := b, n_prev := p\<rparr>))"
  define d' where "d' = d\<lparr>l_head := if l_head d = b then n else l_head d, nodes := N\<rparr>"
  have l: "linked d' ([] @ n # b # ys) \<and> relinked d d'"
    by (rule link_before [OF _ assms(2,3) _ assms(5) _ N_def d'_def]) (use assms(1,4) p_def in auto)
  have t: "l_tail d \<in> set (b # ys)" "0 \<notin> set (b # ys)" using assms(1) first_of_in [of "rev (b # ys)"] by (simp_all add: linked_def)
  have ns: "l_head d = b" "M_LLIST_SORTED \<notin> l_flags d" "b \<noteq> 0" "b \<noteq> n"
    using assms(1,4) by (auto simp: linked_def)
  have tl: "l_tail d \<noteq> 0" "l_tail d \<noteq> n" using t assms(4) by metis+
  have p: "p = (if ?c then l_tail d else 0)"
    using assms(1) nx_split [of b "rev ys" ?c "[]"] by (auto simp: p_def linked_def)
  have dom: "nodes d b \<noteq> None" "nodes d (l_tail d) \<noteq> None"
    using linked_node [OF assms(1), of b] linked_node [OF assms(1) t(1)] by auto
  define N1 where "N1 = put_prev b n (put_next n b (nodes d))"
  have u: "node_upd d n (\<lambda>x. x\<lparr>n_next := b\<rparr>) = Some (d\<lparr>nodes := put_next n b (nodes d)\<rparr>)"
    "node_upd (d\<lparr>nodes := put_next n b (nodes d)\<rparr>) b (\<lambda>x. x\<lparr>n_prev := n\<rparr>) = Some (d\<lparr>nodes := N1\<rparr>)"
    using assms(3,5) ns dom by (simp_all add: node_upd_next node_upd_prev N1_def)
  have v: "node_upd (d\<lparr>nodes := N1, l_head := n\<rparr>) n (\<lambda>x. x\<lparr>n_prev := l_tail d\<rparr>) =
      Some (d\<lparr>nodes := put_prev n (l_tail d) N1, l_head := n\<rparr>)"
    "node_upd (d\<lparr>nodes := put_prev n (l_tail d) N1, l_head := n\<rparr>) (l_tail d) (\<lambda>x. x\<lparr>n_next := n\<rparr>) =
      Some (d\<lparr>nodes := put_next (l_tail d) n (put_prev n (l_tail d) N1), l_head := n\<rparr>)"
    using assms(3,5) ns dom tl by (simp_all add: node_upd_next node_upd_prev N1_def)
  have e: "N = (if ?c then put_next (l_tail d) n (put_prev n (l_tail d) N1) else N1)"
    using assms(2-6) ns tl by (auto simp: N_def N1_def p fun_eq_iff put_next_app put_prev_app)
  have "M_llist_insert_unsorted d n 0 = Some (True, l_plus d')"
    using ns tl assms(3) u v by (cases ?c) (simp_all add: M_llist_insert_unsorted_def d'_def e)
  then show ?thesis using l by auto
qed

lemma insert_unsorted_first:
  assumes "linked d ns" "nodes d 0 = None" "n \<noteq> 0" "n \<notin> set ns" "nodes d n = Some x" "n_prev x = 0"
  shows "\<exists>d'. M_llist_insert_unsorted d n 0 = Some (True, l_plus d') \<and> linked d' (n # ns) \<and> relinked d d'"
  using assms insert_unsorted_empty [of d n x] insert_unsorted_front [of d "hd ns" "tl ns" n x]
  by (cases ns) simp_all

lemma link_after:
  assumes "linked d (xs @ b # ys)" "nodes d 0 = None" "n \<noteq> 0" "n \<notin> set (xs @ b # ys)" "nodes d n = Some x"
    "a = nx (circular d) (xs @ b # ys) b"
    "N = put_prev a n ((put_next b n (nodes d))(n \<mapsto> x\<lparr>n_prev := b, n_next := a\<rparr>))"
    "d' = d\<lparr>l_tail := if l_tail d = b then n else l_tail d, nodes := N\<rparr>"
  shows "linked d' (xs @ b # n # ys) \<and> relinked d d'"
proof -
  let ?ns = "xs @ b # ys" and ?c = "circular d"
  have ns: "distinct ?ns" "0 \<notin> set ?ns" "M_LLIST_SORTED \<notin> l_flags d" "b \<noteq> 0" "b \<noteq> n"
    "links ?c (nodes d) ?ns ?ns"
    using assms(1,4) by (auto simp: linked_def)
  have an: "a \<noteq> n" using nx_in [of ?ns b ?c] ns(1) assms(3,4,6) by auto
  have N: "N m = map_option (\<lambda>y. y\<lparr>n_next := if m = b then n else n_next y,
       n_prev := if m = a then n else n_prev y\<rparr>) (nodes d m)" if "m \<noteq> n" for m
    using that by (cases "nodes d m") (auto simp: assms(7) put_next_app put_prev_app)
  have Nn: "N n = Some (x\<lparr>n_prev := b, n_next := a\<rparr>)" using an by (simp add: assms(7) put_prev_app)
  have "links ?c N (xs @ b # n # ys) (xs @ b # n # ys)"
  proof (rule links_insert_after [where N = "nodes d" and a = a])
    show "N m = map_option (\<lambda>y. y\<lparr>n_next := if m = b then n else n_next y,
       n_prev := if m = a then n else n_prev y\<rparr>) (nodes d m)" if "m \<in> set ?ns" for m
      using that assms(4) by (intro N) blast
  qed (use ns(1,2) assms(3,4) in \<open>auto intro!: Nn ns(6) simp: assms(6)\<close>)
  moreover have "l_tail d' = first_of (rev (xs @ b # n # ys))"
  proof (cases ys rule: rev_cases)
    case Nil
    then show ?thesis using assms(1) by (simp add: assms(8) linked_def)
  next
    case (snoc zs z)
    then show ?thesis using assms(1) ns(1) by (auto simp: assms(8) linked_def)
  qed
  moreover have "l_head d' = first_of (xs @ b # n # ys)"
    using assms(1) by (cases xs) (simp_all add: assms(8) linked_def)
  ultimately have "linked d' (xs @ b # n # ys)" using ns assms(3,4) by (auto simp: linked_def assms(8))
  moreover have "map_option n_val (N m) = map_option n_val (nodes d m)" for m
    using Nn assms(5) by (cases "m = n"; cases "nodes d m") (auto simp: N)
  then have "relinked d d'" by (simp add: relinked_def same_cfg_def assms(8))
  ultimately show ?thesis by blast
qed

section \<open>Moving a node\<close>

lemma unlinked_node:
  assumes "linked d (xs @ n # ys)" "relinked d d'"
  shows "\<exists>x. nodes d' n = Some x" "n \<noteq> 0" "n \<notin> set (xs @ ys)"
  using relinked_dom [OF assms(2)] linked_node [OF assms(1), of n] assms(1) by (auto simp: linked_def)

lemma move_before:
  assumes "linked d (xs @ m # ys)" "nodes d 0 = None" "xs @ ys = us @ b # vs"
    "nx (circular d) (xs @ m # ys) m \<noteq> b"
  shows "\<exists>d'. M_llist_move_before d m b = Some (True, d') \<and> linked d' (us @ m # b # vs) \<and> relinked d d'"
proof -
  obtain d1 where d1: "M_llist_node_unlink d m = Some d1" "linked d1 (us @ b # vs)" "relinked d d1"
    using unlink_ok [OF assms(1,2)] assms(3) by auto
  obtain x1 where x1: "nodes d1 m = Some x1" and m: "m \<noteq> 0" "m \<notin> set (us @ b # vs)"
    using unlinked_node [OF assms(1) d1(3)] assms(3) by auto
  have z: "nodes d1 0 = None" using relinked_dom [OF d1(3)] assms(2) by blast
  have b: "b \<noteq> 0" "b \<noteq> m" using d1(2) m by (auto simp: linked_def)
  define p where "p = nx (circular d1) (rev (us @ b # vs)) b"
  define N where "N = put_next p m ((put_prev b m (nodes d1))(m \<mapsto> x1\<lparr>n_next := b, n_prev := p\<rparr>))"
  define d' where "d' = d1\<lparr>l_head := if l_head d1 = b then m else l_head d1, nodes := N\<rparr>"
  have l: "linked d' (us @ m # b # vs) \<and> relinked d1 d'"
    by (rule link_before [OF d1(2) z m x1 p_def N_def d'_def])
  obtain y where y: "nodes d1 b = Some y" "n_prev y = p"
    using linked_node [OF d1(2), of b] by (auto simp: p_def)
  have pd: "p \<noteq> 0 \<Longrightarrow> nodes d1 p \<noteq> None" using linked_pv_dom [OF d1(2), of b] by (auto simp: p_def)
  obtain x where x: "nodes d m = Some x" "n_next x = nx (circular d) (xs @ m # ys) m"
    using linked_node [OF assms(1), of m] by auto
  have f: "M_LLIST_SORTED \<notin> l_flags d" using assms(1) by (simp add: linked_def)
  define h where "h = d1\<lparr>l_head := if l_head d1 = b then m else l_head d1\<rparr>"
  have h: "(if l_head d1 = b then d1\<lparr>l_head := m\<rparr> else d1) = h" "nodes h = nodes d1" by (simp_all add: h_def)
  define N1 where "N1 = (put_prev b m (nodes d1))(m \<mapsto> x1\<lparr>n_next := b, n_prev := p\<rparr>)"
  have u: "node_upd h b (\<lambda>y. y\<lparr>n_prev := m\<rparr>) = Some (h\<lparr>nodes := put_prev b m (nodes d1)\<rparr>)"
    "node_upd (h\<lparr>nodes := put_prev b m (nodes d1)\<rparr>) m (\<lambda>x. x\<lparr>n_next := b, n_prev := p\<rparr>) = Some (h\<lparr>nodes := N1\<rparr>)"
    using b m x1 y by (simp_all add: h(2) node_upd_Some N1_def put_prev_def)
  have v: "(if 0 < p then node_upd (h\<lparr>nodes := N1\<rparr>) p (\<lambda>y. y\<lparr>n_next := m\<rparr>) else Some (h\<lparr>nodes := N1\<rparr>)) =
      Some (h\<lparr>nodes := N\<rparr>)"
    using pd z m opt_upd_next [of "h\<lparr>nodes := N1\<rparr>" p m] by (simp add: N_def N1_def)
  have "M_llist_move_before d m b = Some (True, h\<lparr>nodes := N\<rparr>)"
    using b m(1) f x assms(4) y u v
    by (cases "p = 0") (simp_all add: M_llist_move_before_def node_get_def d1(1) Let_def h)
  then show ?thesis using l relinked_trans [OF d1(3)] by (simp add: h_def d'_def)
qed

lemma move_after:
  assumes "linked d (xs @ m # ys)" "nodes d 0 = None" "xs @ ys = us @ b # vs"
    "nx (circular d) (rev (xs @ m # ys)) m \<noteq> b"
  shows "\<exists>d'. M_llist_move_after d m b = Some (True, d') \<and> linked d' (us @ b # m # vs) \<and> relinked d d'"
proof -
  obtain d1 where d1: "M_llist_node_unlink d m = Some d1" "linked d1 (us @ b # vs)" "relinked d d1"
    using unlink_ok [OF assms(1,2)] assms(3) by auto
  obtain x1 where x1: "nodes d1 m = Some x1" and m: "m \<noteq> 0" "m \<notin> set (us @ b # vs)"
    using unlinked_node [OF assms(1) d1(3)] assms(3) by auto
  have z: "nodes d1 0 = None" using relinked_dom [OF d1(3)] assms(2) by blast
  have b: "b \<noteq> 0" "b \<noteq> m" using d1(2) m by (auto simp: linked_def)
  define a where "a = nx (circular d1) (us @ b # vs) b"
  define N where "N = put_prev a m ((put_next b m (nodes d1))(m \<mapsto> x1\<lparr>n_prev := b, n_next := a\<rparr>))"
  define d' where "d' = d1\<lparr>l_tail := if l_tail d1 = b then m else l_tail d1, nodes := N\<rparr>"
  have l: "linked d' (us @ b # m # vs) \<and> relinked d1 d'"
    by (rule link_after [OF d1(2) z m x1 a_def N_def d'_def])
  obtain y where y: "nodes d1 b = Some y" "n_next y = a"
    using linked_node [OF d1(2), of b] by (auto simp: a_def)
  have ad: "a \<noteq> 0 \<Longrightarrow> nodes d1 a \<noteq> None" using linked_nx_dom [OF d1(2), of b] by (auto simp: a_def)
  obtain x where x: "nodes d m = Some x" "n_prev x = nx (circular d) (rev (xs @ m # ys)) m"
    using linked_node [OF assms(1), of m] by auto
  have f: "M_LLIST_SORTED \<notin> l_flags d" using assms(1) by (simp add: linked_def)
  define h where "h = d1\<lparr>l_tail := if l_tail d1 = b then m else l_tail d1\<rparr>"
  have h: "(if l_tail d1 = b then d1\<lparr>l_tail := m\<rparr> else d1) = h" "nodes h = nodes d1" by (simp_all add: h_def)
  define N1 where "N1 = (put_next b m (nodes d1))(m \<mapsto> x1\<lparr>n_prev := b, n_next := a\<rparr>)"
  have u: "node_upd h b (\<lambda>y. y\<lparr>n_next := m\<rparr>) = Some (h\<lparr>nodes := put_next b m (nodes d1)\<rparr>)"
    "node_upd (h\<lparr>nodes := put_next b m (nodes d1)\<rparr>) m (\<lambda>x. x\<lparr>n_prev := b, n_next := a\<rparr>) = Some (h\<lparr>nodes := N1\<rparr>)"
    using b m x1 y by (simp_all add: h(2) node_upd_Some N1_def put_next_def)
  have v: "(if 0 < a then node_upd (h\<lparr>nodes := N1\<rparr>) a (\<lambda>y. y\<lparr>n_prev := m\<rparr>) else Some (h\<lparr>nodes := N1\<rparr>)) =
      Some (h\<lparr>nodes := N\<rparr>)"
    using ad z m opt_upd_prev [of "h\<lparr>nodes := N1\<rparr>" a m] by (simp add: N_def N1_def)
  have "M_llist_move_after d m b = Some (True, h\<lparr>nodes := N\<rparr>)"
    using b m(1) f x assms(4) y u v
    by (cases "a = 0") (simp_all add: M_llist_move_after_def node_get_def d1(1) Let_def h)
  then show ?thesis using l relinked_trans [OF d1(3)] by (simp add: h_def d'_def)
qed

end
