(* ===== verification/M_LList_Spec.thy ===== *)
theory M_LList_Spec
  imports M_LList_Ok
begin

text \<open>
  The operations of the unsorted linked list as operations on the sequence of its nodes: insertion
  at either end and next to a node, removal, moving, search, removal by value and destruction.
\<close>

section \<open>Lists for the witnesses\<close>

text \<open>A list of the values 7 and 8, circular or not, and a circular list of one value.\<close>

definition demo_node :: "nat \<Rightarrow> addr \<Rightarrow> addr \<Rightarrow> nat M_llist_node" where
  "demo_node v n p = \<lparr>n_val = v, n_next = n, n_prev = p, n_nexts = [], n_prevs = [], n_levels = 0\<rparr>"

definition demo_llist :: "bool \<Rightarrow> (nat, nat) M_llist" where
  "demo_llist c =
     \<lparr>l_equality = Some (\<lambda>a b t. int a - int b), l_equality_thunk = 0, l_duplicate_insert = id,
      l_duplicate_copy = id, l_flags = (if c then {M_LLIST_CIRCULAR} else {}), l_elements = 2, l_heads = [],
      l_levels = 0, l_rand_state = \<lparr>s0 = 0, s1 = 0, s2 = 0, s3 = 0\<rparr>, l_head = 1, l_tail = 2,
      nodes = [1 \<mapsto> demo_node 7 2 (if c then 2 else 0), 2 \<mapsto> demo_node 8 (if c then 1 else 0) 1],
      fresh = 3, l_freed = []\<rparr>"

definition demo_ring :: "(nat, nat) M_llist" where
  "demo_ring = (demo_llist True)\<lparr>l_elements := 1, l_tail := 1, nodes := [1 \<mapsto> demo_node 7 1 1]\<rparr>"

lemma demo_llist_ok: "llist_ok (demo_llist c) [1, 2]"
  by (auto simp: llist_ok_def linked_def links_def nx_def demo_llist_def demo_node_def SIZE_MOD_def)

lemma demo_ring_ok: "llist_ok demo_ring [1]"
  by (auto simp: llist_ok_def linked_def links_def nx_def demo_ring_def demo_llist_def demo_node_def SIZE_MOD_def)

lemma demo_cfg [simp]:
  "l_duplicate_insert (demo_llist c) = id" "fresh (demo_llist c) = 3" "circular (demo_llist c) = c"
  "l_equality (demo_llist c) = Some (\<lambda>a b t. int a - int b)" "circular demo_ring"
  "lval (demo_llist c) 1 = 7" "lval (demo_llist c) (Suc 0) = 7" "lval (demo_llist c) 2 = 8"
  by (simp_all add: demo_llist_def demo_ring_def demo_node_def lval_def)

lemma demo_size [simp]: "length [1, 2 :: addr] + 1 < SIZE_MOD"
  by (simp add: SIZE_MOD_def)

section \<open>Insertion\<close>

lemma llist_ok_0: "llist_ok d ns \<Longrightarrow> nodes d 0 = None"
  by (auto simp: llist_ok_def linked_def domIff)

lemma linked_alloc:
  assumes "llist_ok d ns"
    and "d1 = d\<lparr>nodes := (nodes d)(fresh d \<mapsto> x), fresh := fresh d + 1\<rparr>"
  shows "linked d1 ns" "nodes d1 0 = None" "fresh d \<noteq> 0" "fresh d \<notin> set ns" "nodes d1 (fresh d) = Some x"
proof -
  show "fresh d \<noteq> 0" "fresh d \<notin> set ns" using assms(1) by (auto simp: llist_ok_def)
  then have "links c N ns ns \<Longrightarrow> links c (N(fresh d \<mapsto> x)) ns ns" for c N
    by (auto simp: links_def)
  then show "linked d1 ns" using assms by (auto simp: linked_def llist_ok_def)
  show "nodes d1 0 = None" "nodes d1 (fresh d) = Some x"
    using llist_ok_0 [OF assms(1)] \<open>fresh d \<noteq> 0\<close> by (simp_all add: assms(2))
qed

text \<open>What an insertion of the value \<open>v\<close> gives, with \<open>ns'\<close> the new sequence.\<close>

definition inserted ::
  "('v, 't) M_llist \<Rightarrow> addr list \<Rightarrow> 'v \<Rightarrow> (addr \<times> ('v, 't) M_llist) option \<Rightarrow> bool" where
  "inserted d ns' v r \<longleftrightarrow>
     (\<exists>d'. r = Some (fresh d, d') \<and> llist_ok d' ns' \<and> lval d' = (lval d)(fresh d := v) \<and>
       fresh d' = fresh d + 1 \<and> l_freed d' = l_freed d \<and> same_cfg d d')"

lemma inserted_intro:
  assumes "llist_ok d ns" "d1 = d\<lparr>nodes := (nodes d)(fresh d \<mapsto> x), fresh := fresh d + 1\<rparr>"
    "linked d2 ns'" "relinked d1 d2" "set ns' = insert (fresh d) (set ns)" "length ns' < SIZE_MOD"
    "length ns' = length ns + 1"
  shows "inserted d ns' (n_val x) (Some (fresh d, l_plus d2))"
proof -
  have "dom (nodes d2) = dom (nodes d1)" "lval d2 = lval d1"
    using relinked_dom relinked_lval assms(4) by blast+
  moreover have "dom (nodes d1) = insert (fresh d) (set ns)" "lval d1 = (lval d)(fresh d := n_val x)"
    using assms(1) by (auto simp: assms(2) llist_ok_def lval_def fun_eq_iff)
  moreover have "fresh d2 = fresh d + 1" "l_elements d2 = l_elements d" "l_freed d2 = l_freed d" "same_cfg d d2"
    using assms(4) by (auto simp: relinked_def same_cfg_def assms(2))
  ultimately show ?thesis using assms
    by (auto simp: inserted_def llist_ok_def linked_def lval_def same_cfg_def fun_eq_iff less_Suc_eq)
qed

definition new_node :: "'v \<Rightarrow> 'v M_llist_node" where
  "new_node v = \<lparr>n_val = v, n_next = 0, n_prev = 0, n_nexts = [], n_prevs = [], n_levels = 0\<rparr>"

lemma new_node_simps [simp]: "n_val (new_node v) = v" "n_prev (new_node v) = 0"
  by (simp_all add: new_node_def)

definition new_list :: "('v, 't) M_llist \<Rightarrow> 'v \<Rightarrow> ('v, 't) M_llist" where
  "new_list d v = d\<lparr>nodes := (nodes d)(fresh d \<mapsto> new_node v), fresh := fresh d + 1\<rparr>"

lemma node_create_eq:
  "M_llist_node_create d val {M_LLIST_INSERT_DUP, M_LLIST_INSERT_INITIAL} =
     (fresh d, new_list d (l_duplicate_insert d val))"
  by (simp add: M_llist_node_create_def new_node_def new_list_def)

text \<open>The node that is created is chained in.\<close>

lemma insert_node_first:
  assumes "llist_ok d ns" "length ns + 1 < SIZE_MOD"
    "d1 = d\<lparr>nodes := (nodes d)(fresh d \<mapsto> x), fresh := fresh d + 1\<rparr>" "n_prev x = 0"
  shows "\<exists>d2. M_llist_insert_unsorted d1 (fresh d) 0 = Some (True, d2) \<and>
    inserted d (fresh d # ns) (n_val x) (Some (fresh d, d2))"
proof -
  note al = linked_alloc [OF assms(1,3)]
  obtain d2 where d2: "M_llist_insert_unsorted d1 (fresh d) 0 = Some (True, l_plus d2)"
    "linked d2 (fresh d # ns)" "relinked d1 d2"
    using insert_unsorted_first [OF al assms(4)] by auto
  then show ?thesis using inserted_intro [OF assms(1,3) d2(2,3)] assms(2) by auto
qed

lemma insert_node_after:
  assumes "llist_ok d (xs @ n # ys)" "length (xs @ n # ys) + 1 < SIZE_MOD"
    "d1 = d\<lparr>nodes := (nodes d)(fresh d \<mapsto> x), fresh := fresh d + 1\<rparr>"
  shows "\<exists>d2. M_llist_insert_unsorted d1 (fresh d) n = Some (True, d2) \<and>
    inserted d (xs @ n # fresh d # ys) (n_val x) (Some (fresh d, d2))"
proof -
  note al = linked_alloc [OF assms(1,3)]
  obtain d2 where d2: "M_llist_insert_unsorted d1 (fresh d) n = Some (True, l_plus d2)"
    "linked d2 (xs @ n # fresh d # ys)" "relinked d1 d2"
    using insert_unsorted_after [OF al] by auto
  have "inserted d (xs @ n # fresh d # ys) (n_val x) (Some (fresh d, l_plus d2))"
    by (rule inserted_intro [OF assms(1,3) d2(2,3)]) (use assms(2) in auto)
  then show ?thesis using d2(1) by blast
qed

lemma insert_node_last:
  assumes "llist_ok d ns" "length ns + 1 < SIZE_MOD"
    "d1 = d\<lparr>nodes := (nodes d)(fresh d \<mapsto> x), fresh := fresh d + 1\<rparr>" "n_prev x = 0"
  shows "\<exists>d2. M_llist_insert_node d1 (fresh d) = Some (True, d2) \<and>
    inserted d (ns @ [fresh d]) (n_val x) (Some (fresh d, d2))"
proof (cases ns rule: rev_cases)
  case Nil
  then have "l_tail d1 = 0" "M_LLIST_SORTED \<notin> l_flags d1" "0 < fresh d"
    using assms(1) by (auto simp: llist_ok_def linked_def assms(3))
  moreover note al = linked_alloc [OF assms(1,3)]
  obtain d2 where d2: "M_llist_insert_unsorted d1 (fresh d) 0 = Some (True, l_plus d2)"
    "linked d2 (fresh d # ns)" "relinked d1 d2"
    using insert_unsorted_first [OF al assms(4)] by auto
  ultimately show ?thesis using inserted_intro [OF assms(1,3) d2(2,3)] assms(2) Nil
    by (auto simp: M_llist_insert_node_def)
next
  case (snoc zs z)
  then have "l_tail d1 = z" "M_LLIST_SORTED \<notin> l_flags d1" "0 < fresh d"
    using assms(1) by (auto simp: llist_ok_def linked_def assms(3))
  then show ?thesis using insert_node_after [of d zs z "[]" d1 x] assms snoc
    by (auto simp: M_llist_insert_node_def)
qed

lemma insert_last_ok:
  assumes "llist_ok d ns" "val \<noteq> 0" "length ns + 1 < SIZE_MOD"
  shows "inserted d (ns @ [fresh d]) (l_duplicate_insert d val) (M_llist_insert d val)"
  using insert_node_last [OF assms(1,3) new_list_def, of "l_duplicate_insert d val"] assms(2)
  by (auto simp: M_llist_insert_def node_create_eq)

lemma insert_first_ok:
  assumes "llist_ok d ns" "val \<noteq> 0" "length ns + 1 < SIZE_MOD"
  shows "inserted d (fresh d # ns) (l_duplicate_insert d val) (M_llist_insert_first d val)"
proof -
  have "M_LLIST_SORTED \<notin> l_flags d" using assms(1) by (simp add: llist_ok_def linked_def)
  then show ?thesis using insert_node_first [OF assms(1,3) new_list_def, of "l_duplicate_insert d val"] assms(2)
    by (auto simp: M_llist_insert_first_def node_create_eq)
qed

lemma insert_after_ok:
  assumes "llist_ok d (xs @ n # ys)" "val \<noteq> 0" "length (xs @ n # ys) + 1 < SIZE_MOD"
  shows "inserted d (xs @ n # fresh d # ys) (l_duplicate_insert d val) (M_llist_insert_after d n val)"
proof -
  have "M_LLIST_SORTED \<notin> l_flags d" "n \<noteq> 0" using assms(1) by (auto simp: llist_ok_def linked_def)
  then show ?thesis using insert_node_after [OF assms(1,3) new_list_def, of "l_duplicate_insert d val"] assms(2)
    by (auto simp: M_llist_insert_after_def node_create_eq)
qed

text \<open>
  C17. An insertion appends a copy of the value at the end of an unsorted list; the insertion at the
  front, and the one after a node, put it there. Each keeps the list well-formed, whether it is
  circular or not, and frees nothing.
\<close>

theorem M_llist_insert_correct:
  assumes "llist_ok d ns" "val \<noteq> 0" "length ns + 1 < SIZE_MOD"
  shows "inserted d (ns @ [fresh d]) (l_duplicate_insert d val) (M_llist_insert d val) \<and>
    inserted d (fresh d # ns) (l_duplicate_insert d val) (M_llist_insert_first d val) \<and>
    (\<forall>xs n ys. ns = xs @ n # ys \<longrightarrow>
      inserted d (xs @ n # fresh d # ys) (l_duplicate_insert d val) (M_llist_insert_after d n val))"
  using assms insert_last_ok insert_first_ok insert_after_ok by blast

theorem M_llist_insert_correct_witness:
  "inserted (demo_llist True) [1, 2, 3] 5 (M_llist_insert (demo_llist True) 5) \<and>
   inserted (demo_llist True) [3, 1, 2] 5 (M_llist_insert_first (demo_llist True) 5) \<and>
   inserted (demo_llist True) [1, 3, 2] 5 (M_llist_insert_after (demo_llist True) 1 5)"
  using M_llist_insert_correct [OF demo_llist_ok _ demo_size, of 5 True] by (auto dest!: spec [of _ "[]"])

section \<open>Removal\<close>

text \<open>What a removal gives, with \<open>ns'\<close> the nodes that are left and \<open>vs\<close> the values it frees.\<close>

definition removed ::
  "('v, 't) M_llist \<Rightarrow> addr list \<Rightarrow> 'v list \<Rightarrow> ('v, 't) M_llist \<Rightarrow> bool" where
  "removed d ns' vs d' \<longleftrightarrow>
     llist_ok d' ns' \<and> (\<forall>m\<in>set ns'. lval d' m = lval d m) \<and> fresh d' = fresh d \<and>
     l_freed d' = l_freed d @ vs \<and> same_cfg d d'"

lemma removed_trans: "removed d ns vs d' \<Longrightarrow> removed d' ns' ws d'' \<Longrightarrow> set ns' \<subseteq> set ns \<Longrightarrow> removed d ns' (vs @ ws) d''"
  by (auto simp: removed_def same_cfg_def)

lemma take_remove_ok:
  assumes "llist_ok d (xs @ n # ys)" "circular d \<longrightarrow> xs @ ys \<noteq> []"
  shows "\<exists>d'. M_llist_take_remove_node d n rm = Some (True, if rm then 0 else lval d n, d') \<and>
    removed d (xs @ ys) (if rm then [lval d n] else []) d'"
proof -
  have l: "linked d (xs @ n # ys)" using assms(1) by (simp add: llist_ok_def)
  obtain d1 where d1: "M_llist_node_unlink d n = Some d1" "linked d1 (xs @ ys)" "relinked d d1"
    using unlink_ok [OF l llist_ok_0 [OF assms(1)] assms(2)] by auto
  obtain x where x: "nodes d1 n = Some x" and n: "n \<noteq> 0" "n \<notin> set (xs @ ys)"
    using unlinked_node [OF l d1(3)] by auto
  have "n_val x = lval d1 n" using x by (simp add: lval_def)
  then have v: "lval d1 = lval d" "dom (nodes d1) = dom (nodes d)" "n_val x = lval d n"
    using relinked_lval [OF d1(3)] relinked_dom [OF d1(3)] by simp_all
  define d2 where "d2 = (if rm then l_value_free d1 (n_val x) else d1)"
  define d' where "d' = d2\<lparr>nodes := (nodes d1)(n := None), l_elements := size_sub (l_elements d1) 1\<rparr>"
  have f: "M_LLIST_SORTED \<notin> l_flags d" using l by (simp add: linked_def)
  have "M_llist_take_remove_node d n rm = Some (True, if rm then 0 else lval d n, d')"
    using n(1) f x v(3) d1(1)
    by (simp add: M_llist_take_remove_node_def M_llist_node_destory_def node_get_def Let_def d'_def d2_def l_value_free_def)
  moreover have "links c (nodes d1) (xs @ ys) (xs @ ys) \<Longrightarrow> links c ((nodes d1)(n := None)) (xs @ ys) (xs @ ys)" for c
    using n(2) by (auto simp: links_def)
  then have "linked d' (xs @ ys)" using d1(2) by (auto simp: linked_def d'_def d2_def l_value_free_def)
  then have "llist_ok d' (xs @ ys)" using assms(1) v(2) n(2) d1(3)
    by (auto simp: llist_ok_def d'_def d2_def l_value_free_def relinked_def)
  moreover have "lval d' m = lval d m" if "m \<in> set (xs @ ys)" for m
    using that n(2) fun_cong [OF v(1), of m] by (auto simp: lval_def d'_def)
  ultimately show ?thesis using d1(3) v(3)
    by (auto simp: removed_def d'_def d2_def l_value_free_def relinked_def same_cfg_def)
qed



section \<open>Moving\<close>

lemma nx_rotate:
  assumes "distinct (xs @ ys)" "m \<in> set (xs @ ys)"
  shows "nx True (ys @ xs) m = nx True (xs @ ys) m"
proof -
  have A: "nx True (us @ zs @ m # vs) m = nx True (zs @ m # vs @ us) m" if "distinct (us @ zs @ m # vs)" for us zs vs
    using that nx_split [of m "us @ zs" True vs] nx_split [of m zs True "vs @ us"]
    by (cases us; cases zs; cases vs) auto
  show ?thesis
  proof (cases "m \<in> set xs")
    case True
    then obtain zs vs where "xs = zs @ m # vs" by (auto simp: in_set_conv_decomp)
    then show ?thesis using A [of ys zs vs] assms(1) by auto
  next
    case False
    then obtain zs vs where "ys = zs @ m # vs" using assms(2) by (auto simp: in_set_conv_decomp)
    then show ?thesis using A [of xs zs vs] assms(1) by auto
  qed
qed

lemma linked_rotate:
  assumes "linked d (xs @ ys)" "circular d" "h = first_of (ys @ xs)" "t = first_of (rev (ys @ xs))"
  shows "linked (d\<lparr>l_tail := t, l_head := h\<rparr>) (ys @ xs)"
  using assms nx_rotate [of xs ys] nx_rotate [of "rev ys" "rev xs"]
  by (auto simp: linked_def links_def Int_commute)

text \<open>What moving nodes gives.\<close>

definition moved :: "('v, 't) M_llist \<Rightarrow> addr list \<Rightarrow> ('v, 't) M_llist \<Rightarrow> bool" where
  "moved d ns' d' \<longleftrightarrow>
     llist_ok d' ns' \<and> lval d' = lval d \<and> fresh d' = fresh d \<and> l_freed d' = l_freed d \<and> same_cfg d d'"

lemma moved_intro:
  assumes "llist_ok d ns" "linked d' ns'" "relinked d d'" "mset ns' = mset ns"
  shows "moved d ns' d'"
  using assms relinked_dom [OF assms(3)] relinked_lval [OF assms(3)] mset_eq_setD [OF assms(4)]
    mset_eq_length [OF assms(4)]
  by (auto simp: moved_def llist_ok_def relinked_def)

lemma move_before_ok:
  assumes "llist_ok d (xs @ m # ys)" "xs @ ys = us @ b # vs" "circular d \<longrightarrow> ys \<noteq> [] \<or> us \<noteq> []"
  shows "\<exists>d'. M_llist_move_before d m b = Some (True, d') \<and> moved d (us @ m # b # vs) d'"
proof (cases "nx (circular d) (xs @ m # ys) m = b")
  case True
  have b: "b \<in> set (xs @ ys)" by (simp only: assms(2)) simp
  have l: "linked d (xs @ m # ys)" "b \<noteq> 0" "m \<noteq> 0" "distinct (xs @ m # ys)" "M_LLIST_SORTED \<notin> l_flags d"
    using assms(1) b by (auto simp: llist_ok_def linked_def)
  have bm: "b \<noteq> m" using l(4) b by auto
  have ys: "ys \<noteq> []"
  proof
    assume "ys = []"
    then have "circular d" "b = first_of (xs @ [m])" using True l(2,4) by (auto simp: nx_split split: if_splits)
    then show False using assms(2,3) \<open>ys = []\<close> l(4) bm by (cases xs; cases us) auto
  qed
  then obtain zs where zs: "ys = b # zs" using True l(4) by (cases ys) (auto simp: nx_split)
  then have "us = xs" "vs = zs" using l(4) assms(2) append_Cons_eq_iff [of b xs zs us vs] by auto
  then show ?thesis using l(1-3,5) bm zs True linked_node [OF l(1), of m] assms(1)
    by (auto simp: M_llist_move_before_def node_get_def moved_def same_cfg_def)
next
  case False
  obtain d' where d': "M_llist_move_before d m b = Some (True, d')" "linked d' (us @ m # b # vs)" "relinked d d'"
    using move_before [OF _ llist_ok_0 [OF assms(1)] assms(2) False] assms(1) by (auto simp: llist_ok_def)
  have "mset (us @ m # b # vs) = mset (xs @ m # ys)"
    using arg_cong [OF assms(2), of mset] by simp
  then show ?thesis using moved_intro [OF assms(1) d'(2,3)] d'(1) by auto
qed

lemma move_after_ok:
  assumes "llist_ok d (xs @ m # ys)" "xs @ ys = us @ b # vs" "circular d \<longrightarrow> xs \<noteq> [] \<or> vs \<noteq> []"
  shows "\<exists>d'. M_llist_move_after d m b = Some (True, d') \<and> moved d (us @ b # m # vs) d'"
proof (cases "nx (circular d) (rev (xs @ m # ys)) m = b")
  case True
  have b: "b \<in> set (xs @ ys)" by (simp only: assms(2)) simp
  have l: "linked d (xs @ m # ys)" "b \<noteq> 0" "m \<noteq> 0" "distinct (xs @ m # ys)" "M_LLIST_SORTED \<notin> l_flags d"
    using assms(1) b by (auto simp: llist_ok_def linked_def)
  have bm: "b \<noteq> m" using l(4) b by auto
  have xs: "xs \<noteq> []"
  proof
    assume e: "xs = []"
    then have c: "circular d" "b = first_of (rev ys @ [m])" using True l(2,4) by (auto simp: nx_split split: if_splits)
    then have "ys = us @ b # vs" "vs \<noteq> []" using assms(2,3) e by auto
    then obtain ws w where "ys = us @ b # ws @ [w]" by (cases vs rule: rev_cases) auto
    then have "first_of (rev ys @ [m]) = w" "b \<noteq> w" using l(4) by auto
    then show False using c(2) by simp
  qed
  then obtain zs where zs: "xs = zs @ [b]" using True l(4) by (cases xs rule: rev_cases) (auto simp: nx_split)
  then have "us = zs" "vs = ys" using l(4) assms(2) append_Cons_eq_iff [of b zs ys us vs] by auto
  then show ?thesis using l(1-3,5) bm zs True linked_node [OF l(1), of m] assms(1)
    by (auto simp: M_llist_move_after_def node_get_def moved_def same_cfg_def)
next
  case False
  obtain d' where d': "M_llist_move_after d m b = Some (True, d')" "linked d' (us @ b # m # vs)" "relinked d d'"
    using move_after [OF _ llist_ok_0 [OF assms(1)] assms(2) False] assms(1) by (auto simp: llist_ok_def)
  have "mset (us @ b # m # vs) = mset (xs @ m # ys)"
    using arg_cong [OF assms(2), of mset] by simp
  then show ?thesis using moved_intro [OF assms(1) d'(2,3)] d'(1) by auto
qed

lemma moved_rotate:
  assumes "llist_ok d (xs @ ys)" "circular d" "h = first_of (ys @ xs)" "t = first_of (rev (ys @ xs))"
  shows "moved d (ys @ xs) (d\<lparr>l_tail := t, l_head := h\<rparr>)" "moved d (ys @ xs) (d\<lparr>l_head := h, l_tail := t\<rparr>)"
proof -
  have "relinked d (d\<lparr>l_tail := t, l_head := h\<rparr>)" by (simp add: relinked_def same_cfg_def)
  then show m: "moved d (ys @ xs) (d\<lparr>l_tail := t, l_head := h\<rparr>)"
    using assms(1) by (intro moved_intro [OF assms(1) linked_rotate [OF _ assms(2-4)]]) (auto simp: llist_ok_def)
  have "d\<lparr>l_head := h, l_tail := t\<rparr> = d\<lparr>l_tail := t, l_head := h\<rparr>" by simp
  then show "moved d (ys @ xs) (d\<lparr>l_head := h, l_tail := t\<rparr>)" using m by (simp only:)
qed

lemma moved_self: "llist_ok d ns \<Longrightarrow> moved d ns d"
  by (simp add: moved_def same_cfg_def)

lemma set_first_ok:
  assumes "llist_ok d (xs @ n # ys)"
  shows "\<exists>d'. M_llist_set_first d n = Some d' \<and> moved d (if circular d then n # ys @ xs else n # xs @ ys) d'"
proof -
  have l: "linked d (xs @ n # ys)" "n \<noteq> 0" "M_LLIST_SORTED \<notin> l_flags d" "l_elements d = length (xs @ n # ys)"
    "l_head d = first_of (xs @ n # ys)" "distinct (xs @ n # ys)"
    using assms by (auto simp: llist_ok_def linked_def)
  obtain x where x: "nodes d n = Some x" "n_prev x = nx (circular d) (rev (xs @ n # ys)) n"
    using linked_node [OF l(1), of n] by auto
  consider "xs @ ys = []" | "circular d" "xs @ ys \<noteq> []" | "\<not> circular d" "xs = []" "xs @ ys \<noteq> []"
    | h zs where "\<not> circular d" "xs = h # zs" by (cases xs) auto
  then show ?thesis
  proof cases
    case 1
    then show ?thesis using l moved_self [OF assms] by (simp add: M_llist_set_first_def M_llist_len_def)
  next
    case 2
    then have "n_prev x = first_of (rev (n # ys @ xs))"
      using x(2) l(6) nx_split [of n "rev ys" "circular d" "rev xs"]
      by (cases xs rule: rev_cases; cases ys rule: rev_cases) (auto simp: first_of_append)
    then show ?thesis using 2 l x(1) moved_rotate(1) [of d xs "n # ys"] assms
      by (cases "length xs + length ys") (auto simp: M_llist_set_first_def M_llist_len_def node_get_def)
  next
    case 3
    then show ?thesis using l moved_self [OF assms]
      by (cases ys) (simp_all add: M_llist_set_first_def M_llist_len_def M_llist_move_before_def)
  next
    case 4
    then show ?thesis using l move_before_ok [OF assms, of "[]" h "zs @ ys"]
      by (auto simp: M_llist_set_first_def M_llist_len_def)
  qed
qed

lemma set_last_ok:
  assumes "llist_ok d (xs @ n # ys)"
  shows "\<exists>d'. M_llist_set_last d n = Some d' \<and> moved d (if circular d then ys @ xs @ [n] else xs @ ys @ [n]) d'"
proof -
  have l: "linked d (xs @ n # ys)" "n \<noteq> 0" "M_LLIST_SORTED \<notin> l_flags d" "l_elements d = length (xs @ n # ys)"
    "l_tail d = first_of (rev (xs @ n # ys))" "distinct (xs @ n # ys)"
    using assms by (auto simp: llist_ok_def linked_def)
  obtain x where x: "nodes d n = Some x" "n_next x = nx (circular d) (xs @ n # ys) n"
    using linked_node [OF l(1), of n] by auto
  consider "xs @ ys = []" | "circular d" "xs @ ys \<noteq> []" | "\<not> circular d" "ys = []" "xs @ ys \<noteq> []"
    | h zs where "\<not> circular d" "ys = zs @ [h]" by (cases ys rule: rev_cases) auto
  then show ?thesis
  proof cases
    case 1
    then show ?thesis using l moved_self [OF assms] by (simp add: M_llist_set_last_def M_llist_len_def)
  next
    case 2
    then have "n_next x = first_of (ys @ xs @ [n])"
      using x(2) l(6) nx_split [of n xs "circular d" ys] by (cases xs; cases ys) (auto simp: first_of_append)
    then show ?thesis using 2 l x(1) moved_rotate(2) [of d "xs @ [n]" ys] assms
      by (cases "length xs + length ys") (auto simp: M_llist_set_last_def M_llist_len_def node_get_def)
  next
    case 3
    then show ?thesis using l moved_self [OF assms]
      by (cases xs) (simp_all add: M_llist_set_last_def M_llist_len_def M_llist_move_after_def)
  next
    case 4
    then show ?thesis using l move_after_ok [OF assms, of "xs @ zs" h "[]"]
      by (auto simp: M_llist_set_last_def M_llist_len_def)
  qed
qed

text \<open>
  C19. Moving a node puts it next to the node named, or first or last; the other nodes keep their
  order, and a circular list is only turned. The one move that has no effect is that of the last
  node of a circular list before the first, or of the first after the last: they are neighbours.
\<close>

theorem M_llist_move_correct:
  assumes "llist_ok d (xs @ m # ys)"
  shows "(xs @ ys = us @ b # vs \<longrightarrow> (circular d \<longrightarrow> ys \<noteq> [] \<or> us \<noteq> []) \<longrightarrow>
      (\<exists>d'. M_llist_move_before d m b = Some (True, d') \<and> moved d (us @ m # b # vs) d')) \<and>
    (xs @ ys = us @ b # vs \<longrightarrow> (circular d \<longrightarrow> xs \<noteq> [] \<or> vs \<noteq> []) \<longrightarrow>
      (\<exists>d'. M_llist_move_after d m b = Some (True, d') \<and> moved d (us @ b # m # vs) d')) \<and>
    (\<exists>d'. M_llist_set_first d m = Some d' \<and> moved d (if circular d then m # ys @ xs else m # xs @ ys) d') \<and>
    (\<exists>d'. M_llist_set_last d m = Some d' \<and> moved d (if circular d then ys @ xs @ [m] else xs @ ys @ [m]) d')"
  using move_before_ok [OF assms] move_after_ok [OF assms] set_first_ok [OF assms] set_last_ok [OF assms] by blast

theorem M_llist_move_correct_witness:
  "(\<exists>d'. M_llist_move_before (demo_llist False) 2 1 = Some (True, d') \<and> moved (demo_llist False) [2, 1] d') \<and>
   (\<exists>d'. M_llist_set_first (demo_llist False) 2 = Some d' \<and> moved (demo_llist False) [2, 1] d')"
  using M_llist_move_correct [of "demo_llist False" "[1]" 2 "[]" "[]" 1 "[]"] demo_llist_ok [of False] by simp

section \<open>Search and removal by value\<close>

text \<open>The nodes that \<open>M_llist_find\<close> and the operations on all matches look for.\<close>

definition found :: "('v, 't) M_llist \<Rightarrow> 'v \<Rightarrow> M_llist_match_type set \<Rightarrow> addr \<Rightarrow> bool" where
  "found d val type n \<longleftrightarrow>
     (if M_LLIST_MATCH_PTR \<in> type then val = lval d n else l_compare d (lval d n) val = Some 0)"

definition matched :: "('v, 't) M_llist \<Rightarrow> 'v \<Rightarrow> M_llist_match_type set \<Rightarrow> addr \<Rightarrow> bool" where
  "matched d val type n \<longleftrightarrow>
     (if M_LLIST_MATCH_PTR \<in> type then val = lval d n else l_compare d val (lval d n) = Some 0)"

lemma next_neq_first:
  assumes "distinct (xs @ n # ys)" "ys \<noteq> []" "first = first_of (xs @ n # ys)"
  shows "nx c (xs @ n # ys) n = hd ys" "hd ys \<noteq> first"
  using assms by (auto simp: nx_split first_of_append neq_Nil_conv split: if_splits dest: first_of_in [of xs])

lemma find_unsorted_ok:
  assumes "linked d (xs @ n # ys)" "M_LLIST_MATCH_PTR \<in> type \<or> l_equality d \<noteq> None"
  shows "find_unsorted d val type (first_of (xs @ n # ys)) n =
    Some (case List.find (found d val type) (n # ys) of None \<Rightarrow> 0 | Some m \<Rightarrow> m)"
  using assms(1)
proof (induction ys arbitrary: xs n)
  case Nil
  obtain x where x: "nodes d n = Some x" "n_next x = nx (circular d) (xs @ [n]) n"
    using linked_node [OF Nil, of n] by auto
  have n: "n \<noteq> 0" "lval d n = n_val x" "distinct (xs @ [n])" using Nil x(1) by (auto simp: linked_def lval_def)
  have "node_match d val type (n_val x) = Some (found d val type n)"
    using assms(2) n(2) by (auto simp: node_match_def found_def l_compare_def split: option.splits)
  moreover have "n_next x \<noteq> first_of (xs @ [n]) \<Longrightarrow> n_next x = 0" using x(2) n(3) by (auto simp: nx_split)
  ultimately show ?case using n x(1)
    by (auto simp: find_unsorted.simps [of d val type _ n] find_unsorted.simps [of d val type _ 0] node_get_def)
next
  case (Cons y ys)
  obtain x where x: "nodes d n = Some x" "n_next x = nx (circular d) (xs @ n # y # ys) n"
    using linked_node [OF Cons.prems, of n] by auto
  have n: "n \<noteq> 0" "lval d n = n_val x" "distinct (xs @ n # y # ys)"
    using Cons.prems x(1) by (auto simp: linked_def lval_def)
  have m: "node_match d val type (n_val x) = Some (found d val type n)"
    using assms(2) n(2) by (auto simp: node_match_def found_def l_compare_def split: option.splits)
  have "n_next x = y" "y \<noteq> first_of (xs @ n # y # ys)"
    using next_neq_first(1) [OF n(3) _ refl, of "circular d"] next_neq_first(2) [OF n(3) _ refl] x(2) by auto
  then show ?case using n x(1) m Cons.IH [of "xs @ [n]" y] Cons.prems
    by (auto simp: find_unsorted.simps [of d val type _ n] node_get_def)
qed

text \<open>
  C20. The search in an unsorted list, circular or not, ends and gives the first matching node, or
  null when there is none.
\<close>

theorem M_llist_find_correct:
  assumes "llist_ok d ns" "val \<noteq> 0" "M_LLIST_MATCH_PTR \<in> type \<or> l_equality d \<noteq> None"
  shows "M_llist_find d val type = Some (case List.find (found d val type) ns of None \<Rightarrow> 0 | Some m \<Rightarrow> m)"
proof -
  have l: "linked d ns" "M_LLIST_SORTED \<notin> l_flags d" "l_head d = first_of ns"
    using assms(1) by (auto simp: llist_ok_def linked_def)
  then show ?thesis using find_unsorted_ok [of d "[]" "hd ns" "tl ns" type val] assms(2,3)
    by (cases ns) (auto simp: M_llist_find_def find_unsorted.simps [of d val type 0 0])
qed

theorem M_llist_find_correct_witness:
  "M_llist_find (demo_llist True) 8 {} = Some 2 \<and> M_llist_find (demo_llist True) 9 {} = Some 0"
  using M_llist_find_correct [OF demo_llist_ok, of 8 "{}" True] M_llist_find_correct [OF demo_llist_ok, of 9 "{}" True]
  by (simp add: found_def l_compare_def)

text \<open>One iteration of the loop over all nodes, on an unsorted list.\<close>

lemma match_loop_step:
  assumes "linked d ns" "n \<in> set ns" "M_LLIST_MATCH_PTR \<in> type \<or> l_equality d \<noteq> None"
    "M_LLIST_MATCH_ALL \<in> type"
  shows "match_loop d val type M_LLIST_MATCH_OP_REMOVE first n cnt = do {
     (cnt, d') \<leftarrow> (if matched d val type n
        then do { (ok, d') \<leftarrow> M_llist_remove_node d n; Some (if ok then cnt + 1 else cnt, d') }
        else Some (cnt, d));
     if M_LLIST_SORTED \<in> l_flags d' \<and> \<not> (M_LLIST_MATCH_PTR \<notin> type \<and> matched d val type n) then Some (cnt, d')
     else if nx (circular d) ns n = first then Some (cnt, d')
     else match_loop d' val type M_LLIST_MATCH_OP_REMOVE first (nx (circular d) ns n) cnt }"
proof -
  obtain x where x: "nodes d n = Some x" "n_next x = nx (circular d) ns n" using linked_node [OF assms(1,2)] by auto
  have n: "n \<noteq> 0" "lval d n = n_val x" "M_LLIST_SORTED \<notin> l_flags d"
    using assms(1,2) x(1) by (metis linked_def, simp_all add: linked_def lval_def)
  have m: "(if M_LLIST_SORTED \<in> l_flags d \<or> M_LLIST_MATCH_PTR \<notin> type
      then do { c \<leftarrow> l_compare d val (n_val x); Some (c = 0) } else Some False) =
    Some (M_LLIST_MATCH_PTR \<notin> type \<and> matched d val type n)"
    using assms(3) n by (auto simp: matched_def l_compare_def split: option.splits)
  have e: "((M_LLIST_MATCH_PTR \<notin> type \<and> matched d val type n \<or> M_LLIST_SORTED \<notin> l_flags d \<and> M_LLIST_MATCH_PTR \<in> type) \<and>
      (M_LLIST_MATCH_PTR \<in> type \<longrightarrow> val = n_val x)) = matched d val type n"
    using n by (auto simp: matched_def)
  have nn: "M_llist_node_next d n = Some (nx (circular d) ns n)"
    using n x by (simp add: M_llist_node_next_def node_get_def)
  have g: "node_get d n = Some x" using n x by simp
  show ?thesis
    unfolding match_loop.simps [of d val type _ first n] nn g bind.bind_lunit m e Let_def
    using n(1) assms(4) by (auto split: bind_splits if_splits)
qed

text \<open>Values of nodes that stay, and the callbacks, do not change, so neither do the matches.\<close>

lemma removed_matched: "removed d ns vs d' \<Longrightarrow> m \<in> set ns \<Longrightarrow> matched d' val type m = matched d val type m"
  by (simp add: removed_def matched_def same_cfg_def l_compare_def cong: option.case_cong)

lemma remove_node_ok:
  assumes "llist_ok d (xs @ n # ys)" "circular d \<longrightarrow> xs @ ys \<noteq> []"
  shows "\<exists>d'. M_llist_remove_node d n = Some (True, d') \<and> removed d (xs @ ys) [lval d n] d'"
  using take_remove_ok [OF assms, of True] by (auto simp: M_llist_remove_node_def)

lemma match_loop_remove:
  assumes "llist_ok d (xs @ n # ys)" "\<not> circular d" "first \<noteq> 0" "first \<notin> set ys"
    "M_LLIST_MATCH_PTR \<in> type \<or> l_equality d \<noteq> None" "M_LLIST_MATCH_ALL \<in> type"
  shows "\<exists>d'. match_loop d val type M_LLIST_MATCH_OP_REMOVE first n cnt =
      Some (cnt + length (filter (matched d val type) (n # ys)), d') \<and>
    removed d (xs @ filter (\<lambda>m. \<not> matched d val type m) (n # ys)) (lvals d (filter (matched d val type) (n # ys))) d'"
  using assms(1-5)
proof (induction ys arbitrary: d xs n cnt)
  case Nil
  have l: "linked d (xs @ [n])" "distinct (xs @ [n])" "M_LLIST_SORTED \<notin> l_flags d"
    using Nil.prems(1) by (auto simp: llist_ok_def linked_def)
  have nxt: "nx (circular d) (xs @ [n]) n = 0" using l(2) Nil.prems(2) by (simp add: nx_split)
  note st = match_loop_step [OF l(1) _ Nil.prems(5) assms(6), of n val first cnt, unfolded nxt]
  show ?case
  proof (cases "matched d val type n")
    case True
    obtain d' where d': "M_llist_remove_node d n = Some (True, d')" "removed d xs [lval d n] d'"
      using remove_node_ok [of d xs n "[]"] Nil.prems(1,2) by auto
    then have "M_LLIST_SORTED \<notin> l_flags d'" using l(3) by (auto simp: removed_def same_cfg_def)
    then show ?thesis using st True d' Nil.prems(3) by (simp add: match_loop.simps [of d' val type _ first 0])
  next
    case False
    then show ?thesis using st l(3) Nil.prems(1,3)
      by (simp add: match_loop.simps [of d val type _ first 0] removed_def same_cfg_def)
  qed
next
  case (Cons y ys)
  have l: "linked d (xs @ n # y # ys)" "distinct (xs @ n # y # ys)" "M_LLIST_SORTED \<notin> l_flags d"
    using Cons.prems(1) by (auto simp: llist_ok_def linked_def)
  have nxt: "nx (circular d) (xs @ n # y # ys) n = y" "y \<noteq> first" using l(2) Cons.prems(4) by (auto simp: nx_split)
  note st = match_loop_step [OF l(1) _ Cons.prems(5) assms(6), of n val first cnt, unfolded nxt(1)]
  have fs: "first \<notin> set ys" using Cons.prems(4) by simp
  show ?case
  proof (cases "matched d val type n")
    case True
    obtain d1 where d1: "M_llist_remove_node d n = Some (True, d1)" "removed d (xs @ y # ys) [lval d n] d1"
      using remove_node_ok [of d xs n "y # ys"] Cons.prems(1,2) by auto
    have c: "llist_ok d1 (xs @ y # ys)" "\<not> circular d1" "M_LLIST_SORTED \<notin> l_flags d1"
      "M_LLIST_MATCH_PTR \<in> type \<or> l_equality d1 \<noteq> None"
      using d1(2) Cons.prems(2,5) l(3) by (auto simp: removed_def same_cfg_def)
    have m: "filter (matched d1 val type) (y # ys) = filter (matched d val type) (y # ys)"
      "filter (\<lambda>m. \<not> matched d1 val type m) (y # ys) = filter (\<lambda>m. \<not> matched d val type m) (y # ys)"
      using removed_matched [OF d1(2)] by (auto intro!: filter_cong)
    have v: "lvals d1 (filter (matched d val type) (y # ys)) = lvals d (filter (matched d val type) (y # ys))"
      using d1(2) by (auto simp: removed_def)
    obtain d' where d': "match_loop d1 val type M_LLIST_MATCH_OP_REMOVE first y (cnt + 1) =
        Some (cnt + 1 + length (filter (matched d val type) (y # ys)), d')"
      "removed d1 (xs @ filter (\<lambda>m. \<not> matched d val type m) (y # ys)) (lvals d (filter (matched d val type) (y # ys))) d'"
      using Cons.IH [OF c(1,2) Cons.prems(3) fs c(4), of "cnt + 1"] unfolding m v by blast
    have "removed d (xs @ filter (\<lambda>m. \<not> matched d val type m) (y # ys))
        ([lval d n] @ lvals d (filter (matched d val type) (y # ys))) d'"
      by (rule removed_trans [OF d1(2) d'(2)]) auto
    then show ?thesis using st True d1(1) d'(1) c(3) nxt(2) by simp
  next
    case False
    obtain d' where d': "match_loop d val type M_LLIST_MATCH_OP_REMOVE first y cnt =
        Some (cnt + length (filter (matched d val type) (y # ys)), d')"
      "removed d ((xs @ [n]) @ filter (\<lambda>m. \<not> matched d val type m) (y # ys)) (lvals d (filter (matched d val type) (y # ys))) d'"
      using Cons.IH [of d "xs @ [n]" y cnt] Cons.prems by auto
    then show ?thesis using st False l(3) nxt(2) by simp
  qed
qed

text \<open>
  C21. Removing all matches of a value from an unsorted list that is not circular ends, counts and
  frees exactly the matching nodes, and keeps the others in their order.
\<close>

theorem M_llist_remove_val_correct:
  assumes "llist_ok d ns" "\<not> circular d" "val \<noteq> 0"
    "M_LLIST_MATCH_PTR \<in> type \<or> l_equality d \<noteq> None" "M_LLIST_MATCH_ALL \<in> type"
  shows "\<exists>d'. M_llist_remove_val d val type = Some (length (filter (matched d val type) ns), d') \<and>
    removed d (filter (\<lambda>m. \<not> matched d val type m) ns) (lvals d (filter (matched d val type) ns)) d'"
proof (cases ns)
  case Nil
  then show ?thesis using assms
    by (auto simp: M_llist_remove_val_def M_llist_match_op_val_int_def match_loop.simps [of d val type _ 0 0]
        llist_ok_def linked_def removed_def same_cfg_def)
next
  case (Cons n ys)
  then have l: "l_head d = n" "M_LLIST_SORTED \<notin> l_flags d" "n \<noteq> 0" "n \<notin> set ys"
    using assms(1) by (auto simp: llist_ok_def linked_def)
  then show ?thesis using match_loop_remove [of d "[]" n ys n type val 0] assms Cons
    by (auto simp: M_llist_remove_val_def M_llist_match_op_val_int_def)
qed

theorem M_llist_remove_val_correct_witness:
  "\<exists>d'. M_llist_remove_val (demo_llist False) 7 {M_LLIST_MATCH_ALL} = Some (1, d') \<and> removed (demo_llist False) [2] [7] d'"
  using M_llist_remove_val_correct [OF demo_llist_ok, of False 7 "{M_LLIST_MATCH_ALL}"]
  by (simp add: matched_def l_compare_def)

section \<open>Circular lists\<close>




text \<open>
  Removing the only node of a circular list leaves the head and the tail pointing to the node
  that has been freed, so that the next insertion accesses freed memory.
\<close>

lemma M_llist_remove_last_circular:
  assumes "llist_ok d [n]" "circular d" "val \<noteq> 0"
  shows "\<exists>d'. M_llist_remove_node d n = Some (True, d') \<and> l_elements d' = 0 \<and> l_head d' = n \<and> l_tail d' = n \<and>
    nodes d' n = None \<and> M_llist_insert d' val = None"
proof -
  obtain x where x: "nodes d n = Some x" "n_next x = n" "n_prev x = n"
    using linked_node [of d "[n]" n] assms(1,2) nx_split [of n "[]" True "[]"] by (auto simp: llist_ok_def)
  have l: "n \<noteq> 0" "M_LLIST_SORTED \<notin> l_flags d" "l_head d = n" "l_tail d = n" "n < fresh d" "l_elements d = 1"
    using assms(1) by (auto simp: llist_ok_def linked_def)
  define d' where "d' = d\<lparr>nodes := (nodes d)(n := None), l_freed := l_freed d @ [n_val x], l_elements := 0\<rparr>"
  have "M_llist_remove_node d n = Some (True, d')"
    using l x by (simp add: M_llist_remove_node_def M_llist_take_remove_node_def M_llist_node_unlink_def
        M_llist_node_destory_def node_get_def node_upd_def Let_def l_value_free_def d'_def)
  moreover have "M_llist_insert d' val = None"
    using assms(3) l by (simp add: M_llist_insert_def M_llist_node_create_def M_llist_insert_node_def
        M_llist_insert_unsorted_def node_get_def d'_def)
  ultimately show ?thesis using l by (simp add: d'_def)
qed

lemma M_llist_remove_last_circular_example:
  "\<exists>d'. M_llist_remove_node demo_ring 1 = Some (True, d') \<and> l_elements d' = 0 \<and> l_head d' = 1 \<and> l_tail d' = 1 \<and>
    nodes d' 1 = None \<and> M_llist_insert d' 5 = None"
  by (rule M_llist_remove_last_circular [OF demo_ring_ok]) simp_all

section \<open>Destruction\<close>

lemma destroy_loop_null [simp]: "llist_destroy_loop d vs first 0 = Some d"
  by (simp add: llist_destroy_loop.simps)

lemma destroy_loop_ok:
  assumes "links c N0 ns ns" "distinct ns" "0 \<notin> set ns" "ns = xs @ n # ys" "first = first_of ns"
    "\<forall>m\<in>set (n # ys). nodes d m = N0 m" "M_LLIST_SORTED \<notin> l_flags d"
  shows "llist_destroy_loop d vs first n =
    Some (d\<lparr>nodes := (\<lambda>m. if m \<in> set (n # ys) then None else nodes d m),
            l_freed := l_freed d @ (if vs then map (\<lambda>m. n_val (the (N0 m))) (n # ys) else [])\<rparr>)"
  using assms(4,6,7)
proof (induction ys arbitrary: xs n d)
  case Nil
  obtain x where x: "N0 n = Some x" "n_next x = nx c ns n" using assms(1) Nil.prems(1) by (auto simp: links_def)
  have n: "n \<noteq> 0" using assms(3) Nil.prems(1) by auto
  have e: "n_next x = first \<or> n_next x = 0" using assms(2,5) Nil.prems(1) x(2) by (auto simp: nx_split)
  have "(\<lambda>m. if m = n then None else nodes d m) = (nodes d)(n := None)" by auto
  then show ?case using n x(1) e Nil.prems(2,3)
    by (auto simp: llist_destroy_loop.simps [of d vs first n]
        M_llist_node_next_def node_get_def M_llist_node_destory_def l_value_free_def)
next
  case (Cons y ys)
  obtain x where x: "N0 n = Some x" "n_next x = nx c ns n" using assms(1) Cons.prems(1) by (auto simp: links_def)
  have n: "n \<noteq> 0" using assms(3) Cons.prems(1) by auto
  have e: "n_next x = y" "y \<noteq> first"
    using next_neq_first(1) [of xs n "y # ys" _ c] next_neq_first(2) [of xs n "y # ys" first] assms(2,5) Cons.prems(1) x(2) by auto
  define d1 where "d1 = (if vs then l_value_free d (n_val x) else d)\<lparr>nodes := (nodes d)(n := None)\<rparr>"
  have s: "llist_destroy_loop d vs first n = llist_destroy_loop d1 vs first y"
    using n x(1) e Cons.prems(2,3)
    by (auto simp: llist_destroy_loop.simps [of d vs first n] M_llist_node_next_def node_get_def
        M_llist_node_destory_def l_value_free_def d1_def)
  have "n \<notin> set (y # ys)" using assms(2) Cons.prems(1) by auto
  then have "llist_destroy_loop d1 vs first y =
    Some (d1\<lparr>nodes := (\<lambda>m. if m \<in> set (y # ys) then None else nodes d1 m),
            l_freed := l_freed d1 @ (if vs then map (\<lambda>m. n_val (the (N0 m))) (y # ys) else [])\<rparr>)"
    using Cons.prems by (intro Cons.IH [of "xs @ [n]"]) (auto simp: d1_def l_value_free_def)
  moreover have "(\<lambda>m. if m \<in> set (y # ys) then None else nodes d1 m) = (\<lambda>m. if m \<in> set (n # y # ys) then None else nodes d m)"
    by (auto simp: d1_def l_value_free_def)
  ultimately show ?case using s x(1) by (simp add: d1_def l_value_free_def)
qed

text \<open>
  C23. Destroying an unsorted list, circular or not, ends, frees every node and, on request, every
  value once.
\<close>

theorem M_llist_destroy_correct:
  assumes "llist_ok d ns"
  shows "\<exists>d'. M_llist_destroy d vs = Some d' \<and> nodes d' = (\<lambda>_. None) \<and>
    l_freed d' = l_freed d @ (if vs then lvals d ns else [])"
proof (cases ns)
  case Nil
  then show ?thesis using assms
    by (auto simp: M_llist_destroy_def M_llist_first_def llist_ok_def linked_def)
next
  case (Cons n ys)
  have l: "links (circular d) (nodes d) ns ns" "distinct ns" "0 \<notin> set ns" "l_head d = first_of ns"
    "M_LLIST_SORTED \<notin> l_flags d" "dom (nodes d) = set ns" using assms by (auto simp: llist_ok_def linked_def)
  have "(\<lambda>m. if m \<in> set ns then None else nodes d m) = (\<lambda>_. None)" using l(6) by (auto simp: fun_eq_iff domIff)
  moreover have "\<forall>m\<in>set (n # ys). nodes d m = nodes d m" by simp
  ultimately show ?thesis
    using destroy_loop_ok [OF l(1-3) _ refl _ l(5), of "[]" n ys vs] l(4) unfolding Cons
    by (simp add: M_llist_destroy_def M_llist_first_def lval_def l(5))
qed

theorem M_llist_destroy_correct_witness:
  "\<exists>d'. M_llist_destroy (demo_llist True) True = Some d' \<and> nodes d' = (\<lambda>_. None) \<and>
    l_freed d' = l_freed (demo_llist True) @ [7, 8]"
  using M_llist_destroy_correct [OF demo_llist_ok, of True True] by simp

end
