(* ===== verification/M_Hash_Func.thy ===== *)
theory M_Hash_Func
  imports Chr
begin

text \<open>
  The hash functions (\<^verbatim>\<open>src/base/hash/m_hash_func.c\<close>): FNV1a over the bytes of a key, started
  from a seed. A string is the list of its bytes without the terminator; an integer or a pointer
  is read byte by byte from memory, the lowest byte first.
\<close>

section \<open>Definitions\<close>

definition hv_mix :: "M_uint32 \<Rightarrow> M_uint32" where
  "hv_mix hv = hv + (push_bit 1 hv + push_bit 4 hv + push_bit 7 hv + push_bit 8 hv + push_bit 24 hv)"

primrec FNV1a_loop :: "bytes \<Rightarrow> M_uint32 \<Rightarrow> M_uint32" where
  "FNV1a_loop [] hv = hv"
| "FNV1a_loop (b # data) hv = FNV1a_loop data (hv_mix (hv XOR ucast b))"

definition M_hash_func_hash_FNV1a :: "bytes \<Rightarrow> M_uint32 \<Rightarrow> M_uint32" where
  "M_hash_func_hash_FNV1a key seed = FNV1a_loop key seed"

primrec FNV1a_casecmp_loop :: "bytes \<Rightarrow> M_uint32 \<Rightarrow> M_uint32" where
  "FNV1a_casecmp_loop [] hv = hv"
| "FNV1a_casecmp_loop (b # data) hv = FNV1a_casecmp_loop data (hv_mix (hv XOR ucast (M_chr_tolower b)))"

definition M_hash_func_hash_FNV1a_casecmp :: "bytes \<Rightarrow> M_uint32 \<Rightarrow> M_uint32" where
  "M_hash_func_hash_FNV1a_casecmp key seed = FNV1a_casecmp_loop key seed"

definition M_hash_func_hash_str :: "bytes \<Rightarrow> M_uint32 \<Rightarrow> M_uint32" where
  "M_hash_func_hash_str key seed = M_hash_func_hash_FNV1a key seed"

definition M_hash_func_hash_str_casecmp :: "bytes \<Rightarrow> M_uint32 \<Rightarrow> M_uint32" where
  "M_hash_func_hash_str_casecmp key seed = M_hash_func_hash_FNV1a_casecmp key seed"

text \<open>The eight bytes of a 64 bit value in memory.\<close>

definition u64_bytes :: "M_uint64 \<Rightarrow> bytes" where
  "u64_bytes v = map (\<lambda>i. ucast (drop_bit (8 * i) v)) [0..<8]"

definition M_hash_func_hash_vp :: "M_uint64 \<Rightarrow> M_uint32 \<Rightarrow> M_uint32" where
  "M_hash_func_hash_vp key seed = M_hash_func_hash_FNV1a (u64_bytes key) seed"

definition M_hash_func_hash_u64 :: "M_uint64 \<Rightarrow> M_uint32 \<Rightarrow> M_uint32" where
  "M_hash_func_hash_u64 key seed = M_hash_func_hash_FNV1a (u64_bytes key) seed"

section \<open>The shifts are the multiplication by the prime\<close>

lemma hv_mix_prime: "hv_mix hv = hv * 0x01000193"
proof -
  have "push_bit n hv = hv * 2 ^ n" for n by (simp add: push_bit_eq_mult)
  then have "hv_mix hv = hv * (1 + (2 ^ 1 + 2 ^ 4 + 2 ^ 7 + 2 ^ 8 + 2 ^ 24))"
    unfolding hv_mix_def by (simp only: distrib_left mult_1_right)
  then show ?thesis by simp
qed

text \<open>FNV1a as it is defined: for each byte, exclusive or and a multiplication by the prime.\<close>

definition fnv1a :: "bytes \<Rightarrow> M_uint32 \<Rightarrow> M_uint32" where
  "fnv1a data hv = fold (\<lambda>b hv. (hv XOR ucast b) * 16777619) data hv"

lemma FNV1a_loop_fold: "FNV1a_loop data hv = fnv1a data hv"
  by (induction data arbitrary: hv) (simp_all add: fnv1a_def hv_mix_prime)

lemma FNV1a_casecmp_loop_fold: "FNV1a_casecmp_loop data hv = fnv1a (map M_chr_tolower data) hv"
  by (induction data arbitrary: hv) (simp_all add: fnv1a_def hv_mix_prime)

text \<open>
  C24. The sum of shifts that the hash functions compute is the multiplication of FNV1a by its
  prime, so each of them is FNV1a, the one that ignores case on the lower case letters.
\<close>

theorem M_hash_func_FNV1a:
  "M_hash_func_hash_str key seed = fnv1a key seed \<and>
   M_hash_func_hash_str_casecmp key seed = fnv1a (map M_chr_tolower key) seed \<and>
   M_hash_func_hash_u64 n seed = fnv1a (u64_bytes n) seed"
  by (simp add: M_hash_func_hash_str_def M_hash_func_hash_str_casecmp_def M_hash_func_hash_u64_def
      M_hash_func_hash_FNV1a_def M_hash_func_hash_FNV1a_casecmp_def FNV1a_loop_fold FNV1a_casecmp_loop_fold)

end
