(* ===== verification/M_Hashtable.thy ===== *)
theory M_Hashtable
  imports M_List M_LList M_Hash_Func
begin

text \<open>
  The hash table (\<^verbatim>\<open>src/base/hash/m_hashtable.c\<close>): chained buckets that are doubled when the
  table fills up, optionally with an ordered list of the keys, and with several values per key.

  A bucket and the entries chained to it are one list of entries, the entry that is stored in the
  bucket itself first. The entry of an empty bucket has a null key. The value of an entry is the
  union of the source: a value, or a list of values. Whether a callback to free keys or values is
  registered is a flag; the calls of a registered one are recorded in \<open>keys_freed\<close> and
  \<open>values_freed\<close>. The null pointer hash and comparison functions that select the functions on
  pointers are the options \<open>None\<close>; the functions on pointers are arguments of the creation.
\<close>

section \<open>State\<close>

datatype M_hashtable_flags =
  M_HASHTABLE_KEYS_ORDERED | M_HASHTABLE_KEYS_SORTED | M_HASHTABLE_MULTI_VALUE
| M_HASHTABLE_MULTI_SORTED | M_HASHTABLE_MULTI_GETLAST | M_HASHTABLE_STATIC_SEED

datatype M_hashtable_insert_type =
  M_HASHTABLE_INSERT_NODUP | M_HASHTABLE_INSERT_DUP | M_HASHTABLE_INSERT_INITIAL | M_HASHTABLE_INSERT_REHASH

datatype ('v, 't) M_hashtable_value = HValue 'v | HMulti "('v, 't) M_list"

record ('k, 'v, 't) M_hashtable_bucket =
  b_key :: 'k
  b_value :: "('v, 't) M_hashtable_value"

record ('k, 'v, 't) M_hashtable =
  key_equality :: "('k, 't) M_sort_compar_t"
  key_hash :: "'k \<Rightarrow> M_uint32 \<Rightarrow> M_uint32"
  key_duplicate_insert :: "'k \<Rightarrow> 'k"
  key_duplicate_copy :: "'k \<Rightarrow> 'k"
  key_free :: bool
  value_duplicate_insert :: "'v \<Rightarrow> 'v"
  value_duplicate_copy :: "'v \<Rightarrow> 'v"
  value_equality :: "('v, 't) M_sort_compar_t"
  h_value_free :: bool
  buckets :: "('k, 'v, 't) M_hashtable_bucket list list"
  h_keys :: "('k, 't) M_llist option"
  key_hash_seed :: M_uint32
  h_size :: M_uint32
  num_keys :: nat
  num_values :: nat
  num_collisions :: nat
  num_expansions :: nat
  fillpct :: M_uint8
  h_flags :: "M_hashtable_flags set"
  keys_freed :: "'k list"
  values_freed :: "'v list"

record ('k, 'v, 't) M_hashtable_callbacks =
  hcb_key_duplicate_insert :: "('k \<Rightarrow> 'k) option"
  hcb_key_duplicate_copy :: "('k \<Rightarrow> 'k) option"
  hcb_key_free :: bool
  hcb_value_duplicate_insert :: "('v \<Rightarrow> 'v) option"
  hcb_value_duplicate_copy :: "('v \<Rightarrow> 'v) option"
  hcb_value_equality :: "('v, 't) M_sort_compar_t option"
  hcb_value_free :: bool

text \<open>The two uses of the union of an enumeration are separate fields.\<close>

record M_hashtable_enum =
  e_hash :: nat
  e_chainid :: nat
  e_keynode :: addr
  e_valueidx :: nat

definition M_HASHTABLE_MAX_BUCKETS :: M_uint32 where
  "M_HASHTABLE_MAX_BUCKETS = push_bit 24 1"

definition M_hashtable_duplicate_func_default :: "'v \<Rightarrow> 'v" where
  "M_hashtable_duplicate_func_default arg = arg"

definition M_hashtable_equality_func_default :: "('v, 't) M_sort_compar_t" where
  "M_hashtable_equality_func_default arg1 arg2 th = 0"

abbreviation multi :: "('k, 'v, 't) M_hashtable \<Rightarrow> bool" where
  "multi h \<equiv> M_HASHTABLE_MULTI_VALUE \<in> h_flags h"

abbreviation ordered :: "('k, 'v, 't) M_hashtable \<Rightarrow> bool" where
  "ordered h \<equiv> M_HASHTABLE_KEYS_ORDERED \<in> h_flags h"

text \<open>Calls of \<open>h->key_free\<close> and \<open>h->value_free\<close>.\<close>

definition free_keys :: "('k, 'v, 't) M_hashtable \<Rightarrow> 'k list \<Rightarrow> ('k, 'v, 't) M_hashtable" where
  "free_keys h ks = (if key_free h then h\<lparr>keys_freed := keys_freed h @ ks\<rparr> else h)"

definition free_values :: "('k, 'v, 't) M_hashtable \<Rightarrow> 'v list \<Rightarrow> ('k, 'v, 't) M_hashtable" where
  "free_values h vs = (if h_value_free h then h\<lparr>values_freed := values_freed h @ vs\<rparr> else h)"

section \<open>Creation\<close>

text \<open>The random seed is drawn from a generator that the environment seeds.\<close>

definition hash_seed :: "M_uint64 \<Rightarrow> M_hashtable_flags set \<Rightarrow> M_uint32 option" where
  "hash_seed env fl =
     (if M_HASHTABLE_STATIC_SEED \<in> fl then Some 16777619
      else do { (r, st) \<leftarrow> M_rand_range (M_rand_create env 0) 1 (2 ^ 32); Some (ucast r) })"

text \<open>The outer option is a fault, the inner one the null pointer.\<close>

definition M_hashtable_create ::
  "M_uint64 \<Rightarrow> ('k \<Rightarrow> M_uint32 \<Rightarrow> M_uint32) \<Rightarrow> ('k, 't) M_sort_compar_t \<Rightarrow> nat \<Rightarrow> M_uint8
     \<Rightarrow> ('k \<Rightarrow> M_uint32 \<Rightarrow> M_uint32) option \<Rightarrow> ('k, 't) M_sort_compar_t option
     \<Rightarrow> M_hashtable_flags set \<Rightarrow> ('k, 'v, 't) M_hashtable_callbacks option
     \<Rightarrow> ('k, 'v, 't::zero) M_hashtable option option" where
  "M_hashtable_create env hash_vp compar_vp n pct hash equal fl callbacks =
     (if n = 0 \<or> pct \<ge> 100 then Some None
      else if (M_HASHTABLE_MULTI_SORTED \<in> fl \<or> M_HASHTABLE_MULTI_GETLAST \<in> fl) \<and> M_HASHTABLE_MULTI_VALUE \<notin> fl
      then Some None
      else if M_HASHTABLE_MULTI_SORTED \<in> fl \<and>
        (case callbacks of None \<Rightarrow> True | Some cb \<Rightarrow> hcb_value_equality cb = None) then Some None
      else if M_HASHTABLE_KEYS_SORTED \<in> fl \<and> M_HASHTABLE_KEYS_ORDERED \<notin> fl then Some None
      else do {
        let n = M_size_t_round_up_to_power_of_two (of_nat n);
        let sz = (if n > ucast M_HASHTABLE_MAX_BUCKETS then M_HASHTABLE_MAX_BUCKETS else ucast n);
        seed \<leftarrow> hash_seed env fl;
        let h = \<lparr>key_equality = (case equal of None \<Rightarrow> compar_vp | Some f \<Rightarrow> f),
                 key_hash = (case hash of None \<Rightarrow> hash_vp | Some f \<Rightarrow> f),
                 key_duplicate_insert = M_hashtable_duplicate_func_default,
                 key_duplicate_copy = M_hashtable_duplicate_func_default, key_free = False,
                 value_duplicate_insert = M_hashtable_duplicate_func_default,
                 value_duplicate_copy = M_hashtable_duplicate_func_default,
                 value_equality = M_hashtable_equality_func_default, h_value_free = False,
                 buckets = [], h_keys = None, key_hash_seed = seed, h_size = sz, num_keys = 0,
                 num_values = 0, num_collisions = 0, num_expansions = 0, fillpct = pct, h_flags = fl,
                 keys_freed = [], values_freed = []\<rparr>;
        let h = (case callbacks of None \<Rightarrow> h
                 | Some cb \<Rightarrow> h\<lparr>
                     key_duplicate_insert := (case hcb_key_duplicate_insert cb of None \<Rightarrow> key_duplicate_insert h | Some f \<Rightarrow> f),
                     key_duplicate_copy := (case hcb_key_duplicate_copy cb of None \<Rightarrow> key_duplicate_copy h | Some f \<Rightarrow> f),
                     key_free := hcb_key_free cb,
                     value_duplicate_insert := (case hcb_value_duplicate_insert cb of None \<Rightarrow> value_duplicate_insert h | Some f \<Rightarrow> f),
                     value_duplicate_copy := (case hcb_value_duplicate_copy cb of None \<Rightarrow> value_duplicate_copy h | Some f \<Rightarrow> f),
                     value_equality := (case hcb_value_equality cb of None \<Rightarrow> value_equality h | Some f \<Rightarrow> f),
                     h_value_free := hcb_value_free cb\<rparr>);
        let h = h\<lparr>buckets := replicate (unat sz) []\<rparr>;
        let h = (if M_HASHTABLE_KEYS_ORDERED \<in> fl
                 then h\<lparr>h_keys := M_llist_create env
                          (Some \<lparr>lcb_equality = Some (key_equality h), lcb_duplicate_insert = None, lcb_duplicate_copy = None\<rparr>)
                          (if M_HASHTABLE_KEYS_SORTED \<in> fl then {M_LLIST_SORTED} else {})\<rparr>
                 else h);
        Some (Some h)
      })"

section \<open>Lookup\<close>

definition HASH_IDX :: "('k, 'v, 't) M_hashtable \<Rightarrow> 'k \<Rightarrow> nat" where
  "HASH_IDX h key = unat (key_hash h key (key_hash_seed h) AND (h_size h - 1))"

text \<open>A bucket is empty when its own entry has a null key.\<close>

definition bucket_empty :: "('k::zero, 'v, 't) M_hashtable_bucket list \<Rightarrow> bool" where
  "bucket_empty c = (case c of [] \<Rightarrow> True | e # _ \<Rightarrow> b_key e = NULL)"

text \<open>An entry is named by its position in the chain.\<close>

fun chain_find :: "('k, 't::zero) M_sort_compar_t \<Rightarrow> 'k \<Rightarrow> ('k, 'v, 't) M_hashtable_bucket list \<Rightarrow> nat option" where
  "chain_find equal key [] = None"
| "chain_find equal key (e # es) =
     (if equal (b_key e) key NULL = 0 then Some 0 else map_option Suc (chain_find equal key es))"

definition M_hashtable_get_match ::
  "('k::zero, 'v, 't::zero) M_hashtable \<Rightarrow> nat \<Rightarrow> 'k \<Rightarrow> nat option option" where
  "M_hashtable_get_match h idx key = do {
     c \<leftarrow> arr_get (buckets h) idx;
     Some (if bucket_empty c then None else chain_find (key_equality h) key c)
   }"

definition entry_get :: "('k, 'v, 't) M_hashtable \<Rightarrow> nat \<Rightarrow> nat \<Rightarrow> ('k, 'v, 't) M_hashtable_bucket option" where
  "entry_get h idx j = do { c \<leftarrow> arr_get (buckets h) idx; arr_get c j }"

definition entry_set ::
  "('k, 'v, 't) M_hashtable \<Rightarrow> nat \<Rightarrow> nat \<Rightarrow> ('k, 'v, 't) M_hashtable_bucket \<Rightarrow> ('k, 'v, 't) M_hashtable option" where
  "entry_set h idx j e = do {
     c \<leftarrow> arr_get (buckets h) idx;
     c \<leftarrow> arr_set c j e;
     bs \<leftarrow> arr_set (buckets h) idx c;
     Some (h\<lparr>buckets := bs\<rparr>)
   }"

definition multi_of :: "('k, 'v, 't) M_hashtable_bucket \<Rightarrow> ('v, 't) M_list option" where
  "multi_of e = (case b_value e of HMulti l \<Rightarrow> Some l | HValue v \<Rightarrow> None)"

definition value_of :: "('k, 'v, 't) M_hashtable_bucket \<Rightarrow> 'v option" where
  "value_of e = (case b_value e of HValue v \<Rightarrow> Some v | HMulti l \<Rightarrow> None)"

text \<open>The inner option is \<open>M_FALSE\<close>.\<close>

definition M_hashtable_get_int ::
  "('k, 'v::zero, 't) M_hashtable \<Rightarrow> ('k, 'v, 't) M_hashtable_bucket \<Rightarrow> nat \<Rightarrow> 'v option option" where
  "M_hashtable_get_int h entry idx = do {
     value_len \<leftarrow> (if multi h then do { l \<leftarrow> multi_of entry; Some (M_list_len l) } else Some 1);
     if idx \<ge> value_len then Some None
     else do {
       v \<leftarrow> (if multi h then do { l \<leftarrow> multi_of entry; M_list_at l idx } else value_of entry);
       Some (Some v)
     }
   }"

definition M_hashtable_get ::
  "('k::zero, 'v::zero, 't::zero) M_hashtable \<Rightarrow> 'k \<Rightarrow> 'v option option" where
  "M_hashtable_get h key =
     (if key = NULL then Some None
      else do {
        let hash_idx = HASH_IDX h key;
        m \<leftarrow> M_hashtable_get_match h hash_idx key;
        case m of None \<Rightarrow> Some None
        | Some j \<Rightarrow> do {
            entry \<leftarrow> entry_get h hash_idx j;
            idx \<leftarrow> (if multi h \<and> M_HASHTABLE_MULTI_GETLAST \<in> h_flags h
                     then do { l \<leftarrow> multi_of entry; Some (if M_list_len l > 0 then M_list_len l - 1 else M_list_len l) }
                     else Some 0);
            M_hashtable_get_int h entry idx
          }
      })"

section \<open>Insertion\<close>

definition dup_value ::
  "('k, 'v, 't) M_hashtable \<Rightarrow> M_hashtable_insert_type set \<Rightarrow> ('v, 't) M_hashtable_value
     \<Rightarrow> ('v, 't) M_hashtable_value option" where
  "dup_value h insert_type value =
     (if M_HASHTABLE_INSERT_DUP \<in> insert_type then
        case value of HMulti l \<Rightarrow> None
        | HValue v \<Rightarrow> Some (HValue (if M_HASHTABLE_INSERT_INITIAL \<in> insert_type
                                  then value_duplicate_insert h v else value_duplicate_copy h v))
      else Some value)"

definition dup_key :: "('k, 'v, 't) M_hashtable \<Rightarrow> M_hashtable_insert_type set \<Rightarrow> 'k \<Rightarrow> 'k" where
  "dup_key h insert_type key =
     (if M_HASHTABLE_INSERT_DUP \<in> insert_type then
        if M_HASHTABLE_INSERT_INITIAL \<in> insert_type then key_duplicate_insert h key
        else key_duplicate_copy h key
      else key)"

text \<open>
  The list that a new entry of a multi-value table starts with. The list records the values it
  frees itself.
\<close>

definition new_multi :: "('k, 'v::zero, 't::zero) M_hashtable \<Rightarrow> ('v, 't) M_list option" where
  "new_multi h =
     M_list_create
       (Some \<lparr>cb_equality = Some (value_equality h), cb_duplicate_insert = None, cb_duplicate_copy = None\<rparr>)
       (if M_HASHTABLE_MULTI_SORTED \<in> h_flags h then {M_LIST_SORTED} else {})"

text \<open>
  The branch for a key that is not in the table: the position of the new entry, which is in the
  bucket itself when that is empty and else the first of those chained to it.
\<close>

definition insert_new_entry ::
  "('k::zero, 'v::zero, 't::zero) M_hashtable \<Rightarrow> M_hashtable_insert_type set \<Rightarrow> nat \<Rightarrow> 'k
     \<Rightarrow> (nat \<times> ('k, 'v, 't) M_hashtable) option" where
  "insert_new_entry h insert_type idx key = do {
     let rehash = (M_HASHTABLE_INSERT_REHASH \<in> insert_type);
     let h = (if \<not> rehash then h\<lparr>num_keys := num_keys h + 1\<rparr> else h);
     c \<leftarrow> arr_get (buckets h) idx;
     let k = dup_key h insert_type key;
     e \<leftarrow> (if multi h \<and> \<not> rehash
            then do { l \<leftarrow> new_multi h; Some \<lparr>b_key = k, b_value = HMulti l\<rparr> }
            else Some \<lparr>b_key = k, b_value = HValue NULL\<rparr>);
     let (j, c, h) = (if bucket_empty c then (0, e # tl c, h)
                      else (1, hd c # e # tl c, h\<lparr>num_collisions := num_collisions h + 1\<rparr>));
     bs \<leftarrow> arr_set (buckets h) idx c;
     let h = h\<lparr>buckets := bs\<rparr>;
     h \<leftarrow> (if ordered h \<and> \<not> rehash then do {
              ks \<leftarrow> h_keys h;
              (n, ks) \<leftarrow> M_llist_insert ks k;
              Some (h\<lparr>h_keys := Some ks\<rparr>)
            } else Some h);
     Some (j, h)
   }"

text \<open>\<open>M_hashtable_insert_direct\<close> after the entry has been found or made.\<close>

definition insert_store ::
  "('k::zero, 'v::zero, 't::zero) M_hashtable \<Rightarrow> M_hashtable_insert_type set \<Rightarrow> nat \<Rightarrow> nat \<Rightarrow> bool
     \<Rightarrow> ('v, 't) M_hashtable_value \<Rightarrow> ('k, 'v, 't) M_hashtable option" where
  "insert_store h insert_type idx j key_added myvalue = do {
     entry \<leftarrow> entry_get h idx j;
     if multi h then
       if M_HASHTABLE_INSERT_REHASH \<in> insert_type
       then entry_set h idx j (entry\<lparr>b_value := myvalue\<rparr>)
       else do {
         l \<leftarrow> multi_of entry;
         v \<leftarrow> (case myvalue of HValue v \<Rightarrow> Some v | HMulti _ \<Rightarrow> None);
         (b, l) \<leftarrow> M_list_insert l v;
         h \<leftarrow> entry_set h idx j (entry\<lparr>b_value := HMulti l\<rparr>);
         Some (h\<lparr>num_values := num_values h + 1\<rparr>)
       }
     else do {
       h \<leftarrow> entry_set h idx j (entry\<lparr>b_value := myvalue\<rparr>);
       Some (if key_added \<and> M_HASHTABLE_INSERT_REHASH \<notin> insert_type
             then h\<lparr>num_values := num_values h + 1\<rparr> else h)
     }
   }"

definition M_hashtable_insert_direct ::
  "('k::zero, 'v::zero, 't::zero) M_hashtable \<Rightarrow> M_hashtable_insert_type set \<Rightarrow> 'k
     \<Rightarrow> ('v, 't) M_hashtable_value \<Rightarrow> (bool \<times> ('k, 'v, 't) M_hashtable) option" where
  "M_hashtable_insert_direct h insert_type key value =
     (if key = NULL then Some (False, h)
      else do {
        myvalue \<leftarrow> dup_value h insert_type value;
        let idx = HASH_IDX h key;
        m \<leftarrow> M_hashtable_get_match h idx key;
        case m of
          None \<Rightarrow> do {
            (j, h) \<leftarrow> insert_new_entry h insert_type idx key;
            h \<leftarrow> insert_store h insert_type idx j True myvalue;
            Some (True, h)
          }
        | Some j \<Rightarrow> do {
            entry \<leftarrow> entry_get h idx j;
            if \<not> multi h then do {
              v \<leftarrow> value_of entry;
              if (case myvalue of HValue v' \<Rightarrow> v = v' | HMulti _ \<Rightarrow> False) then Some (True, h)
              else do {
                h \<leftarrow> insert_store (free_values h [v]) insert_type idx j False myvalue;
                Some (True, h)
              }
            } else do {
              h \<leftarrow> insert_store h insert_type idx j False myvalue;
              Some (True, h)
            }
          }
      })"

section \<open>Rehashing and destruction\<close>

definition M_hashtable_destroy_entry ::
  "('k::zero, 'v, 't) M_hashtable \<Rightarrow> ('k, 'v, 't) M_hashtable_bucket \<Rightarrow> bool \<Rightarrow> ('k, 'v, 't) M_hashtable option" where
  "M_hashtable_destroy_entry h entry destroy_vals = do {
     h \<leftarrow> (if ordered h then do {
              ks \<leftarrow> h_keys h;
              (cnt, ks) \<leftarrow> M_llist_remove_val ks (b_key entry) {};
              Some (h\<lparr>h_keys := Some ks\<rparr>)
            } else Some h);
     let h = free_keys h [b_key entry];
     if multi h then do {
       l \<leftarrow> multi_of entry;
       vs \<leftarrow> M_list_destroy l destroy_vals;
       Some (free_values h vs)
     }
     else if destroy_vals then do { v \<leftarrow> value_of entry; Some (free_values h [v]) }
     else Some h
   }"

fun rehash_chain ::
  "('k::zero, 'v::zero, 't::zero) M_hashtable \<Rightarrow> bool \<Rightarrow> bool \<Rightarrow> ('k, 'v, 't) M_hashtable_bucket list
     \<Rightarrow> ('k, 'v, 't) M_hashtable option" where
  "rehash_chain h is_destroy destroy_vals [] = Some h"
| "rehash_chain h is_destroy destroy_vals (e # es) = do {
     h \<leftarrow> (if is_destroy then M_hashtable_destroy_entry h e destroy_vals
            else do {
              (b, h) \<leftarrow> M_hashtable_insert_direct h {M_HASHTABLE_INSERT_NODUP, M_HASHTABLE_INSERT_REHASH} (b_key e) (b_value e);
              Some h
            });
     rehash_chain h is_destroy destroy_vals es
   }"

fun rehash_loop ::
  "('k::zero, 'v::zero, 't::zero) M_hashtable \<Rightarrow> bool \<Rightarrow> bool \<Rightarrow> ('k, 'v, 't) M_hashtable_bucket list list
     \<Rightarrow> ('k, 'v, 't) M_hashtable option" where
  "rehash_loop h is_destroy destroy_vals [] = Some h"
| "rehash_loop h is_destroy destroy_vals (c # cs) = do {
     h \<leftarrow> (if bucket_empty c then Some h else rehash_chain h is_destroy destroy_vals c);
     rehash_loop h is_destroy destroy_vals cs
   }"

text \<open>After the destruction, the table as \<open>M_free\<close> finds it.\<close>

definition M_hashtable_rehash_or_destroy ::
  "('k::zero, 'v::zero, 't::zero) M_hashtable \<Rightarrow> bool \<Rightarrow> bool \<Rightarrow> ('k, 'v, 't) M_hashtable option" where
  "M_hashtable_rehash_or_destroy h is_destroy destroy_vals =
     (if \<not> is_destroy \<and> push_bit 1 (h_size h) > M_HASHTABLE_MAX_BUCKETS then Some h
      else do {
        let old = buckets h;
        let h = (if \<not> is_destroy
                 then h\<lparr>h_size := push_bit 1 (h_size h), num_expansions := num_expansions h + 1,
                        buckets := replicate (unat (push_bit 1 (h_size h))) []\<rparr>
                 else h);
        h \<leftarrow> rehash_loop h is_destroy destroy_vals old;
        if is_destroy \<and> ordered h then do {
          ks \<leftarrow> h_keys h;
          ks \<leftarrow> M_llist_destroy ks False;
          Some (h\<lparr>h_keys := Some ks\<rparr>)
        } else Some h
      })"

definition M_hashtable_destroy ::
  "('k::zero, 'v::zero, 't::zero) M_hashtable \<Rightarrow> bool \<Rightarrow> ('k, 'v, 't) M_hashtable option" where
  "M_hashtable_destroy h destroy_vals = M_hashtable_rehash_or_destroy h True destroy_vals"

definition M_hashtable_exceeds_load :: "('k, 'v, 't) M_hashtable \<Rightarrow> bool" where
  "M_hashtable_exceeds_load h \<longleftrightarrow>
     fillpct h \<noteq> 0 \<and> size_mul (num_keys h) 100 div unat (h_size h) \<ge> unat (fillpct h)"

definition M_hashtable_insert_int ::
  "('k::zero, 'v::zero, 't::zero) M_hashtable \<Rightarrow> bool \<Rightarrow> 'k \<Rightarrow> 'v \<Rightarrow> (bool \<times> ('k, 'v, 't) M_hashtable) option" where
  "M_hashtable_insert_int h initial_insert key value = do {
     let insert_type = (if initial_insert then {M_HASHTABLE_INSERT_DUP, M_HASHTABLE_INSERT_INITIAL}
                        else {M_HASHTABLE_INSERT_DUP});
     (ok, h) \<leftarrow> M_hashtable_insert_direct h insert_type key (HValue value);
     if \<not> ok then Some (False, h)
     else do {
       h \<leftarrow> (if M_hashtable_exceeds_load h then M_hashtable_rehash_or_destroy h False False else Some h);
       Some (True, h)
     }
   }"

definition M_hashtable_insert ::
  "('k::zero, 'v::zero, 't::zero) M_hashtable \<Rightarrow> 'k \<Rightarrow> 'v \<Rightarrow> (bool \<times> ('k, 'v, 't) M_hashtable) option" where
  "M_hashtable_insert h key value = M_hashtable_insert_int h True key value"

section \<open>Removal\<close>

text \<open>
  The entry after the one that is removed, if there is one, is copied over it; a bucket without a
  chain is cleared; the last entry of a chain is cut off. In each case the chain loses that entry.
\<close>

definition chain_remove :: "('k, 'v, 't) M_hashtable_bucket list \<Rightarrow> nat \<Rightarrow> ('k, 'v, 't) M_hashtable_bucket list" where
  "chain_remove c j = take j c @ drop (Suc j) c"

definition M_hashtable_remove ::
  "('k::zero, 'v::zero, 't::zero) M_hashtable \<Rightarrow> 'k \<Rightarrow> bool \<Rightarrow> (bool \<times> ('k, 'v, 't) M_hashtable) option" where
  "M_hashtable_remove h key destroy_vals =
     (if key = NULL then Some (False, h)
      else do {
        let idx = HASH_IDX h key;
        m \<leftarrow> M_hashtable_get_match h idx key;
        case m of None \<Rightarrow> Some (False, h)
        | Some j \<Rightarrow> do {
            entry \<leftarrow> entry_get h idx j;
            value_cnt \<leftarrow> (if multi h then do { l \<leftarrow> multi_of entry; Some (M_list_len l) } else Some 1);
            h \<leftarrow> M_hashtable_destroy_entry h entry destroy_vals;
            c \<leftarrow> arr_get (buckets h) idx;
            bs \<leftarrow> arr_set (buckets h) idx (chain_remove c j);
            Some (True, h\<lparr>buckets := bs, num_keys := size_sub (num_keys h) 1,
                          num_values := size_sub (num_values h) value_cnt\<rparr>)
          }
      })"

section \<open>Several values\<close>

definition M_hashtable_is_multi :: "('k, 'v, 't) M_hashtable \<Rightarrow> bool" where
  "M_hashtable_is_multi h = multi h"

definition M_hashtable_multi_len ::
  "('k::zero, 'v, 't::zero) M_hashtable \<Rightarrow> 'k \<Rightarrow> nat option option" where
  "M_hashtable_multi_len h key =
     (if \<not> multi h \<or> key = NULL then Some None
      else do {
        let hash_idx = HASH_IDX h key;
        m \<leftarrow> M_hashtable_get_match h hash_idx key;
        case m of None \<Rightarrow> Some None
        | Some j \<Rightarrow> do {
            entry \<leftarrow> entry_get h hash_idx j;
            l \<leftarrow> multi_of entry;
            Some (Some (M_list_len l))
          }
      })"

definition M_hashtable_multi_get ::
  "('k::zero, 'v::zero, 't::zero) M_hashtable \<Rightarrow> 'k \<Rightarrow> nat \<Rightarrow> 'v option option" where
  "M_hashtable_multi_get h key idx =
     (if \<not> multi h \<or> key = NULL then Some None
      else do {
        let hash_idx = HASH_IDX h key;
        m \<leftarrow> M_hashtable_get_match h hash_idx key;
        case m of None \<Rightarrow> Some None
        | Some j \<Rightarrow> do { entry \<leftarrow> entry_get h hash_idx j; M_hashtable_get_int h entry idx }
      })"

definition M_hashtable_multi_remove ::
  "('k::zero, 'v::zero, 't::zero) M_hashtable \<Rightarrow> 'k \<Rightarrow> nat \<Rightarrow> bool \<Rightarrow> (bool \<times> ('k, 'v, 't) M_hashtable) option" where
  "M_hashtable_multi_remove h key idx destroy_vals =
     (if \<not> multi h \<or> key = NULL then Some (False, h)
      else do {
        let hash_idx = HASH_IDX h key;
        m \<leftarrow> M_hashtable_get_match h hash_idx key;
        case m of None \<Rightarrow> Some (False, h)
        | Some j \<Rightarrow> do {
            entry \<leftarrow> entry_get h hash_idx j;
            l \<leftarrow> multi_of entry;
            let value_len = M_list_len l;
            if idx \<ge> value_len then Some (False, h)
            else if value_len = 1 then M_hashtable_remove h key destroy_vals
            else do {
              (value, l) \<leftarrow> M_list_take_at l idx;
              h \<leftarrow> entry_set h hash_idx j (entry\<lparr>b_value := HMulti l\<rparr>);
              Some (True, if destroy_vals then free_values h [value] else h)
            }
          }
      })"

definition M_hashtable_size :: "('k, 'v, 't) M_hashtable \<Rightarrow> M_uint32" where
  "M_hashtable_size h = h_size h"

definition M_hashtable_num_collisions :: "('k, 'v, 't) M_hashtable \<Rightarrow> nat" where
  "M_hashtable_num_collisions h = num_collisions h"

definition M_hashtable_num_expansions :: "('k, 'v, 't) M_hashtable \<Rightarrow> nat" where
  "M_hashtable_num_expansions h = num_expansions h"

definition M_hashtable_num_keys :: "('k, 'v, 't) M_hashtable \<Rightarrow> nat" where
  "M_hashtable_num_keys h = num_keys h"

section \<open>Enumeration\<close>

definition M_hashtable_enumerate ::
  "('k, 'v, 't) M_hashtable \<Rightarrow> (nat \<times> M_hashtable_enum) option" where
  "M_hashtable_enumerate h = do {
     let hashenum = \<lparr>e_hash = 0, e_chainid = 0, e_keynode = NULL, e_valueidx = 0\<rparr>;
     hashenum \<leftarrow> (if ordered h
                   then do { ks \<leftarrow> h_keys h; n \<leftarrow> M_llist_first ks; Some (hashenum\<lparr>e_keynode := n\<rparr>) }
                   else Some hashenum);
     Some (num_values h, hashenum)
   }"

text \<open>
  The loop over the buckets from \<open>i\<close> on. The result has the key and the value, or none when the
  enumeration is over.
\<close>

function enumerate_buckets ::
  "('k::zero, 'v::zero, 't) M_hashtable \<Rightarrow> M_hashtable_enum \<Rightarrow> nat \<Rightarrow> (('k \<times> 'v) option \<times> M_hashtable_enum) option" where
  "enumerate_buckets h hashenum i =
     (if i < unat (h_size h) then do {
        c \<leftarrow> arr_get (buckets h) i;
        if \<not> bucket_empty c \<and> e_chainid hashenum < length c then do {
          let ptr = c ! e_chainid hashenum;
          (myvalue, hashenum, last_value) \<leftarrow>
            (if multi h then do {
               l \<leftarrow> multi_of ptr;
               v \<leftarrow> M_list_at l (e_valueidx hashenum);
               let hashenum = hashenum\<lparr>e_valueidx := e_valueidx hashenum + 1\<rparr>;
               Some (v, hashenum, e_valueidx hashenum \<ge> M_list_len l)
             } else do { v \<leftarrow> value_of ptr; Some (v, hashenum, True) });
          let hashenum = (if last_value
                          then hashenum\<lparr>e_chainid := e_chainid hashenum + 1, e_valueidx := 0\<rparr>
                          else hashenum);
          Some (Some (b_key ptr, myvalue), hashenum\<lparr>e_hash := i\<rparr>)
        }
        else enumerate_buckets h (hashenum\<lparr>e_chainid := 0\<rparr>) (i + 1)
      } else Some (None, hashenum))"
  by pat_completeness auto
termination
  by (relation "measure (\<lambda>(h, hashenum, i). unat (h_size h) - i)") auto

declare enumerate_buckets.simps [simp del]

definition M_hashtable_enumerate_next_unordered ::
  "('k::zero, 'v::zero, 't) M_hashtable \<Rightarrow> M_hashtable_enum \<Rightarrow> (('k \<times> 'v) option \<times> M_hashtable_enum) option" where
  "M_hashtable_enumerate_next_unordered h hashenum = enumerate_buckets h hashenum (e_hash hashenum)"

definition M_hashtable_enumerate_next_ordered ::
  "('k::zero, 'v::zero, 't::zero) M_hashtable \<Rightarrow> M_hashtable_enum \<Rightarrow> (('k \<times> 'v) option \<times> M_hashtable_enum) option" where
  "M_hashtable_enumerate_next_ordered h hashenum =
     (if e_keynode hashenum = NULL then Some (None, hashenum)
      else do {
        ks \<leftarrow> h_keys h;
        mykey \<leftarrow> M_llist_node_val ks (e_keynode hashenum);
        if multi h then do {
          v \<leftarrow> M_hashtable_multi_get h mykey (e_valueidx hashenum);
          case v of None \<Rightarrow> Some (None, hashenum)
          | Some myvalue \<Rightarrow> do {
              let hashenum = hashenum\<lparr>e_valueidx := e_valueidx hashenum + 1\<rparr>;
              len \<leftarrow> M_hashtable_multi_len h mykey;
              case len of None \<Rightarrow> Some (None, hashenum)
              | Some multi_len \<Rightarrow> do {
                  hashenum \<leftarrow> (if e_valueidx hashenum \<ge> multi_len then do {
                                 n \<leftarrow> M_llist_node_next ks (e_keynode hashenum);
                                 Some (hashenum\<lparr>e_keynode := n, e_valueidx := 0\<rparr>)
                               } else Some hashenum);
                  Some (Some (mykey, myvalue), hashenum)
                }
            }
        }
        else do {
          v \<leftarrow> M_hashtable_get h mykey;
          n \<leftarrow> M_llist_node_next ks (e_keynode hashenum);
          Some (Some (mykey, case v of None \<Rightarrow> NULL | Some v \<Rightarrow> v), hashenum\<lparr>e_keynode := n\<rparr>)
        }
      })"

definition M_hashtable_enumerate_next ::
  "('k::zero, 'v::zero, 't::zero) M_hashtable \<Rightarrow> M_hashtable_enum \<Rightarrow> (('k \<times> 'v) option \<times> M_hashtable_enum) option" where
  "M_hashtable_enumerate_next h hashenum =
     (if ordered h then M_hashtable_enumerate_next_ordered h hashenum
      else M_hashtable_enumerate_next_unordered h hashenum)"

section \<open>Merging and duplication\<close>

text \<open>A handle of the merge that may be null: its insertions and lookups then do nothing.\<close>

definition insert_null ::
  "('k::zero, 'v::zero, 't::zero) M_hashtable option \<Rightarrow> 'k \<Rightarrow> ('k, 'v, 't) M_hashtable option option" where
  "insert_null h key =
     (case h of None \<Rightarrow> Some None
      | Some h \<Rightarrow> do {
          (b, h) \<leftarrow> M_hashtable_insert_direct h {M_HASHTABLE_INSERT_NODUP} key (HValue NULL);
          Some (Some h)
        })"

definition get_null :: "('k::zero, 'v::zero, 't::zero) M_hashtable option \<Rightarrow> 'k \<Rightarrow> bool option" where
  "get_null h key =
     (case h of None \<Rightarrow> Some False | Some h \<Rightarrow> do { v \<leftarrow> M_hashtable_get h key; Some (v \<noteq> None) })"

definition merge_step ::
  "('k::zero, 'v::zero, 't::zero) M_hashtable \<Rightarrow> ('k, 'v, 't) M_hashtable
     \<Rightarrow> ('k, 'v, 't) M_hashtable option \<Rightarrow> ('k, 'v, 't) M_hashtable option \<Rightarrow> 'k \<Rightarrow> 'v
     \<Rightarrow> (('k, 'v, 't) M_hashtable \<times> ('k, 'v, 't) M_hashtable option \<times> ('k, 'v, 't) M_hashtable option) option" where
  "merge_step src dest h3 hm key value = do {
     v \<leftarrow> M_hashtable_get dest key;
     h3 \<leftarrow> (if v \<noteq> None then
               if multi src then do {
                 seen \<leftarrow> get_null hm key;
                 if \<not> seen then insert_null h3 key else Some h3
               } else insert_null h3 key
             else Some h3);
     (b, dest) \<leftarrow> M_hashtable_insert_direct dest {M_HASHTABLE_INSERT_NODUP} key (HValue value);
     hm \<leftarrow> (if multi src then do {
               seen \<leftarrow> get_null hm key;
               if \<not> seen then insert_null hm key else Some hm
             } else Some hm);
     dest \<leftarrow> (if M_hashtable_exceeds_load dest then M_hashtable_rehash_or_destroy dest False False else Some dest);
     Some (dest, h3, hm)
   }"

partial_function (option) hashtable_merge_loop ::
  "('k::zero, 'v::zero, 't::zero) M_hashtable \<Rightarrow> M_hashtable_enum \<Rightarrow> ('k, 'v, 't) M_hashtable
     \<Rightarrow> ('k, 'v, 't) M_hashtable option \<Rightarrow> ('k, 'v, 't) M_hashtable option
     \<Rightarrow> (('k, 'v, 't) M_hashtable \<times> ('k, 'v, 't) M_hashtable option \<times> ('k, 'v, 't) M_hashtable option) option" where
  "hashtable_merge_loop src hashenum dest h3 hm = do {
     (kv, hashenum) \<leftarrow> M_hashtable_enumerate_next src hashenum;
     case kv of None \<Rightarrow> Some (dest, h3, hm)
     | Some (key, value) \<Rightarrow> do {
         (dest, h3, hm) \<leftarrow> merge_step src dest h3 hm key value;
         hashtable_merge_loop src hashenum dest h3 hm
       }
   }"

definition destroy_null ::
  "('k::zero, 'v::zero, 't::zero) M_hashtable option \<Rightarrow> ('k, 'v, 't) M_hashtable option option" where
  "destroy_null h =
     (case h of None \<Rightarrow> Some None | Some h \<Rightarrow> do { h \<leftarrow> M_hashtable_destroy h False; Some (Some h) })"

text \<open>
  The result is the destination, and the source and the table of duplicate keys as their
  destruction leaves them.
\<close>

definition M_hashtable_merge ::
  "M_uint64 \<Rightarrow> ('k \<Rightarrow> M_uint32 \<Rightarrow> M_uint32) \<Rightarrow> ('k, 't) M_sort_compar_t
     \<Rightarrow> ('k::zero, 'v::zero, 't::zero) M_hashtable \<Rightarrow> ('k, 'v, 't) M_hashtable
     \<Rightarrow> (('k, 'v, 't) M_hashtable \<times> ('k, 'v, 't) M_hashtable \<times> ('k, 'v, 't) M_hashtable option) option" where
  "M_hashtable_merge env hash_vp compar_vp dest src = do {
     let callbacks = \<lparr>hcb_key_duplicate_insert = Some (key_duplicate_insert src),
                      hcb_key_duplicate_copy = Some (key_duplicate_copy src), hcb_key_free = key_free src,
                      hcb_value_duplicate_insert = None, hcb_value_duplicate_copy = None,
                      hcb_value_equality = None, hcb_value_free = False\<rparr>;
     h3 \<leftarrow> M_hashtable_create env hash_vp compar_vp (unat (h_size src)) (fillpct src) (Some (key_hash src))
             (Some (key_equality src)) (h_flags src) (Some callbacks);
     hm \<leftarrow> M_hashtable_create env hash_vp compar_vp (unat (h_size src)) (fillpct src) (Some (key_hash src))
             (Some (key_equality src)) (h_flags src) None;
     let src = src\<lparr>key_free := False, h_value_free := False\<rparr>;
     (n, hashenum) \<leftarrow> M_hashtable_enumerate src;
     (dest, h3, hm) \<leftarrow> (if n \<noteq> 0 then hashtable_merge_loop src hashenum dest h3 hm else Some (dest, h3, hm));
     src \<leftarrow> M_hashtable_destroy src False;
     hm \<leftarrow> destroy_null hm;
     h3 \<leftarrow> destroy_null h3;
     Some (dest, src, h3)
   }"

partial_function (option) hashtable_duplicate_loop ::
  "('k::zero, 'v::zero, 't::zero) M_hashtable \<Rightarrow> M_hashtable_enum \<Rightarrow> ('k, 'v, 't) M_hashtable
     \<Rightarrow> ('k, 'v, 't) M_hashtable option" where
  "hashtable_duplicate_loop h hashenum dest = do {
     (kv, hashenum) \<leftarrow> M_hashtable_enumerate_next h hashenum;
     case kv of None \<Rightarrow> Some dest
     | Some (key, value) \<Rightarrow> do {
         (b, dest) \<leftarrow> M_hashtable_insert_int dest False key value;
         hashtable_duplicate_loop h hashenum dest
       }
   }"

declare hashtable_merge_loop.simps [code] hashtable_duplicate_loop.simps [code]

definition M_hashtable_duplicate ::
  "M_uint64 \<Rightarrow> ('k \<Rightarrow> M_uint32 \<Rightarrow> M_uint32) \<Rightarrow> ('k, 't) M_sort_compar_t
     \<Rightarrow> ('k::zero, 'v::zero, 't::zero) M_hashtable \<Rightarrow> ('k, 'v, 't) M_hashtable option option" where
  "M_hashtable_duplicate env hash_vp compar_vp h = do {
     let callbacks = \<lparr>hcb_key_duplicate_insert = Some (key_duplicate_insert h),
                      hcb_key_duplicate_copy = Some (key_duplicate_copy h), hcb_key_free = key_free h,
                      hcb_value_duplicate_insert = Some (value_duplicate_insert h),
                      hcb_value_duplicate_copy = Some (value_duplicate_copy h),
                      hcb_value_equality = Some (value_equality h), hcb_value_free = h_value_free h\<rparr>;
     dest \<leftarrow> M_hashtable_create env hash_vp compar_vp (unat (h_size h)) (fillpct h) (Some (key_hash h))
               (Some (key_equality h)) (h_flags h) (Some callbacks);
     (n, hashenum) \<leftarrow> M_hashtable_enumerate h;
     case dest of None \<Rightarrow> Some None
     | Some dest \<Rightarrow> do {
         dest \<leftarrow> (if n \<noteq> 0 then hashtable_duplicate_loop h hashenum dest else Some dest);
         Some (Some dest)
       }
   }"

end
