(* ===== verification/M_Hashtable_Ok.thy ===== *)
theory M_Hashtable_Ok
  imports M_Hashtable
begin

text \<open>
  The well-formedness of a hash table with one value per key, and what the internal operations do
  to the multiset of its entries. What a lookup gives depends on that multiset only, so that the
  buckets, their number and the order of the chains drop out of the public statements.
\<close>

section \<open>The contract of the callbacks\<close>

text \<open>The comparison is an equivalence as far as zero is concerned, and equal keys have equal hashes.\<close>

locale hash_contract =
  fixes equal :: "('k, 't::zero) M_sort_compar_t" and hash :: "'k \<Rightarrow> M_uint32 \<Rightarrow> M_uint32"
  assumes equal_refl: "equal k k 0 = 0"
    and equal_sym: "equal a b 0 = 0 \<Longrightarrow> equal b a 0 = 0"
    and equal_trans: "equal a b 0 = 0 \<Longrightarrow> equal b c 0 = 0 \<Longrightarrow> equal a c 0 = 0"
    and hash_equal: "equal a b 0 = 0 \<Longrightarrow> hash a s = hash b s"

interpretation vp_hash: hash_contract "M_sort_compar_vp :: (M_uint64 option, nat) M_sort_compar_t"
  "\<lambda>k. case k of None \<Rightarrow> (\<lambda>s. 0) | Some p \<Rightarrow> M_hash_func_hash_vp p"
  by unfold_locales (auto simp: M_sort_compar_vp_def split: option.splits if_splits)

section \<open>Lists of chains\<close>

lemma mset_concat_update:
  "i < length xs \<Longrightarrow> mset (concat (xs[i := c])) + mset (xs ! i) = mset (concat xs) + mset c"
proof (induction xs arbitrary: i)
  case (Cons x xs)
  then show ?case by (cases i) (auto simp: union_assoc)
qed simp

lemma in_concat_nth: "x \<in> set (concat xs) \<longleftrightarrow> (\<exists>i<length xs. x \<in> set (xs ! i))"
  unfolding set_concat UN_iff by (metis in_set_conv_nth)

section \<open>Well-formed tables\<close>

abbreviation keq :: "('k, 'v, 't::zero) M_hashtable \<Rightarrow> 'k \<Rightarrow> 'k \<Rightarrow> bool" where
  "keq h a b \<equiv> key_equality h a b 0 = 0"

definition chain_ok :: "('k::zero, 'v, 't::zero) M_hashtable \<Rightarrow> nat \<Rightarrow> ('k, 'v, 't) M_hashtable_bucket list \<Rightarrow> bool" where
  "chain_ok h i c \<longleftrightarrow>
     (\<forall>e\<in>set c. b_key e \<noteq> 0 \<and> HASH_IDX h (b_key e) = i \<and> value_of e \<noteq> None) \<and>
     sorted_wrt (\<lambda>e e'. \<not> keq h (b_key e) (b_key e')) c"

text \<open>\<open>tbl_ok\<close> is about the buckets alone, \<open>hash_ok\<close> also about the counters.\<close>

definition tbl_ok :: "('k::zero, 'v, 't::zero) M_hashtable \<Rightarrow> bool" where
  "tbl_ok h \<longleftrightarrow>
     hash_contract (key_equality h) (key_hash h) \<and> \<not> ordered h \<and> \<not> multi h \<and>
     (\<exists>k\<le>24. h_size h = 2 ^ k) \<and> length (buckets h) = unat (h_size h) \<and>
     (\<forall>i<length (buckets h). chain_ok h i (buckets h ! i))"

definition ents :: "('k, 'v, 't) M_hashtable \<Rightarrow> ('k, 'v, 't) M_hashtable_bucket multiset" where
  "ents h = mset (concat (buckets h))"

definition hash_ok :: "('k::zero, 'v, 't::zero) M_hashtable \<Rightarrow> bool" where
  "hash_ok h \<longleftrightarrow>
     tbl_ok h \<and> num_keys h = size (ents h) \<and> num_values h = size (ents h) \<and> size (ents h) < SIZE_MOD"

text \<open>The callbacks and settings, which no operation changes.\<close>

definition same_table :: "('k, 'v, 't) M_hashtable \<Rightarrow> ('k, 'v, 't) M_hashtable \<Rightarrow> bool" where
  "same_table h h' \<longleftrightarrow>
     key_equality h' = key_equality h \<and> key_hash h' = key_hash h \<and>
     key_duplicate_insert h' = key_duplicate_insert h \<and> key_duplicate_copy h' = key_duplicate_copy h \<and>
     key_free h' = key_free h \<and> value_duplicate_insert h' = value_duplicate_insert h \<and>
     value_duplicate_copy h' = value_duplicate_copy h \<and> value_equality h' = value_equality h \<and>
     h_value_free h' = h_value_free h \<and> key_hash_seed h' = key_hash_seed h \<and> fillpct h' = fillpct h \<and>
     h_flags h' = h_flags h"

lemma same_table_refl [simp]: "same_table h h"
  by (simp add: same_table_def)

lemma same_table_trans: "same_table h h' \<Longrightarrow> same_table h' h'' \<Longrightarrow> same_table h h''"
  by (simp add: same_table_def)

lemma unat_exp: "k \<le> 24 \<Longrightarrow> unat (2 ^ k :: M_uint32) = 2 ^ k"
proof -
  assume "k \<le> 24"
  then have "(2 :: nat) ^ k < 2 ^ 32" by (intro power_strict_increasing) auto
  then show ?thesis using unat_of_nat [of "2 ^ k", where 'a = 32] by simp
qed

lemma HASH_IDX_less:
  assumes "tbl_ok h"
  shows "HASH_IDX h key < length (buckets h)"
proof -
  obtain k where k: "k \<le> 24" "h_size h = 2 ^ k" using assms by (auto simp: tbl_ok_def)
  have "key_hash h key (key_hash_seed h) AND (2 ^ k - 1) = take_bit k (key_hash h key (key_hash_seed h))"
    by (simp add: take_bit_eq_mask mask_eq_exp_minus_1)
  moreover have "unat (take_bit k w) < 2 ^ k" for w :: M_uint32
    by (simp add: unsigned_take_bit_eq)
  ultimately show ?thesis using assms k(2) unat_exp [OF k(1)] by (simp add: HASH_IDX_def tbl_ok_def)
qed

lemma chain_find_Some:
  "chain_find equal key c = Some j \<Longrightarrow> j < length c \<and> equal (b_key (c ! j)) key 0 = 0"
  by (induction c arbitrary: j) (auto split: if_splits)

lemma chain_find_None: "chain_find equal key c = None \<longleftrightarrow> (\<forall>e\<in>set c. equal (b_key e) key 0 \<noteq> 0)"
  by (induction c) auto

lemma chain_ok_empty: "chain_ok h i c \<Longrightarrow> bucket_empty c \<longleftrightarrow> c = []"
  by (auto simp: chain_ok_def bucket_empty_def split: list.splits)

lemma get_match_eq:
  assumes "tbl_ok h"
  shows "M_hashtable_get_match h (HASH_IDX h key) key =
    Some (chain_find (key_equality h) key (buckets h ! HASH_IDX h key))"
  using HASH_IDX_less [OF assms, of key] assms chain_ok_empty [of h]
  by (auto simp: M_hashtable_get_match_def arr_get_def tbl_ok_def)

text \<open>An entry whose key equals another is found in the bucket of that key.\<close>

lemma ent_in_bucket:
  assumes "tbl_ok h" "e \<in># ents h" "keq h (b_key e) key"
  shows "e \<in> set (buckets h ! HASH_IDX h key)"
proof -
  obtain i where i: "i < length (buckets h)" "e \<in> set (buckets h ! i)"
    using assms(2) by (auto simp: ents_def in_concat_nth simp del: set_concat)
  have "HASH_IDX h (b_key e) = i" using assms(1) i by (auto simp: tbl_ok_def chain_ok_def)
  moreover have "HASH_IDX h (b_key e) = HASH_IDX h key"
    using hash_contract.hash_equal [of "key_equality h" "key_hash h" "b_key e" key] assms(1,3)
    by (simp add: HASH_IDX_def tbl_ok_def)
  ultimately show ?thesis using i by simp
qed

lemma in_ents: "i < length (buckets h) \<Longrightarrow> e \<in> set (buckets h ! i) \<Longrightarrow> e \<in># ents h"
  by (auto simp: ents_def in_concat_nth simp del: set_concat)

text \<open>There is at most one entry for a key, and the lookup finds it.\<close>

lemma get_match_None:
  assumes "tbl_ok h"
  shows "chain_find (key_equality h) key (buckets h ! HASH_IDX h key) = None \<longleftrightarrow>
    (\<forall>e\<in>#ents h. \<not> keq h (b_key e) key)"
  unfolding chain_find_None
  using ent_in_bucket [OF assms] in_ents [OF HASH_IDX_less [OF assms]] by blast

lemma sorted_wrt_sym_nth:
  assumes "sorted_wrt P xs" "i < length xs" "j < length xs" "i \<noteq> j" "\<And>x y. P x y \<Longrightarrow> P y x"
  shows "P (xs ! i) (xs ! j)"
  using assms by (metis linorder_neqE_nat sorted_wrt_iff_nth_less)

lemma keq_contract:
  assumes "tbl_ok h"
  shows "keq h k k" "keq h a b \<Longrightarrow> keq h b a" "keq h a b \<Longrightarrow> keq h b c \<Longrightarrow> keq h a c"
    "keq h a b \<Longrightarrow> HASH_IDX h a = HASH_IDX h b"
proof -
  have c: "hash_contract (key_equality h) (key_hash h)" using assms by (simp add: tbl_ok_def)
  show "keq h k k" "keq h a b \<Longrightarrow> keq h b a" "keq h a b \<Longrightarrow> keq h b c \<Longrightarrow> keq h a c"
    using hash_contract.equal_refl [OF c] hash_contract.equal_sym [OF c] hash_contract.equal_trans [OF c] by blast+
  show "keq h a b \<Longrightarrow> HASH_IDX h a = HASH_IDX h b" using hash_contract.hash_equal [OF c] by (simp add: HASH_IDX_def)
qed

lemma ent_unique:
  assumes "tbl_ok h" "e \<in># ents h" "e' \<in># ents h" "keq h (b_key e) key" "keq h (b_key e') key"
  shows "e = e'"
proof (rule ccontr)
  let ?c = "buckets h ! HASH_IDX h key"
  assume neq: "e \<noteq> e'"
  obtain i j where ij: "i < length ?c" "?c ! i = e" "j < length ?c" "?c ! j = e'"
    using ent_in_bucket [OF assms(1,2,4)] ent_in_bucket [OF assms(1,3,5)] by (auto simp: in_set_conv_nth)
  have "sorted_wrt (\<lambda>e e'. \<not> keq h (b_key e) (b_key e')) ?c"
    using assms(1) HASH_IDX_less [OF assms(1)] by (auto simp: tbl_ok_def chain_ok_def)
  then have "\<not> keq h (b_key e) (b_key e')"
    using sorted_wrt_sym_nth [of _ ?c i j] ij neq keq_contract(2) [OF assms(1)] by blast
  then show False using assms(4,5) keq_contract [OF assms(1)] by blast
qed

section \<open>Lookup\<close>

text \<open>The value that the table has for a key.\<close>

definition maps :: "('k, 'v, 't::zero) M_hashtable \<Rightarrow> 'k \<Rightarrow> 'v \<Rightarrow> bool" where
  "maps h key v \<longleftrightarrow> (\<exists>e\<in>#ents h. keq h (b_key e) key \<and> value_of e = Some v)"

lemma get_eq:
  assumes "tbl_ok h" "key \<noteq> 0"
  shows "M_hashtable_get h key =
    Some (case chain_find (key_equality h) key (buckets h ! HASH_IDX h key) of None \<Rightarrow> None
          | Some j \<Rightarrow> value_of (buckets h ! HASH_IDX h key ! j))"
proof (cases "chain_find (key_equality h) key (buckets h ! HASH_IDX h key)")
  case None
  then show ?thesis using assms by (simp add: M_hashtable_get_def get_match_eq)
next
  case (Some j)
  let ?e = "buckets h ! HASH_IDX h key ! j"
  have j: "j < length (buckets h ! HASH_IDX h key)" using chain_find_Some [OF Some] by simp
  then have "?e \<in> set (buckets h ! HASH_IDX h key)" by simp
  then obtain v where "value_of ?e = Some v"
    using assms(1) HASH_IDX_less [OF assms(1), of key] by (fastforce simp: tbl_ok_def chain_ok_def)
  then show ?thesis using assms Some j HASH_IDX_less [OF assms(1), of key]
    by (simp add: M_hashtable_get_def get_match_eq entry_get_def arr_get_def M_hashtable_get_int_def tbl_ok_def)
qed

lemma get_total: "tbl_ok h \<Longrightarrow> key \<noteq> 0 \<Longrightarrow> \<exists>r. M_hashtable_get h key = Some r"
  by (simp add: get_eq)

lemma get_iff:
  assumes "tbl_ok h" "key \<noteq> 0"
  shows "M_hashtable_get h key = Some (Some v) \<longleftrightarrow> maps h key v"
    "M_hashtable_get h key = Some None \<longleftrightarrow> (\<forall>v. \<not> maps h key v)"
proof -
  let ?c = "buckets h ! HASH_IDX h key"
  show a: "M_hashtable_get h key = Some (Some v) \<longleftrightarrow> maps h key v" for v
  proof (cases "chain_find (key_equality h) key ?c")
    case None
    then show ?thesis using get_eq [OF assms] get_match_None [OF assms(1), of key] by (auto simp: maps_def)
  next
    case (Some j)
    then have e: "?c ! j \<in># ents h" "keq h (b_key (?c ! j)) key"
      using chain_find_Some [OF Some] in_ents [OF HASH_IDX_less [OF assms(1)], of "?c ! j" key] by auto
    then have "maps h key v \<longleftrightarrow> value_of (?c ! j) = Some v"
      unfolding maps_def using ent_unique [OF assms(1) _ e(1) _ e(2)] by blast
    then show ?thesis using get_eq [OF assms] Some by simp
  qed
  show "M_hashtable_get h key = Some None \<longleftrightarrow> (\<forall>v. \<not> maps h key v)"
  proof -
    obtain r where r: "M_hashtable_get h key = Some r" using get_total [OF assms] by blast
    show ?thesis using a unfolding r by (cases r) blast+
  qed
qed

text \<open>Two tables that have the same values for a key give the same answer.\<close>

lemma get_cong:
  assumes "tbl_ok h" "tbl_ok h'" "key \<noteq> 0" "\<And>v. maps h' key v \<longleftrightarrow> maps h key v"
  shows "M_hashtable_get h' key = M_hashtable_get h key"
proof -
  obtain r where r: "M_hashtable_get h key = Some r" using get_total [OF assms(1,3)] by blast
  show ?thesis
  proof (cases r)
    case None
    then have "\<forall>v. \<not> maps h' key v" using r get_iff(2) [OF assms(1,3)] assms(4) by simp
    then show ?thesis using get_iff(2) [OF assms(2,3)] r None by simp
  next
    case (Some v)
    then have "maps h' key v" using r get_iff(1) [OF assms(1,3)] assms(4) by simp
    then show ?thesis using get_iff(1) [OF assms(2,3)] r Some by simp
  qed
qed

section \<open>Changing one bucket\<close>

lemma tbl_ok_update:
  assumes "tbl_ok h" "i < length (buckets h)" "chain_ok h i c" "same_table h h'" "h_size h' = h_size h"
    "buckets h' = (buckets h)[i := c]"
  shows "tbl_ok h'" "ents h' + mset (buckets h ! i) = ents h + mset c"
proof -
  have "HASH_IDX h' k = HASH_IDX h k" for k using assms(4,5) by (simp add: HASH_IDX_def same_table_def)
  then have "chain_ok h' j d = chain_ok h j d" for j d using assms(4) by (simp add: chain_ok_def same_table_def)
  then show "tbl_ok h'" using assms by (auto simp: tbl_ok_def same_table_def nth_list_update)
  show "ents h' + mset (buckets h ! i) = ents h + mset c"
    using mset_concat_update [OF assms(2)] by (simp add: ents_def assms(6))
qed

section \<open>Insertion\<close>

text \<open>What an insertion of one more entry \<open>e\<close> does; \<open>n\<close> is what it adds to the counters.\<close>

definition entry_added ::
  "('k::zero, 'v, 't::zero) M_hashtable \<Rightarrow> ('k, 'v, 't) M_hashtable_bucket \<Rightarrow> nat \<Rightarrow> ('k, 'v, 't) M_hashtable \<Rightarrow> bool" where
  "entry_added h e n h' \<longleftrightarrow>
     tbl_ok h' \<and> ents h' = add_mset e (ents h) \<and> same_table h h' \<and> h_size h' = h_size h \<and>
     num_keys h' = num_keys h + n \<and> num_values h' = num_values h + n \<and>
     keys_freed h' = keys_freed h \<and> values_freed h' = values_freed h"

lemma insert_new_ok:
  assumes ok: "tbl_ok h" and key: "key \<noteq> 0" and new: "\<forall>e\<in>#ents h. \<not> keq h (b_key e) key"
    and dup: "dup_key h ty key \<noteq> 0" "keq h (dup_key h ty key) key"
    and val: "dup_value h ty (HValue v) = Some (HValue v')"
  shows "\<exists>h'. M_hashtable_insert_direct h ty key (HValue v) = Some (True, h') \<and>
    entry_added h \<lparr>b_key = dup_key h ty key, b_value = HValue v'\<rparr> (if M_HASHTABLE_INSERT_REHASH \<in> ty then 0 else 1) h'"
proof -
  let ?i = "HASH_IDX h key" and ?k = "dup_key h ty key" and ?n = "if M_HASHTABLE_INSERT_REHASH \<in> ty then 0 else 1 :: nat"
  let ?e = "\<lparr>b_key = ?k, b_value = HValue v'\<rparr>"
  define c where "c = buckets h ! ?i"
  define c' where "c' = (if c = [] then [?e] else hd c # ?e # tl c)"
  have i: "?i < length (buckets h)" by (rule HASH_IDX_less [OF ok])
  have cok: "chain_ok h ?i c" using ok i by (auto simp: tbl_ok_def c_def)
  have nomatch: "\<forall>e\<in>set c. \<not> keq h (b_key e) key" using new in_ents [OF i] by (auto simp: c_def)
  have k: "HASH_IDX h ?k = ?i" using keq_contract(4) [OF ok dup(2)] .
  have nk: "\<not> keq h (b_key e) ?k" "\<not> keq h ?k (b_key e)" if "e \<in> set c" for e
    using nomatch that dup(2) keq_contract [OF ok] by blast+
  have "chain_ok h ?i c'"
    using cok nk k dup(1) by (cases c) (auto simp: chain_ok_def c'_def value_of_def)
  moreover define h' where "h' = h\<lparr>num_keys := num_keys h + ?n, num_values := num_values h + ?n,
    num_collisions := num_collisions h + (if c = [] then 0 else 1), buckets := (buckets h)[?i := c']\<rparr>"
  have st: "same_table h h'" "h_size h' = h_size h" "buckets h' = (buckets h)[?i := c']"
    by (simp_all add: h'_def same_table_def)
  ultimately have t: "tbl_ok h'" "ents h' + mset c = ents h + mset c'"
    using tbl_ok_update [OF ok i _ st] by (simp_all add: c_def)
  have "mset c' = add_mset ?e (mset c)" by (cases c) (auto simp: c'_def)
  then have "ents h' = add_mset ?e (ents h)" using t(2) by simp
  moreover have "M_hashtable_insert_direct h ty key (HValue v) = Some (True, h')"
  proof -
    have f: "\<not> ordered h" "\<not> multi h" using ok by (auto simp: tbl_ok_def)
    have cf: "chain_find (key_equality h) key c = None" using nomatch by (simp add: chain_find_None)
    have be: "bucket_empty c \<longleftrightarrow> c = []" by (rule chain_ok_empty [OF cok])
    have dk: "dup_key (h\<lparr>num_keys := n\<rparr>) ty key = ?k" for n by (simp add: dup_key_def)
    show ?thesis
      using key f i val cf be get_match_eq [OF ok, of key]
      by (cases c) (simp_all add: M_hashtable_insert_direct_def insert_new_entry_def insert_store_def
          entry_get_def entry_set_def arr_get_def arr_set_def c_def [symmetric] c'_def h'_def Let_def dk)
  qed
  ultimately show ?thesis using t(1) st by (auto simp: entry_added_def h'_def)
qed

text \<open>The entry of a key that is in the table.\<close>

lemma obtain_entry:
  assumes "tbl_ok h" "e \<in># ents h" "keq h (b_key e) key"
  shows "\<exists>j. chain_find (key_equality h) key (buckets h ! HASH_IDX h key) = Some j \<and>
    j < length (buckets h ! HASH_IDX h key) \<and> buckets h ! HASH_IDX h key ! j = e"
proof -
  let ?c = "buckets h ! HASH_IDX h key"
  have "chain_find (key_equality h) key ?c \<noteq> None"
    unfolding get_match_None [OF assms(1)] using assms(2,3) by blast
  then obtain j where j: "chain_find (key_equality h) key ?c = Some j" by auto
  then have jl: "j < length ?c" "keq h (b_key (?c ! j)) key" using chain_find_Some [OF j] by simp_all
  have "?c ! j \<in># ents h" by (rule in_ents [OF HASH_IDX_less [OF assms(1)] nth_mem [OF jl(1)]])
  then have "?c ! j = e" by (rule ent_unique [OF assms(1) _ assms(2) jl(2) assms(3)])
  then show ?thesis using j jl(1) by blast
qed

lemma chain_ok_value:
  assumes "chain_ok h i c" "j < length c"
  shows "chain_ok h i (c[j := (c ! j)\<lparr>b_value := HValue v\<rparr>])"
proof -
  let ?e = "(c ! j)\<lparr>b_value := HValue v\<rparr>"
  have k: "map b_key (c[j := ?e]) = map b_key c"
    using assms(2) by (simp add: map_update list_update_same_conv)
  have "sorted_wrt (\<lambda>e e'. \<not> keq h (b_key e) (b_key e')) xs = sorted_wrt (\<lambda>a b. \<not> keq h a b) (map b_key xs)" for xs
    by (simp add: sorted_wrt_map)
  then show ?thesis using assms k
    by (auto simp: chain_ok_def value_of_def dest!: set_update_subset_insert [THEN subsetD])
qed

lemma mset_update_value:
  assumes "j < length c"
  shows "mset (c[j := x]) = mset c - {#c ! j#} + {#x#}"
  using assms mset_update [OF assms, of x] by simp

lemma insert_old_ok:
  assumes ok: "tbl_ok h" and key: "key \<noteq> 0" and e: "e \<in># ents h" "keq h (b_key e) key" "value_of e = Some old"
    and val: "dup_value h ty (HValue v) = Some (HValue v')"
  shows "\<exists>h'. M_hashtable_insert_direct h ty key (HValue v) = Some (True, h') \<and> tbl_ok h' \<and>
    ents h' = add_mset (e\<lparr>b_value := HValue v'\<rparr>) (ents h - {#e#}) \<and> same_table h h' \<and> h_size h' = h_size h \<and>
    num_keys h' = num_keys h \<and> num_values h' = num_values h \<and> keys_freed h' = keys_freed h \<and>
    values_freed h' = values_freed h @ (if h_value_free h \<and> old \<noteq> v' then [old] else [])"
proof -
  let ?i = "HASH_IDX h key"
  define c where "c = buckets h ! ?i"
  obtain j where j: "chain_find (key_equality h) key c = Some j" "j < length c" "c ! j = e"
    using obtain_entry [OF ok e(1,2)] by (auto simp: c_def)
  have i: "?i < length (buckets h)" by (rule HASH_IDX_less [OF ok])
  have f: "\<not> ordered h" "\<not> multi h" using ok by (auto simp: tbl_ok_def)
  show ?thesis
  proof (cases "old = v'")
    case True
    have "e\<lparr>b_value := HValue v'\<rparr> = e" using e(3) True
      by (cases e) (auto simp: value_of_def split: M_hashtable_value.splits)
    moreover have "M_hashtable_insert_direct h ty key (HValue v) = Some (True, h)"
      using key f i val j True e(3) get_match_eq [OF ok, of key]
      by (simp add: M_hashtable_insert_direct_def entry_get_def arr_get_def c_def [symmetric] Let_def)
    ultimately show ?thesis using ok e(1) True by simp
  next
    case False
    let ?e = "e\<lparr>b_value := HValue v'\<rparr>"
    define h' where "h' = (free_values h [old])\<lparr>buckets := (buckets h)[?i := c[j := ?e]]\<rparr>"
    have st: "same_table h h'" "h_size h' = h_size h" "buckets h' = (buckets h)[?i := c[j := ?e]]"
      by (simp_all add: h'_def same_table_def free_values_def)
    have "chain_ok h ?i c" using ok i by (auto simp: tbl_ok_def c_def)
    from chain_ok_value [OF this j(2), of v'] have "chain_ok h ?i (c[j := ?e])" by (simp add: j(3))
    from tbl_ok_update [OF ok i this st] have t: "tbl_ok h'" "ents h' + mset c = ents h + mset (c[j := ?e])"
      by (simp_all add: c_def)
    have "e \<in># mset c" using j(2,3) by auto
    then obtain C where C: "mset c = add_mset e C" by (blast dest: multi_member_split)
    obtain E where E: "ents h = add_mset e E" using e(1) by (blast dest: multi_member_split)
    have "mset (c[j := ?e]) = add_mset ?e C"
      using mset_update_value [OF j(2), of ?e] by (simp add: j(3) C)
    then have "ents h' + C = add_mset ?e E + C" using t(2) by (simp add: C E)
    then have "ents h' = add_mset ?e (ents h - {#e#})" by (simp add: E)
    moreover have "M_hashtable_insert_direct h ty key (HValue v) = Some (True, h')"
      using key f i val j False e(3) get_match_eq [OF ok, of key]
      by (simp add: M_hashtable_insert_direct_def entry_get_def entry_set_def insert_store_def arr_get_def arr_set_def
          c_def [symmetric] Let_def free_values_def h'_def)
    ultimately show ?thesis using t(1) st False by (simp add: h'_def free_values_def)
  qed
qed

section \<open>Rehashing\<close>

text \<open>What an operation leaves alone when it only rearranges the entries.\<close>

definition same_counts :: "('k, 'v, 't) M_hashtable \<Rightarrow> ('k, 'v, 't) M_hashtable \<Rightarrow> bool" where
  "same_counts h h' \<longleftrightarrow>
     same_table h h' \<and> num_keys h' = num_keys h \<and> num_values h' = num_values h \<and>
     keys_freed h' = keys_freed h \<and> values_freed h' = values_freed h"

lemma same_counts_refl [simp]: "same_counts h h"
  by (simp add: same_counts_def)

lemma same_counts_trans: "same_counts h h' \<Longrightarrow> same_counts h' h'' \<Longrightarrow> same_counts h h''"
  by (auto simp: same_counts_def intro: same_table_trans)

lemma rehash_chain_append:
  "rehash_chain h d v (xs @ ys) = do { h \<leftarrow> rehash_chain h d v xs; rehash_chain h d v ys }"
  by (induction xs arbitrary: h) auto

lemma rehash_loop_concat:
  "\<forall>c\<in>set cs. bucket_empty c \<longrightarrow> c = [] \<Longrightarrow> rehash_loop h d v cs = rehash_chain h d v (concat cs)"
  by (induction cs arbitrary: h) (auto simp: rehash_chain_append)

lemma sorted_wrt_concat:
  assumes "\<And>i. i < length cs \<Longrightarrow> sorted_wrt P (cs ! i)"
    and "\<And>i j x y. i < j \<Longrightarrow> j < length cs \<Longrightarrow> x \<in> set (cs ! i) \<Longrightarrow> y \<in> set (cs ! j) \<Longrightarrow> P x y"
  shows "sorted_wrt P (concat cs)"
  using assms
proof (induction cs)
  case (Cons c cs)
  have "sorted_wrt P (concat cs)"
    using Cons.prems(1) [of "Suc _"] Cons.prems(2) [of "Suc _" "Suc _"] by (intro Cons.IH) simp_all
  moreover have "P x y" if x: "x \<in> set c" and y: "y \<in> set (concat cs)" for x y
  proof -
    obtain j where "j < length cs" "y \<in> set (cs ! j)" using y unfolding in_concat_nth by blast
    then show ?thesis using Cons.prems(2) [of 0 "Suc j" x y] x by simp
  qed
  ultimately show ?case using Cons.prems(1) [of 0] by (simp add: sorted_wrt_append)
qed simp

lemma tbl_ok_concat:
  assumes "tbl_ok h"
  shows "sorted_wrt (\<lambda>e e'. \<not> keq h (b_key e) (b_key e')) (concat (buckets h))"
    "\<forall>e\<in>set (concat (buckets h)). b_key e \<noteq> 0 \<and> value_of e \<noteq> None"
    "\<forall>c\<in>set (buckets h). bucket_empty c \<longrightarrow> c = []"
proof -
  have c: "chain_ok h i (buckets h ! i)" if "i < length (buckets h)" for i
    using assms that by (simp add: tbl_ok_def)
  show "sorted_wrt (\<lambda>e e'. \<not> keq h (b_key e) (b_key e')) (concat (buckets h))"
  proof (rule sorted_wrt_concat)
    fix i j x y
    assume a: "i < j" "j < length (buckets h)" "x \<in> set (buckets h ! i)" "y \<in> set (buckets h ! j)"
    then have "HASH_IDX h (b_key x) = i" "HASH_IDX h (b_key y) = j"
      using c [of i] c [of j] by (auto simp: chain_ok_def)
    then show "\<not> keq h (b_key x) (b_key y)" using a(1) keq_contract(4) [OF assms, of "b_key x" "b_key y"] by auto
  qed (use c in \<open>simp add: chain_ok_def\<close>)
  show "\<forall>e\<in>set (concat (buckets h)). b_key e \<noteq> 0 \<and> value_of e \<noteq> None"
    using c unfolding Ball_def in_concat_nth chain_ok_def by blast
  show "\<forall>c\<in>set (buckets h). bucket_empty c \<longrightarrow> c = []"
    using c chain_ok_empty by (metis in_set_conv_nth)
qed

lemma rehash_chain_ok:
  fixes h :: "('k::zero, 'v::zero, 't::zero) M_hashtable"
  assumes "tbl_ok h" "sorted_wrt (\<lambda>e e'. \<not> keq h (b_key e) (b_key e')) es"
    and "\<forall>e\<in>set es. b_key e \<noteq> 0 \<and> value_of e \<noteq> None"
    and "\<forall>e\<in>#ents h. \<forall>e'\<in>set es. \<not> keq h (b_key e) (b_key e')"
  shows "\<exists>h'. rehash_chain h False v es = Some h' \<and> tbl_ok h' \<and> ents h' = ents h + mset es \<and>
    same_counts h h' \<and> h_size h' = h_size h"
  using assms
proof (induction es arbitrary: h)
  case (Cons e es)
  let ?ty = "{M_HASHTABLE_INSERT_NODUP, M_HASHTABLE_INSERT_REHASH}"
  obtain w where w: "b_value e = HValue w"
    using Cons.prems(3) by (auto simp: value_of_def split: M_hashtable_value.splits)
  have e: "\<lparr>b_key = b_key e, b_value = HValue w\<rparr> = e" using w by (cases e) simp
  have "\<forall>x\<in>#ents h. \<not> keq h (b_key x) (b_key e)" using Cons.prems(4) by simp
  from insert_new_ok [OF Cons.prems(1) _ this, of ?ty w w] Cons.prems(1,3)
  obtain h1 where h1: "M_hashtable_insert_direct h ?ty (b_key e) (HValue w) = Some (True, h1)"
    "entry_added h e 0 h1"
    by (auto simp: dup_key_def dup_value_def keq_contract(1) e)
  then have k: "key_equality h1 = key_equality h" "same_counts h h1" "h_size h1 = h_size h"
    by (simp_all add: entry_added_def same_table_def same_counts_def)
  have "\<exists>h'. rehash_chain h1 False v es = Some h' \<and> tbl_ok h' \<and> ents h' = ents h1 + mset es \<and>
      same_counts h1 h' \<and> h_size h' = h_size h1"
    using Cons.prems h1(2) by (intro Cons.IH) (auto simp: entry_added_def k(1))
  then show ?case using h1 k w by (auto simp: entry_added_def intro: same_counts_trans)
qed simp

text \<open>Doubling the table keeps its entries.\<close>

lemma rehash_ok:
  assumes ok: "tbl_ok h"
  shows "\<exists>h'. M_hashtable_rehash_or_destroy h False v = Some h' \<and> tbl_ok h' \<and> ents h' = ents h \<and> same_counts h h'"
proof (cases "push_bit 1 (h_size h) > M_HASHTABLE_MAX_BUCKETS")
  case True
  then show ?thesis using ok by (simp add: M_hashtable_rehash_or_destroy_def)
next
  case False
  obtain k where k: "k \<le> 24" "h_size h = 2 ^ k" using ok by (auto simp: tbl_ok_def)
  have sz: "push_bit 1 (h_size h) = 2 ^ Suc k" by (simp add: k push_bit_eq_mult)
  have "k \<noteq> 24" using False k by (auto simp: M_HASHTABLE_MAX_BUCKETS_def)
  then have k': "Suc k \<le> 24" using k(1) by simp
  define h1 where "h1 = h\<lparr>h_size := push_bit 1 (h_size h), num_expansions := num_expansions h + 1,
    buckets := replicate (unat (push_bit 1 (h_size h))) []\<rparr>"
  have f: "\<not> ordered h1" "\<not> multi h1" "hash_contract (key_equality h1) (key_hash h1)"
    using ok by (simp_all add: h1_def tbl_ok_def)
  have "h_size h1 = 2 ^ Suc k" "length (buckets h1) = unat (h_size h1)"
    "\<forall>i<length (buckets h1). chain_ok h1 i (buckets h1 ! i)"
    using sz by (simp_all add: h1_def chain_ok_def)
  then have "tbl_ok h1" unfolding tbl_ok_def using f k' by blast
  moreover have e1: "ents h1 = {#}" by (simp add: h1_def ents_def)
  moreover have c1: "same_counts h h1" by (simp add: h1_def same_counts_def same_table_def)
  ultimately obtain h' where h': "rehash_chain h1 False v (concat (buckets h)) = Some h'" "tbl_ok h'"
    "ents h' = mset (concat (buckets h))" "same_counts h1 h'"
    using rehash_chain_ok [of h1 "concat (buckets h)" v] tbl_ok_concat(1,2) [OF ok]
    by (auto simp: same_counts_def same_table_def simp del: set_concat)
  moreover have "M_hashtable_rehash_or_destroy h False v = rehash_loop h1 False v (buckets h)"
    using False by (simp add: M_hashtable_rehash_or_destroy_def h1_def Let_def)
  ultimately show ?thesis
    using rehash_loop_concat [OF tbl_ok_concat(3) [OF ok]] same_counts_trans [OF c1] by (simp add: ents_def)
qed

section \<open>Removal\<close>

lemma mset_chain_remove: "j < length c \<Longrightarrow> mset c = add_mset (c ! j) (mset (chain_remove c j))"
  by (subst id_take_nth_drop [of j c]) (simp_all add: chain_remove_def)

lemma chain_ok_remove:
  assumes "chain_ok h i c" "j < length c"
  shows "chain_ok h i (chain_remove c j)"
proof -
  have c: "c = take j c @ c ! j # drop (Suc j) c" by (rule id_take_nth_drop [OF assms(2)])
  have "sorted_wrt P (take j c @ drop (Suc j) c)" if "sorted_wrt P c" for P
    using that by (subst (asm) c) (simp add: sorted_wrt_append)
  moreover have "set (chain_remove c j) \<subseteq> set c"
    using set_take_subset set_drop_subset by (fastforce simp: chain_remove_def)
  ultimately show ?thesis using assms(1) unfolding chain_ok_def by (auto simp: chain_remove_def)
qed

lemma remove_ok:
  assumes ok: "tbl_ok h" and key: "key \<noteq> 0" and e: "e \<in># ents h" "keq h (b_key e) key" "value_of e = Some old"
  shows "\<exists>h'. M_hashtable_remove h key destroy_vals = Some (True, h') \<and> tbl_ok h' \<and> ents h' = ents h - {#e#} \<and>
    same_table h h' \<and> num_keys h' = size_sub (num_keys h) 1 \<and> num_values h' = size_sub (num_values h) 1 \<and>
    keys_freed h' = keys_freed h @ (if key_free h then [b_key e] else []) \<and>
    values_freed h' = values_freed h @ (if h_value_free h \<and> destroy_vals then [old] else [])"
proof -
  let ?i = "HASH_IDX h key"
  define c where "c = buckets h ! ?i"
  obtain j where j: "chain_find (key_equality h) key c = Some j" "j < length c" "c ! j = e"
    using obtain_entry [OF ok e(1,2)] by (auto simp: c_def)
  have i: "?i < length (buckets h)" by (rule HASH_IDX_less [OF ok])
  have f: "\<not> ordered h" "\<not> multi h" using ok by (auto simp: tbl_ok_def)
  define g where "g = (if destroy_vals then free_values (free_keys h [b_key e]) [old] else free_keys h [b_key e])"
  define h' where "h' = g\<lparr>buckets := (buckets h)[?i := chain_remove c j], num_keys := size_sub (num_keys h) 1,
    num_values := size_sub (num_values h) 1\<rparr>"
  have st: "same_table h h'" "h_size h' = h_size h" "buckets h' = (buckets h)[?i := chain_remove c j]"
    by (simp_all add: h'_def g_def same_table_def free_values_def free_keys_def)
  have "chain_ok h ?i c" using ok i by (auto simp: tbl_ok_def c_def)
  from tbl_ok_update [OF ok i chain_ok_remove [OF this j(2)] st]
  have t: "tbl_ok h'" "ents h' + mset c = ents h + mset (chain_remove c j)" by (simp_all add: c_def)
  obtain E where E: "ents h = add_mset e E" using e(1) by (blast dest: multi_member_split)
  have "ents h' + mset (chain_remove c j) = E + mset (chain_remove c j)"
    using t(2) mset_chain_remove [OF j(2)] by (simp add: E j(3))
  then have "ents h' = ents h - {#e#}" by (simp add: E)
  moreover have "M_hashtable_remove h key destroy_vals = Some (True, h')"
    using key f i j e(3) get_match_eq [OF ok, of key]
    by (simp add: M_hashtable_remove_def M_hashtable_destroy_entry_def entry_get_def arr_get_def arr_set_def
        c_def [symmetric] Let_def free_values_def free_keys_def h'_def g_def)
  ultimately show ?thesis using t(1) st(1) by (auto simp: h'_def g_def free_values_def free_keys_def)
qed

lemma remove_absent:
  assumes "tbl_ok h" "\<forall>e\<in>#ents h. \<not> keq h (b_key e) key"
  shows "M_hashtable_remove h key destroy_vals = Some (False, h)"
  using get_match_eq [OF assms(1), of key] assms(2)
  unfolding get_match_None [OF assms(1), symmetric] by (simp add: M_hashtable_remove_def)

end
