(* ===== verification/M_Hashtable_Spec.thy ===== *)
theory M_Hashtable_Spec
  imports M_Hashtable_Ok
begin

text \<open>
  What the public operations of the hash table promise. A table with one value per key is a finite
  map up to the equality callback: an insertion or a removal changes the answer for the keys equal
  to its argument and no other, whatever happens to the buckets meanwhile.
\<close>

section \<open>Maps up to an equivalence\<close>

text \<open>
  The interface that clients of the table rely on: a lookup, an insertion and a removal on states
  with an invariant. \<open>same\<close> is the equality of keys, \<open>good\<close> the keys that are not null, \<open>room\<close> the number
  of insertions that the sizes still allow.
\<close>

lemma find_append: "find P (xs @ ys) = (case find P xs of None \<Rightarrow> find P ys | Some x \<Rightarrow> Some x)"
  by (induction xs) auto

locale map_store =
  fixes stored :: "'v \<Rightarrow> 'v" and inv :: "'s \<Rightarrow> bool" and good :: "'k \<Rightarrow> bool" and same :: "'k \<Rightarrow> 'k \<Rightarrow> bool"
    and get :: "'s \<Rightarrow> 'k \<Rightarrow> 'v option" and room :: "'s \<Rightarrow> nat"
    and put :: "'s \<Rightarrow> 'k \<Rightarrow> 'v \<Rightarrow> 's option" and del :: "'s \<Rightarrow> 'k \<Rightarrow> 's option"
  assumes same_sym: "same a b \<Longrightarrow> same b a"
    and get_same: "inv s \<Longrightarrow> good a \<Longrightarrow> good b \<Longrightarrow> same a b \<Longrightarrow> get s a = get s b"
    and put_ok: "inv s \<Longrightarrow> good k \<Longrightarrow> 0 < room s \<Longrightarrow> \<exists>s'. put s k v = Some s' \<and> inv s' \<and> room s \<le> room s' + 1 \<and>
      (\<forall>j. good j \<longrightarrow> get s' j = (if same k j then Some (stored v) else get s j))"
    and del_ok: "inv s \<Longrightarrow> good k \<Longrightarrow> \<exists>s'. del s k = Some s' \<and> inv s' \<and> room s \<le> room s' \<and>
      (\<forall>j. good j \<longrightarrow> get s' j = (if same k j then None else get s j))"
begin

primrec put_all :: "'s \<Rightarrow> ('k \<times> 'v) list \<Rightarrow> 's option" where
  "put_all s [] = Some s"
| "put_all s (kv # kvs) = do { s \<leftarrow> put s (fst kv) (snd kv); put_all s kvs }"

text \<open>A sequence of insertions: the last one with an equal key decides.\<close>

lemma put_all_ok:
  "inv s \<Longrightarrow> \<forall>kv\<in>set kvs. good (fst kv) \<Longrightarrow> length kvs \<le> room s \<Longrightarrow>
    \<exists>s'. put_all s kvs = Some s' \<and> inv s' \<and> room s \<le> room s' + length kvs \<and>
      (\<forall>j. good j \<longrightarrow> get s' j =
        (case find (\<lambda>kv. same (fst kv) j) (rev kvs) of None \<Rightarrow> get s j | Some kv \<Rightarrow> Some (stored (snd kv))))"
proof (induction kvs arbitrary: s)
  case (Cons kv kvs)
  obtain s1 where s1: "put s (fst kv) (snd kv) = Some s1" "inv s1" "room s \<le> room s1 + 1"
    "\<forall>j. good j \<longrightarrow> get s1 j = (if same (fst kv) j then Some (stored (snd kv)) else get s j)"
    using put_ok [of s "fst kv" "snd kv"] Cons.prems by auto
  obtain s' where "put_all s1 kvs = Some s'" "inv s'" "room s1 \<le> room s' + length kvs"
    "\<forall>j. good j \<longrightarrow> get s' j =
        (case find (\<lambda>kv. same (fst kv) j) (rev kvs) of None \<Rightarrow> get s1 j | Some kv \<Rightarrow> Some (stored (snd kv)))"
    using Cons.IH [OF s1(2)] Cons.prems s1(3) by auto
  then show ?case using s1 by (auto simp: find_append split: option.splits)
qed simp

lemma put_del:
  assumes "inv s" "good k" "0 < room s"
  shows "\<exists>s' s''. put s k v = Some s' \<and> del s' k = Some s'' \<and> inv s'' \<and>
    (\<forall>j. good j \<longrightarrow> get s'' j = (if same k j then None else get s j))"
proof -
  obtain s' where s': "put s k v = Some s'" "inv s'" "\<forall>j. good j \<longrightarrow> get s' j = (if same k j then Some (stored v) else get s j)"
    using put_ok [OF assms] by blast
  then show ?thesis using del_ok [OF s'(2) assms(2)] by auto
qed

end

section \<open>Insertion and removal\<close>

text \<open>The public lookup as a partial map.\<close>

definition lookup :: "('k::zero, 'v::zero, 't::zero) M_hashtable \<Rightarrow> 'k \<Rightarrow> 'v option" where
  "lookup h key = (case M_hashtable_get h key of None \<Rightarrow> None | Some r \<Rightarrow> r)"

lemma lookup_eq_Some: "tbl_ok h \<Longrightarrow> key \<noteq> 0 \<Longrightarrow> lookup h key = Some v \<longleftrightarrow> maps h key v"
  using get_iff(1) [of h key v] get_total [of h key] by (auto simp: lookup_def split: option.splits)

lemma get_lookup: "tbl_ok h \<Longrightarrow> key \<noteq> 0 \<Longrightarrow> M_hashtable_get h key = Some (lookup h key)"
  using get_total [of h key] by (auto simp: lookup_def)

lemma lookup_None: "tbl_ok h \<Longrightarrow> key \<noteq> 0 \<Longrightarrow> lookup h key = None \<longleftrightarrow> (\<forall>v. \<not> maps h key v)"
  using lookup_eq_Some [of h key] by (cases "lookup h key") auto

lemma maps_dom: "tbl_ok h \<Longrightarrow> (\<forall>v. \<not> maps h key v) \<longleftrightarrow> (\<forall>e\<in>#ents h. \<not> keq h (b_key e) key)"
  using tbl_ok_concat(2) [of h] unfolding maps_def ents_def set_mset_mset by blast

lemma lookup_cong: "tbl_ok h \<Longrightarrow> tbl_ok h' \<Longrightarrow> key \<noteq> 0 \<Longrightarrow> \<forall>v. maps h' key v = maps h key v \<Longrightarrow> lookup h' key = lookup h key"
  using get_cong [of h h' key] by (simp add: lookup_def)

lemma maps_unique: "tbl_ok h \<Longrightarrow> maps h key v \<Longrightarrow> maps h key w \<Longrightarrow> v = w"
  unfolding maps_def using ent_unique [of h _ _ key] by fastforce

text \<open>Replacing the entries whose key equals \<open>key\<close> by one, or dropping them.\<close>

lemma maps_add:
  assumes "tbl_ok h" "same_table h h'" "ents h' = add_mset e E" "keq h (b_key e) key" "value_of e = Some v"
    "\<And>x. keq h (b_key x) key \<Longrightarrow> x \<notin># E" "\<And>x. \<not> keq h (b_key x) key \<Longrightarrow> x \<in># E \<longleftrightarrow> x \<in># ents h"
  shows "maps h' k w \<longleftrightarrow> (if keq h key k then w = v else maps h k w)"
proof -
  have k: "key_equality h' = key_equality h" using assms(2) by (simp add: same_table_def)
  have i: "keq h (b_key x) k \<longleftrightarrow> keq h (b_key x) key" if "keq h key k" for x
    using keq_contract [OF assms(1)] that by blast
  have o: "\<not> keq h (b_key x) key" if "\<not> keq h key k" "keq h (b_key x) k" for x
    using keq_contract [OF assms(1)] that by blast
  show ?thesis
  proof (cases "keq h key k")
    case True
    have "maps h' k w \<longleftrightarrow> (\<exists>x. (x = e \<or> x \<in># E) \<and> keq h (b_key x) key \<and> value_of x = Some w)"
      unfolding maps_def k assms(3) i [OF True] by auto
    then show ?thesis using assms(4-6) True by (metis option.inject)
  next
    case False
    then have "\<not> keq h (b_key e) k" using o assms(4) by blast
    then have "maps h' k w \<longleftrightarrow> (\<exists>x. x \<in># E \<and> keq h (b_key x) k \<and> value_of x = Some w)"
      by (auto simp: maps_def k assms(3))
    moreover have "maps h k w \<longleftrightarrow> (\<exists>x. x \<in># E \<and> keq h (b_key x) k \<and> value_of x = Some w)"
      unfolding maps_def using assms(7) o [OF False] by blast
    ultimately show ?thesis using False by simp
  qed
qed

lemma maps_remove:
  assumes "tbl_ok h" "same_table h h'"
    "\<And>x. keq h (b_key x) key \<Longrightarrow> x \<notin># ents h'" "\<And>x. \<not> keq h (b_key x) key \<Longrightarrow> x \<in># ents h' \<longleftrightarrow> x \<in># ents h"
  shows "maps h' k w \<longleftrightarrow> \<not> keq h key k \<and> maps h k w"
proof -
  have k: "key_equality h' = key_equality h" using assms(2) by (simp add: same_table_def)
  have i: "keq h (b_key x) key" if "keq h key k" "keq h (b_key x) k" for x
    using keq_contract [OF assms(1)] that by blast
  have o: "\<not> keq h (b_key x) key" if "\<not> keq h key k" "keq h (b_key x) k" for x
    using keq_contract [OF assms(1)] that by blast
  show ?thesis unfolding maps_def k using assms(3,4) i o by blast
qed

lemma sorted_wrt_distinct: "sorted_wrt P xs \<Longrightarrow> (\<And>x. \<not> P x x) \<Longrightarrow> distinct xs"
  by (induction xs) auto

text \<open>The entry of a key is the only one with an equal key, and it is there once.\<close>

lemma ents_split:
  assumes "tbl_ok h" "ents h = add_mset e E" "keq h (b_key e) key"
  shows "keq h (b_key x) key \<Longrightarrow> x \<notin># E" "\<not> keq h (b_key x) key \<Longrightarrow> x \<in># E \<longleftrightarrow> x \<in># ents h"
proof -
  have "sorted_wrt (\<lambda>e e'. \<not> keq h (b_key e) (b_key e')) (concat (buckets h))" by (rule tbl_ok_concat [OF assms(1)])
  then have "distinct (concat (buckets h))"
    by (rule sorted_wrt_distinct) (simp add: keq_contract(1) [OF assms(1)])
  then have "count (ents h) e \<le> 1" by (simp add: ents_def distinct_count_atmost_1 del: mset_concat)
  then have e: "e \<notin># E" using assms(2) by (simp add: not_in_iff)
  show "keq h (b_key x) key \<Longrightarrow> x \<notin># E" using e assms ent_unique [OF assms(1), of x e key] by auto
  show "\<not> keq h (b_key x) key \<Longrightarrow> x \<in># E \<longleftrightarrow> x \<in># ents h" using assms(2,3) by auto
qed

text \<open>
  The postcondition of an insertion: the table maps the keys equal to \<open>key\<close> to \<open>v\<close>, and \<open>freed\<close>
  is what the replaced value was.
\<close>

definition table_put ::
  "('k::zero, 'v::zero, 't::zero) M_hashtable \<Rightarrow> 'k \<Rightarrow> 'v \<Rightarrow> ('k, 'v, 't) M_hashtable \<Rightarrow> bool" where
  "table_put h key v h' \<longleftrightarrow>
     hash_ok h' \<and> same_table h h' \<and>
     (\<forall>k. k \<noteq> 0 \<longrightarrow> lookup h' k = (if keq h key k then Some v else lookup h k)) \<and>
     num_keys h' = num_keys h + (if lookup h key = None then 1 else 0) \<and> keys_freed h' = keys_freed h \<and>
     values_freed h' = values_freed h @
       (case lookup h key of Some old \<Rightarrow> if h_value_free h \<and> old \<noteq> v then [old] else [] | None \<Rightarrow> [])"

definition table_del ::
  "('k::zero, 'v::zero, 't::zero) M_hashtable \<Rightarrow> 'k \<Rightarrow> ('k, 'v, 't) M_hashtable \<Rightarrow> bool" where
  "table_del h key h' \<longleftrightarrow>
     hash_ok h' \<and> same_table h h' \<and>
     (\<forall>k. k \<noteq> 0 \<longrightarrow> lookup h' k = (if keq h key k then None else lookup h k)) \<and>
     num_keys h' = num_keys h - (if lookup h key = None then 0 else 1)"

lemma lookup_maps_if:
  assumes "tbl_ok h" "tbl_ok h'" "k \<noteq> 0" "\<And>w. maps h' k w \<longleftrightarrow> (if b then w = v else maps h k w)"
  shows "lookup h' k = (if b then Some v else lookup h k)"
proof (cases b)
  case True
  then show ?thesis using lookup_eq_Some [OF assms(2,3), of v] assms(4) by simp
next
  case False
  then show ?thesis using lookup_cong [OF assms(1-3)] assms(4) by simp
qed

lemma lookup_maps_not:
  assumes "tbl_ok h" "tbl_ok h'" "k \<noteq> 0" "\<And>w. maps h' k w \<longleftrightarrow> \<not> b \<and> maps h k w"
  shows "lookup h' k = (if b then None else lookup h k)"
proof (cases b)
  case True
  then show ?thesis using lookup_None [OF assms(2,3)] assms(4) by simp
next
  case False
  then show ?thesis using lookup_cong [OF assms(1-3)] assms(4) by simp
qed

text \<open>A key that is found has an entry, and the other way round.\<close>

lemma lookup_entry:
  assumes "tbl_ok h" "key \<noteq> 0" "lookup h key = Some v"
  obtains e where "e \<in># ents h" "keq h (b_key e) key" "value_of e = Some v"
  using lookup_eq_Some [OF assms(1,2)] assms(3) unfolding maps_def by blast

lemma lookup_None_entry: "tbl_ok h \<Longrightarrow> key \<noteq> 0 \<Longrightarrow> lookup h key = None \<longleftrightarrow> (\<forall>e\<in>#ents h. \<not> keq h (b_key e) key)"
  using lookup_None maps_dom by blast

lemma insert_direct_put:
  assumes ok: "hash_ok h" and key: "key \<noteq> 0" "dup_key h ty key \<noteq> 0" "keq h (dup_key h ty key) key"
    and room: "num_keys h + 1 < SIZE_MOD" and ty: "M_HASHTABLE_INSERT_REHASH \<notin> ty"
    and val: "dup_value h ty (HValue v) = Some (HValue v')"
  shows "\<exists>h'. M_hashtable_insert_direct h ty key (HValue v) = Some (True, h') \<and> table_put h key v' h'"
proof (cases "lookup h key")
  case None
  have t: "tbl_ok h" using ok by (simp add: hash_ok_def)
  let ?e = "\<lparr>b_key = dup_key h ty key, b_value = HValue v'\<rparr>"
  have new: "\<forall>e\<in>#ents h. \<not> keq h (b_key e) key" using None lookup_None_entry [OF t key(1)] by blast
  from insert_new_ok [OF t key(1) new key(2,3) val] ty
  obtain h' where h': "M_hashtable_insert_direct h ty key (HValue v) = Some (True, h')" "entry_added h ?e 1 h'"
    by auto
  have t': "tbl_ok h'" "ents h' = add_mset ?e (ents h)" "same_table h h'" using h'(2) by (simp_all add: entry_added_def)
  have "maps h' k w \<longleftrightarrow> (if keq h key k then w = v' else maps h k w)" for k w
    by (rule maps_add [OF t t'(3,2)]) (use key(3) new in \<open>auto simp: value_of_def\<close>)
  then have "\<forall>k. k \<noteq> 0 \<longrightarrow> lookup h' k = (if keq h key k then Some v' else lookup h k)"
    using lookup_maps_if [OF t t'(1)] by blast
  moreover have "hash_ok h'" using ok room t'(1,2) h'(2) by (simp add: hash_ok_def entry_added_def)
  ultimately show ?thesis using h' t'(3) None by (auto simp: table_put_def entry_added_def)
next
  case (Some old)
  have t: "tbl_ok h" using ok by (simp add: hash_ok_def)
  obtain e where e: "e \<in># ents h" "keq h (b_key e) key" "value_of e = Some old"
    by (rule lookup_entry [OF t key(1) Some])
  let ?e = "e\<lparr>b_value := HValue v'\<rparr>"
  obtain E where E: "ents h = add_mset e E" using e(1) by (blast dest: multi_member_split)
  from insert_old_ok [OF t key(1) e val]
  obtain h' where h': "M_hashtable_insert_direct h ty key (HValue v) = Some (True, h')" "tbl_ok h'"
    "ents h' = add_mset ?e E" "same_table h h'" "num_keys h' = num_keys h" "num_values h' = num_values h"
    "keys_freed h' = keys_freed h"
    "values_freed h' = values_freed h @ (if h_value_free h \<and> old \<noteq> v' then [old] else [])"
    by (auto simp: E)
  have "maps h' k w \<longleftrightarrow> (if keq h key k then w = v' else maps h k w)" for k w
    by (rule maps_add [OF t h'(4,3)]) (use e(2) ents_split [OF t E e(2)] in \<open>auto simp: value_of_def\<close>)
  then have "\<forall>k. k \<noteq> 0 \<longrightarrow> lookup h' k = (if keq h key k then Some v' else lookup h k)"
    using lookup_maps_if [OF t h'(2)] by blast
  moreover have "hash_ok h'" using ok h'(2,3,5,6) by (simp add: hash_ok_def E)
  ultimately show ?thesis using h' Some by (auto simp: table_put_def)
qed

lemma same_ents_lookup:
  assumes "tbl_ok h" "tbl_ok h'" "same_table h h'" "ents h' = ents h" "k \<noteq> 0"
  shows "lookup h' k = lookup h k"
proof (rule lookup_cong [OF assms(1,2,5)])
  show "\<forall>v. maps h' k v = maps h k v" using assms(3,4) by (simp add: maps_def same_table_def)
qed

lemma rehash_put:
  assumes "table_put h key v h1" "key \<noteq> 0"
  shows "\<exists>h'. M_hashtable_rehash_or_destroy h1 False d = Some h' \<and> table_put h key v h'"
proof -
  have t: "tbl_ok h1" using assms by (simp add: table_put_def hash_ok_def)
  obtain h' where h': "M_hashtable_rehash_or_destroy h1 False d = Some h'" "tbl_ok h'" "ents h' = ents h1" "same_counts h1 h'"
    using rehash_ok [OF t] by blast
  have "\<forall>k. k \<noteq> 0 \<longrightarrow> lookup h' k = lookup h1 k"
    using same_ents_lookup [OF t h'(2) _ h'(3)] h'(4) by (simp add: same_counts_def)
  moreover have "hash_ok h'" "same_table h h'"
    using assms h'(2-4) by (auto simp: table_put_def hash_ok_def same_counts_def intro: same_table_trans)
  ultimately show ?thesis using assms h'(1,4) by (simp add: table_put_def same_counts_def)
qed

lemma insert_int_put:
  assumes ok: "hash_ok h" and key: "key \<noteq> 0"
    and ty: "ty = (if init then {M_HASHTABLE_INSERT_DUP, M_HASHTABLE_INSERT_INITIAL} else {M_HASHTABLE_INSERT_DUP})"
    and dup: "dup_key h ty key \<noteq> 0" "keq h (dup_key h ty key) key"
    and room: "num_keys h + 1 < SIZE_MOD"
  shows "\<exists>h'. M_hashtable_insert_int h init key v = Some (True, h') \<and>
    table_put h key (if init then value_duplicate_insert h v else value_duplicate_copy h v) h'"
proof -
  let ?v = "if init then value_duplicate_insert h v else value_duplicate_copy h v"
  have "M_HASHTABLE_INSERT_REHASH \<notin> ty" "dup_value h ty (HValue v) = Some (HValue ?v)"
    by (auto simp: ty dup_value_def)
  from insert_direct_put [OF ok key dup room this] obtain h1
    where h1: "M_hashtable_insert_direct h ty key (HValue v) = Some (True, h1)" "table_put h key ?v h1" by blast
  show ?thesis using h1 rehash_put [OF h1(2) key, of False]
    by (cases "M_hashtable_exceeds_load h1") (auto simp: M_hashtable_insert_int_def ty)
qed

lemma insert_put:
  assumes "hash_ok h" "key \<noteq> 0" "key_duplicate_insert h key \<noteq> 0" "keq h (key_duplicate_insert h key) key"
    "num_keys h + 1 < SIZE_MOD"
  shows "\<exists>h'. M_hashtable_insert h key v = Some (True, h') \<and> table_put h key (value_duplicate_insert h v) h'"
  using insert_int_put [OF assms(1,2) refl _ _ assms(5), of True v] assms(3,4)
  by (simp add: M_hashtable_insert_def dup_key_def)

lemma remove_del:
  assumes ok: "hash_ok h" and key: "key \<noteq> 0"
  shows "\<exists>b h'. M_hashtable_remove h key d = Some (b, h') \<and> table_del h key h' \<and> (b \<longleftrightarrow> lookup h key \<noteq> None) \<and>
    values_freed h' = values_freed h @
      (case lookup h key of Some v \<Rightarrow> if h_value_free h \<and> d then [v] else [] | None \<Rightarrow> [])"
proof (cases "lookup h key")
  case None
  have t: "tbl_ok h" using ok by (simp add: hash_ok_def)
  have "\<forall>k. k \<noteq> 0 \<longrightarrow> keq h key k \<longrightarrow> lookup h k = None"
    using None lookup_None_entry [OF t] key keq_contract [OF t] by metis
  then have "table_del h key h" using ok None by (simp add: table_del_def)
  then show ?thesis using None remove_absent [OF t] lookup_None_entry [OF t key] by auto
next
  case (Some v)
  have t: "tbl_ok h" using ok by (simp add: hash_ok_def)
  obtain e where e: "e \<in># ents h" "keq h (b_key e) key" "value_of e = Some v"
    by (rule lookup_entry [OF t key Some])
  obtain E where E: "ents h = add_mset e E" using e(1) by (blast dest: multi_member_split)
  from remove_ok [OF t key e, of d]
  obtain h' where h': "M_hashtable_remove h key d = Some (True, h')" "tbl_ok h'" "ents h' = E" "same_table h h'"
    "num_keys h' = size_sub (num_keys h) 1" "num_values h' = size_sub (num_values h) 1"
    "values_freed h' = values_freed h @ (if h_value_free h \<and> d then [v] else [])"
    by (auto simp: E)
  have "maps h' k w \<longleftrightarrow> \<not> keq h key k \<and> maps h k w" for k w
    by (rule maps_remove [OF t h'(4)]) (use ents_split [OF t E e(2)] in \<open>auto simp: h'(3)\<close>)
  then have "\<forall>k. k \<noteq> 0 \<longrightarrow> lookup h' k = (if keq h key k then None else lookup h k)"
    using lookup_maps_not [OF t h'(2)] by blast
  moreover have n: "num_keys h = Suc (size E)" "num_values h = Suc (size E)" "Suc (size E) < SIZE_MOD"
    using ok by (simp_all add: hash_ok_def E)
  moreover have "hash_ok h'" using n h'(2,3,5,6) by (simp add: hash_ok_def)
  ultimately have "table_del h key h'" using h'(4,5) Some by (simp add: table_del_def)
  then show ?thesis using h' Some by auto
qed

section \<open>The table is a map\<close>

text \<open>
  For fixed callbacks the tables form a map: the laws that a client of the table uses. The callbacks
  that duplicate keys have to give keys equal to their argument.
\<close>

locale hash_callbacks = hash_contract equal hash
  for equal :: "('k::zero, 't::zero) M_sort_compar_t" and hash :: "'k \<Rightarrow> M_uint32 \<Rightarrow> M_uint32" +
  fixes kdup :: "'k \<Rightarrow> 'k" and vdup :: "'v::zero \<Rightarrow> 'v"
  assumes kdup_nonnull: "k \<noteq> 0 \<Longrightarrow> kdup k \<noteq> 0" and kdup_equal: "equal (kdup k) k 0 = 0"

definition table_of ::
  "('k::zero, 't::zero) M_sort_compar_t \<Rightarrow> ('k \<Rightarrow> M_uint32 \<Rightarrow> M_uint32) \<Rightarrow> ('k \<Rightarrow> 'k) \<Rightarrow> ('v \<Rightarrow> 'v)
     \<Rightarrow> ('k, 'v, 't) M_hashtable \<Rightarrow> bool" where
  "table_of equal hash kdup vdup h \<longleftrightarrow>
     hash_ok h \<and> key_equality h = equal \<and> key_hash h = hash \<and> key_duplicate_insert h = kdup \<and>
     value_duplicate_insert h = vdup"

lemma table_of_same: "table_of equal hash kdup vdup h \<Longrightarrow> same_table h h' \<Longrightarrow> hash_ok h' \<Longrightarrow> table_of equal hash kdup vdup h'"
  by (simp add: table_of_def same_table_def)

lemma lookup_keq:
  assumes "tbl_ok h" "a \<noteq> 0" "b \<noteq> 0" "keq h a b"
  shows "lookup h a = lookup h b"
proof -
  have m: "maps h a v = maps h b v" for v
    unfolding maps_def using keq_contract [OF assms(1)] assms(4) by blast
  show ?thesis
  proof (cases "lookup h a")
    case None
    then show ?thesis using lookup_None [OF assms(1,2)] lookup_None [OF assms(1,3)] m by simp
  next
    case (Some v)
    then show ?thesis using lookup_eq_Some [OF assms(1,2), of v] lookup_eq_Some [OF assms(1,3), of v] m by simp
  qed
qed

sublocale hash_callbacks \<subseteq> tbl: map_store vdup "table_of equal hash kdup vdup" "\<lambda>k. k \<noteq> 0"
  "\<lambda>a b. equal a b 0 = 0" lookup "\<lambda>h. SIZE_MOD - 1 - num_keys h"
  "\<lambda>h k v. map_option snd (M_hashtable_insert h k v)" "\<lambda>h k. map_option snd (M_hashtable_remove h k True)"
proof unfold_locales
  show "equal a b 0 = 0 \<Longrightarrow> equal b a 0 = 0" for a b by (rule equal_sym)
next
  fix s :: "('k, 'v, 't) M_hashtable" and a b :: 'k
  assume "table_of equal hash kdup vdup s" "a \<noteq> 0" "b \<noteq> 0" "equal a b 0 = 0"
  then show "lookup s a = lookup s b" by (intro lookup_keq) (simp_all add: table_of_def hash_ok_def)
next
  fix s :: "('k, 'v, 't) M_hashtable" and k :: 'k and v :: 'v
  assume a: "table_of equal hash kdup vdup s" "k \<noteq> 0" "0 < SIZE_MOD - 1 - num_keys s"
  then have c: "hash_ok s" "key_equality s = equal" "key_duplicate_insert s = kdup" "value_duplicate_insert s = vdup"
    by (simp_all add: table_of_def)
  obtain h' where h': "M_hashtable_insert s k v = Some (True, h')" "table_put s k (vdup v) h'"
    using insert_put [OF c(1) a(2), of v] kdup_nonnull [OF a(2)] kdup_equal [of k] a(3) unfolding c(2-4) by auto
  have "table_of equal hash kdup vdup h'" "num_keys h' \<le> num_keys s + 1"
    using table_of_same [OF a(1)] h'(2) by (simp_all add: table_put_def)
  then show "\<exists>s'. map_option snd (M_hashtable_insert s k v) = Some s' \<and> table_of equal hash kdup vdup s' \<and>
      SIZE_MOD - 1 - num_keys s \<le> SIZE_MOD - 1 - num_keys s' + 1 \<and>
      (\<forall>j. j \<noteq> 0 \<longrightarrow> lookup s' j = (if equal k j 0 = 0 then Some (vdup v) else lookup s j))"
    using h' c(2) by (simp add: table_put_def)
next
  fix s :: "('k, 'v, 't) M_hashtable" and k :: 'k
  assume a: "table_of equal hash kdup vdup s" "k \<noteq> 0"
  then have c: "hash_ok s" "key_equality s = equal" by (simp_all add: table_of_def)
  obtain b h' where h': "M_hashtable_remove s k True = Some (b, h')" "table_del s k h'"
    using remove_del [OF c(1) a(2), of True] by blast
  have "table_of equal hash kdup vdup h'" "num_keys h' \<le> num_keys s"
    using table_of_same [OF a(1)] h'(2) by (simp_all add: table_del_def)
  then show "\<exists>s'. map_option snd (M_hashtable_remove s k True) = Some s' \<and> table_of equal hash kdup vdup s' \<and>
      SIZE_MOD - 1 - num_keys s \<le> SIZE_MOD - 1 - num_keys s' \<and>
      (\<forall>j. j \<noteq> 0 \<longrightarrow> lookup s' j = (if equal k j 0 = 0 then None else lookup s j))"
    using h' c(2) by (simp add: table_del_def)
qed

text \<open>Tables keyed by pointers, with the default callbacks.\<close>

interpretation vp_table: hash_callbacks "M_sort_compar_vp :: (M_uint64 option, nat) M_sort_compar_t"
  "\<lambda>k. case k of None \<Rightarrow> (\<lambda>s. 0) | Some p \<Rightarrow> M_hash_func_hash_vp p"
  M_hashtable_duplicate_func_default M_hashtable_duplicate_func_default
  by unfold_locales (simp_all add: M_hashtable_duplicate_func_default_def vp_hash.equal_refl)

section \<open>Enumeration\<close>






section \<open>Creation and duplication\<close>

lemma round_buckets:
  assumes "0 < n" "n \<le> 2 ^ 63"
  shows "\<exists>k\<le>24. (let r = M_size_t_round_up_to_power_of_two (of_nat n) in
    if r > ucast M_HASHTABLE_MAX_BUCKETS then M_HASHTABLE_MAX_BUCKETS else ucast r) = (2 ^ k :: M_uint32)"
proof -
  let ?r = "M_size_t_round_up_to_power_of_two (of_nat n)"
  have "unat (of_nat n :: M_uint64) = n" using assms(2) by (simp add: unat_of_nat)
  then obtain k where k: "unat ?r = 2 ^ k"
    using M_uint64_round_up_least [of "of_nat n"] assms by (auto simp: M_size_t_round_up_to_power_of_two_def)
  have mx: "M_HASHTABLE_MAX_BUCKETS = 2 ^ 24" "ucast M_HASHTABLE_MAX_BUCKETS = (2 ^ 24 :: M_uint64)"
    by (simp_all add: M_HASHTABLE_MAX_BUCKETS_def)
  show ?thesis
  proof (cases "?r > ucast M_HASHTABLE_MAX_BUCKETS")
    case True
    then show ?thesis by (intro exI [of _ 24]) (simp add: mx(1))
  next
    case False
    then have "(2::nat) ^ k \<le> 2 ^ 24" unfolding mx(2) using k by (simp add: word_less_nat_alt)
    then have "k \<le> 24" using power_increasing_iff [of "2::nat" k 24] by (simp del: numeral_power_eq_of_nat_cancel_iff power_increasing_iff)
    have "unat (ucast ?r :: M_uint32) = unat (2 ^ k :: M_uint32)"
      using unat_exp [OF \<open>k \<le> 24\<close>] k \<open>k \<le> 24\<close> by (simp add: unsigned_ucast_eq take_bit_nat_eq_self)
    then have "(ucast ?r :: M_uint32) = 2 ^ k" unfolding word_unat_eq_iff .
    then show ?thesis using False \<open>k \<le> 24\<close> unfolding Let_def by auto
  qed
qed

lemma empty_table_ok:
  assumes "hash_contract (key_equality h) (key_hash h)" "h_flags h \<subseteq> {M_HASHTABLE_STATIC_SEED}"
    "\<exists>k\<le>24. h_size h = 2 ^ k" "buckets h = replicate (unat (h_size h)) []" "num_keys h = 0" "num_values h = 0"
  shows "hash_ok h" "ents h = {#}" "k \<noteq> 0 \<Longrightarrow> lookup h k = None"
proof -
  have "tbl_ok h" unfolding tbl_ok_def using assms(1-4) by (auto simp: chain_ok_def)
  moreover show e: "ents h = {#}" by (simp add: ents_def assms(4))
  ultimately show "hash_ok h" using assms(5,6) by (simp add: hash_ok_def)
  show "k \<noteq> 0 \<Longrightarrow> lookup h k = None" using \<open>tbl_ok h\<close> by (simp add: lookup_None maps_def e)
qed

text \<open>The optional callbacks of the creation and their defaults.\<close>

definition or_default :: "('a \<Rightarrow> 'a) option \<Rightarrow> 'a \<Rightarrow> 'a" where
  "or_default f = (case f of None \<Rightarrow> M_hashtable_duplicate_func_default | Some f \<Rightarrow> f)"

text \<open>A seed is found, whatever the environment gives.\<close>

lemma hash_seed_total: "\<exists>seed. hash_seed env fl = Some seed"
  using range_32_returns [of "M_rand_create env 0"] by (auto simp: hash_seed_def)

lemma create_ok:
  fixes eq :: "('k::zero, 't::zero) M_sort_compar_t" and cb :: "('k, 'v::zero, 't) M_hashtable_callbacks"
  assumes "0 < n" "n \<le> 2 ^ 63" "pct < 100" "fl \<subseteq> {M_HASHTABLE_STATIC_SEED}"
    and "hash_contract eq hs"
  shows "\<exists>h. M_hashtable_create env hvp cvp n pct (Some hs) (Some eq) fl (Some cb) = Some (Some h) \<and> hash_ok h \<and>
    (\<forall>k. k \<noteq> 0 \<longrightarrow> lookup h k = None) \<and> num_keys h = 0 \<and> key_equality h = eq \<and> key_hash h = hs \<and> fillpct h = pct \<and>
    h_flags h = fl \<and> key_duplicate_insert h = or_default (hcb_key_duplicate_insert cb) \<and>
    key_duplicate_copy h = or_default (hcb_key_duplicate_copy cb) \<and>
    value_duplicate_insert h = or_default (hcb_value_duplicate_insert cb) \<and>
    value_duplicate_copy h = or_default (hcb_value_duplicate_copy cb) \<and>
    key_free h = hcb_key_free cb \<and> h_value_free h = hcb_value_free cb \<and> keys_freed h = [] \<and> values_freed h = []"
proof -
  obtain seed where seed: "hash_seed env fl = Some seed" using hash_seed_total by blast
  let ?sz = "let r = M_size_t_round_up_to_power_of_two (of_nat n) in
    if r > ucast M_HASHTABLE_MAX_BUCKETS then M_HASHTABLE_MAX_BUCKETS else ucast r"
  have fl: "M_HASHTABLE_MULTI_SORTED \<notin> fl" "M_HASHTABLE_MULTI_GETLAST \<notin> fl" "M_HASHTABLE_KEYS_SORTED \<notin> fl"
    "M_HASHTABLE_KEYS_ORDERED \<notin> fl" using assms(4) by auto
  define h where "h = \<lparr>key_equality = eq, key_hash = hs, key_duplicate_insert = or_default (hcb_key_duplicate_insert cb),
    key_duplicate_copy = or_default (hcb_key_duplicate_copy cb), key_free = hcb_key_free cb,
    value_duplicate_insert = or_default (hcb_value_duplicate_insert cb),
    value_duplicate_copy = or_default (hcb_value_duplicate_copy cb),
    value_equality = (case hcb_value_equality cb of None \<Rightarrow> M_hashtable_equality_func_default | Some f \<Rightarrow> f),
    h_value_free = hcb_value_free cb, buckets = replicate (unat ?sz) [], h_keys = None, key_hash_seed = seed,
    h_size = ?sz, num_keys = 0, num_values = 0, num_collisions = 0, num_expansions = 0, fillpct = pct, h_flags = fl,
    keys_freed = [], values_freed = []\<rparr>"
  have "M_hashtable_create env hvp cvp n pct (Some hs) (Some eq) fl (Some cb) = Some (Some h)"
    using assms(1,3) seed fl by (simp add: M_hashtable_create_def h_def Let_def or_default_def cong: option.case_cong)
  moreover have "hash_ok h" "\<And>k. k \<noteq> 0 \<Longrightarrow> lookup h k = None"
    using empty_table_ok [of h] round_buckets [OF assms(1,2)] assms(4,5) by (auto simp: h_def)
  ultimately show ?thesis by (auto simp: h_def)
qed



section \<open>Destruction\<close>

lemma destroy_chain_ok:
  "\<not> ordered h \<Longrightarrow> \<not> multi h \<Longrightarrow> \<forall>e\<in>set es. value_of e \<noteq> None \<Longrightarrow>
    \<exists>h'. rehash_chain h True d es = Some h' \<and> same_table h h' \<and>
      keys_freed h' = keys_freed h @ (if key_free h then map b_key es else []) \<and>
      values_freed h' = values_freed h @ (if h_value_free h \<and> d then map (the \<circ> value_of) es else [])"
proof (induction es arbitrary: h)
  case (Cons e es)
  obtain v where v: "value_of e = Some v" using Cons.prems(3) by auto
  define h1 where "h1 = (if d then free_values (free_keys h [b_key e]) [v] else free_keys h [b_key e])"
  have h1: "same_table h h1" "keys_freed h1 = keys_freed h @ (if key_free h then [b_key e] else [])"
    "values_freed h1 = values_freed h @ (if h_value_free h \<and> d then [v] else [])"
    by (simp_all add: h1_def free_values_def free_keys_def same_table_def)
  then have f: "h_flags h1 = h_flags h" "key_free h1 = key_free h" "h_value_free h1 = h_value_free h"
    by (simp_all add: same_table_def)
  have "M_hashtable_destroy_entry h e d = Some h1"
    using Cons.prems(1,2) v by (simp add: M_hashtable_destroy_entry_def h1_def free_keys_def Let_def)
  moreover obtain h' where "rehash_chain h1 True d es = Some h'" "same_table h1 h'"
      "keys_freed h' = keys_freed h1 @ (if key_free h1 then map b_key es else [])"
      "values_freed h' = values_freed h1 @ (if h_value_free h1 \<and> d then map (the \<circ> value_of) es else [])"
    using Cons.IH [of h1] Cons.prems by (auto simp: f)
  ultimately show ?case using h1 v by (auto simp: f intro: same_table_trans)
qed simp

section \<open>Properties\<close>

text \<open>An empty table with one bucket, keyed by pointers, whose values are freed.\<close>

definition demo_hash :: "(M_uint64 option, nat, nat) M_hashtable" where
  "demo_hash = \<lparr>key_equality = M_sort_compar_vp,
     key_hash = (\<lambda>k. case k of None \<Rightarrow> (\<lambda>s. 0) | Some p \<Rightarrow> M_hash_func_hash_vp p),
     key_duplicate_insert = M_hashtable_duplicate_func_default, key_duplicate_copy = M_hashtable_duplicate_func_default,
     key_free = False, value_duplicate_insert = M_hashtable_duplicate_func_default,
     value_duplicate_copy = M_hashtable_duplicate_func_default, value_equality = M_hashtable_equality_func_default,
     h_value_free = True, buckets = [[]], h_keys = None, key_hash_seed = 16777619, h_size = 1, num_keys = 0, num_values = 0,
     num_collisions = 0, num_expansions = 0, fillpct = 75, h_flags = {M_HASHTABLE_STATIC_SEED}, keys_freed = [],
     values_freed = []\<rparr>"

lemma demo_hash_ok: "hash_ok demo_hash"
  by (rule empty_table_ok(1)) (auto simp: demo_hash_def vp_hash.hash_contract_axioms intro: exI [of _ 0])

text \<open>The same table with the keys 5 and 9, which has been doubled.\<close>

definition demo_two :: "(M_uint64 option, nat, nat) M_hashtable" where
  "demo_two = (case M_hashtable_insert demo_hash (Some 5) 50 of None \<Rightarrow> demo_hash
     | Some (_, h) \<Rightarrow> (case M_hashtable_insert h (Some 9) 90 of None \<Rightarrow> demo_hash | Some (_, h) \<Rightarrow> h))"

lemma demo_insert:
  assumes "hash_ok h" "same_table demo_hash h" "num_keys h + 1 < SIZE_MOD"
  shows "\<exists>h'. M_hashtable_insert h (Some k) v = Some (True, h') \<and> table_put h (Some k) v h'"
proof -
  have "key_duplicate_insert h (Some k) = Some k" "value_duplicate_insert h v = v" "keq h (Some k) (Some k)"
    using assms(2) by (simp_all add: same_table_def demo_hash_def M_hashtable_duplicate_func_default_def M_sort_compar_vp_def)
  then show ?thesis using insert_put [OF assms(1) _ _ _ assms(3), of "Some k" v] by (simp add: zero_option_def)
qed

lemma demo_keq: "same_table demo_hash h \<Longrightarrow> keq h (Some a) (Some b) \<longleftrightarrow> a = b"
  by (simp add: same_table_def demo_hash_def M_sort_compar_vp_def)

lemma demo_two_ok: "hash_ok demo_two" "same_table demo_hash demo_two" "num_keys demo_two = 2"
  "lookup demo_two (Some k) = (if k = 9 then Some 90 else if k = 5 then Some 50 else None)"
proof -
  have z: "Some j \<noteq> (0 :: M_uint64 option)" for j by (simp add: zero_option_def)
  have d: "lookup demo_hash (Some j) = None" for j
    by (rule empty_table_ok(3)) (auto simp: demo_hash_def vp_hash.hash_contract_axioms z intro: exI [of _ 0])
  obtain h1 where h1: "M_hashtable_insert demo_hash (Some 5) 50 = Some (True, h1)" "table_put demo_hash (Some 5) 50 h1"
    using demo_insert [OF demo_hash_ok, of 5 50] by (auto simp: demo_hash_def)
  then have 1: "hash_ok h1" "same_table demo_hash h1" "num_keys h1 = 1"
    "\<And>j. lookup h1 (Some j) = (if j = 5 then Some 50 else None)"
    using d z demo_keq [of demo_hash] by (auto simp: table_put_def demo_hash_def)
  then obtain h2 where h2: "M_hashtable_insert h1 (Some 9) 90 = Some (True, h2)" "table_put h1 (Some 9) 90 h2"
    using demo_insert [of h1 9 90] by (auto simp: SIZE_MOD_def)
  then have two: "demo_two = h2" using h1(1) by (simp add: demo_two_def)
  show "hash_ok demo_two" "same_table demo_hash demo_two" "num_keys demo_two = 2"
    unfolding two using h2(2) 1 by (auto simp: table_put_def intro: same_table_trans)
  show "lookup demo_two (Some k) = (if k = 9 then Some 90 else if k = 5 then Some 50 else None)"
    unfolding two using h2(2) 1(4) z demo_keq [OF 1(2)] by (auto simp: table_put_def)
qed

text \<open>
  C28. The creation of a table rounds the number of buckets up to a power of two that is within the
  limit, gives a well-formed table that has no key, and keeps the callbacks, with the identity in
  the place of a duplication callback that is missing. The number has to be positive and at most
  \<open>2 ^ 63\<close>, the load below 100 percent and the callbacks consistent. A random seed is always found,
  since the generator cannot give the largest number for ever.
\<close>

theorem M_hashtable_create_correct:
  fixes eq :: "('k::zero, 't::zero) M_sort_compar_t" and cb :: "('k, 'v::zero, 't) M_hashtable_callbacks"
  assumes "0 < n" "n \<le> 2 ^ 63" "pct < 100" "fl \<subseteq> {M_HASHTABLE_STATIC_SEED}"
    and "hash_contract eq hs"
  shows "\<exists>h. M_hashtable_create env hvp cvp n pct (Some hs) (Some eq) fl (Some cb) = Some (Some h) \<and> hash_ok h \<and>
    (\<forall>k. k \<noteq> 0 \<longrightarrow> M_hashtable_get h k = Some None) \<and> M_hashtable_num_keys h = 0 \<and>
    (\<exists>j\<le>24. M_hashtable_size h = 2 ^ j) \<and>
    key_duplicate_insert h = or_default (hcb_key_duplicate_insert cb) \<and>
    value_duplicate_insert h = or_default (hcb_value_duplicate_insert cb)"
proof -
  from create_ok [OF assms] obtain h where h:
    "M_hashtable_create env hvp cvp n pct (Some hs) (Some eq) fl (Some cb) = Some (Some h)" "hash_ok h"
    "\<forall>k. k \<noteq> 0 \<longrightarrow> lookup h k = None" "num_keys h = 0"
    "key_duplicate_insert h = or_default (hcb_key_duplicate_insert cb)"
    "value_duplicate_insert h = or_default (hcb_value_duplicate_insert cb)" by blast
  then have "tbl_ok h" by (simp add: hash_ok_def)
  then have "\<exists>j\<le>24. M_hashtable_size h = 2 ^ j" "\<forall>k. k \<noteq> 0 \<longrightarrow> M_hashtable_get h k = Some None"
    using h(3) by (simp_all add: tbl_ok_def M_hashtable_size_def get_lookup)
  then show ?thesis using h by (simp add: M_hashtable_num_keys_def)
qed

theorem M_hashtable_create_correct_witness:
  "\<exists>h. M_hashtable_create 0 (\<lambda>k s. 0) M_sort_compar_vp 5 75
      (Some (\<lambda>k. case k of None \<Rightarrow> (\<lambda>s. 0) | Some p \<Rightarrow> M_hash_func_hash_vp p)) (Some M_sort_compar_vp)
      {M_HASHTABLE_STATIC_SEED}
      (Some \<lparr>hcb_key_duplicate_insert = None, hcb_key_duplicate_copy = None, hcb_key_free = False,
        hcb_value_duplicate_insert = Some (\<lambda>v. v + 1), hcb_value_duplicate_copy = None,
        hcb_value_equality = None, hcb_value_free = False\<rparr>) = Some (Some (h :: (M_uint64 option, nat, nat) M_hashtable)) \<and>
    hash_ok h \<and> M_hashtable_get h (Some 5) = Some None \<and> value_duplicate_insert h 1 = 2"
proof -
  let ?hs = "\<lambda>k. case k of None \<Rightarrow> (\<lambda>s. 0) | Some p \<Rightarrow> M_hash_func_hash_vp p"
  let ?cb = "\<lparr>hcb_key_duplicate_insert = None, hcb_key_duplicate_copy = None, hcb_key_free = False,
        hcb_value_duplicate_insert = Some (\<lambda>v. v + 1), hcb_value_duplicate_copy = None,
        hcb_value_equality = None, hcb_value_free = False\<rparr> :: (M_uint64 option, nat, nat) M_hashtable_callbacks"
  from M_hashtable_create_correct [OF _ _ _ _ vp_hash.hash_contract_axioms, of 5 75 "{M_HASHTABLE_STATIC_SEED}" 0 "\<lambda>k s. 0"
    M_sort_compar_vp ?cb]
  obtain h where "M_hashtable_create 0 (\<lambda>k s. 0) M_sort_compar_vp 5 75 (Some ?hs) (Some M_sort_compar_vp)
      {M_HASHTABLE_STATIC_SEED} (Some ?cb) = Some (Some h)" "hash_ok h" "M_hashtable_get h (Some 5) = Some None"
      "value_duplicate_insert h = or_default (hcb_value_duplicate_insert ?cb)"
    by (auto simp: zero_option_def)
  then show ?thesis by (auto simp: or_default_def)
qed

text \<open>
  C25. Insertion into a table with one value per key: it returns, keeps the table well-formed, and
  afterwards the lookup gives the stored copy of the value for every key that the comparison takes
  as equal to the inserted one, and the old answer for every other key, also when the insertion has
  doubled the table. The number of keys grows by one if there was no equal key; a value that is
  replaced by another is freed, once, if values are to be freed. The key has to differ from null,
  and its copy too.
\<close>

theorem M_hashtable_insert_correct:
  fixes h :: "('k::zero, 'v::zero, 't::zero) M_hashtable"
  assumes "hash_ok h" "key \<noteq> 0" "key_duplicate_insert h key \<noteq> 0" "keq h (key_duplicate_insert h key) key"
    and "num_keys h + 1 < SIZE_MOD"
  shows "\<exists>h'. M_hashtable_insert h key v = Some (True, h') \<and> hash_ok h' \<and> same_table h h' \<and>
    (\<forall>k. k \<noteq> 0 \<longrightarrow> M_hashtable_get h' k =
       (if keq h key k then Some (Some (value_duplicate_insert h v)) else M_hashtable_get h k)) \<and>
    M_hashtable_num_keys h' = M_hashtable_num_keys h + (if M_hashtable_get h key = Some None then 1 else 0) \<and>
    values_freed h' = values_freed h @ (case M_hashtable_get h key of
        Some (Some old) \<Rightarrow> if h_value_free h \<and> old \<noteq> value_duplicate_insert h v then [old] else [] | _ \<Rightarrow> [])"
proof -
  obtain h' where h': "M_hashtable_insert h key v = Some (True, h')" "table_put h key (value_duplicate_insert h v) h'"
    using insert_put [OF assms] by blast
  then have t: "tbl_ok h" "tbl_ok h'" using assms(1) by (simp_all add: table_put_def hash_ok_def)
  show ?thesis using h' assms(2)
    by (auto simp: table_put_def get_lookup [OF t(1)] get_lookup [OF t(2)] M_hashtable_num_keys_def split: option.splits)
qed

theorem M_hashtable_insert_correct_witness:
  "\<exists>h'. M_hashtable_insert demo_two (Some 5) 51 = Some (True, h') \<and>
    M_hashtable_get h' (Some 5) = Some (Some 51) \<and> M_hashtable_get h' (Some 9) = Some (Some 90) \<and>
    M_hashtable_num_keys h' = 2 \<and> values_freed h' = values_freed demo_two @ [50]"
proof -
  have z: "Some j \<noteq> (0 :: M_uint64 option)" for j by (simp add: zero_option_def)
  have t: "tbl_ok demo_two" using demo_two_ok(1) by (simp add: hash_ok_def)
  have g: "M_hashtable_get demo_two (Some k) = Some (if k = 9 then Some 90 else if k = 5 then Some 50 else None)" for k
    by (simp add: get_lookup [OF t z] demo_two_ok(4))
  have c: "key_duplicate_insert demo_two k = k" "value_duplicate_insert demo_two v = v" "h_value_free demo_two" for k v
    using demo_two_ok(2) by (simp_all add: same_table_def demo_hash_def M_hashtable_duplicate_func_default_def)
  show ?thesis
    using M_hashtable_insert_correct [OF demo_two_ok(1) z, of 5 51] z
    by (auto simp: c g demo_keq [OF demo_two_ok(2)] demo_two_ok(3) M_hashtable_num_keys_def SIZE_MOD_def)
qed





lemma table_destroy_ok:
  fixes h :: "('k::zero, 'v::zero, 't::zero) M_hashtable"
  assumes "tbl_ok h"
  shows "\<exists>h'. M_hashtable_destroy h destroy_vals = Some h' \<and>
    mset (keys_freed h') = mset (keys_freed h) + (if key_free h then image_mset b_key (ents h) else {#}) \<and>
    mset (values_freed h') = mset (values_freed h) +
      (if h_value_free h \<and> destroy_vals then image_mset (the \<circ> value_of) (ents h) else {#})"
proof -
  have f: "\<not> ordered h" "\<not> multi h" using assms by (auto simp: tbl_ok_def)
  obtain h' where h': "rehash_chain h True destroy_vals (concat (buckets h)) = Some h'" "same_table h h'"
    "keys_freed h' = keys_freed h @ (if key_free h then map b_key (concat (buckets h)) else [])"
    "values_freed h' = values_freed h @ (if h_value_free h \<and> destroy_vals then map (the \<circ> value_of) (concat (buckets h)) else [])"
    using destroy_chain_ok [OF f, of "concat (buckets h)" destroy_vals] tbl_ok_concat(2) [OF assms] by blast
  then have "M_hashtable_destroy h destroy_vals = Some h'"
    using f rehash_loop_concat [OF tbl_ok_concat(3) [OF assms], of h True destroy_vals]
    by (simp add: M_hashtable_destroy_def M_hashtable_rehash_or_destroy_def same_table_def)
  moreover have "mset (map f (concat (buckets h))) = image_mset f (ents h)" for f :: "_ \<Rightarrow> 'c"
    unfolding ents_def mset_map ..
  ultimately show ?thesis using h'(3,4) by (simp add: ents_def del: map_concat mset_concat)
qed

text \<open>
  C29. Destroying a table with one value per key passes every key to the callback that frees keys
  and, if the values are to be destroyed, every value to the callback that frees values, each once.
\<close>

theorem M_hashtable_destroy_correct:
  fixes h :: "('k::zero, 'v::zero, 't::zero) M_hashtable"
  assumes "tbl_ok h"
  shows "\<exists>h'. M_hashtable_destroy h destroy_vals = Some h' \<and>
    mset (keys_freed h') = mset (keys_freed h) + (if key_free h then image_mset b_key (ents h) else {#}) \<and>
    mset (values_freed h') = mset (values_freed h) +
      (if h_value_free h \<and> destroy_vals then image_mset (the \<circ> value_of) (ents h) else {#})"
  using assms by (rule table_destroy_ok)

text \<open>A bucket with two entries.\<close>

definition demo_chain :: "(M_uint64 option, nat, nat) M_hashtable" where
  "demo_chain = demo_hash\<lparr>buckets := [[\<lparr>b_key = Some 5, b_value = HValue 50\<rparr>, \<lparr>b_key = Some 9, b_value = HValue 90\<rparr>]],
     num_keys := 2, num_values := 2, key_free := True\<rparr>"

lemma demo_chain_ok: "tbl_ok demo_chain"
  using vp_hash.hash_contract_axioms
  by (auto simp: tbl_ok_def demo_chain_def demo_hash_def chain_ok_def HASH_IDX_def zero_option_def value_of_def
      M_sort_compar_vp_def intro: exI [of _ 0])

theorem M_hashtable_destroy_correct_witness:
  "\<exists>h'. M_hashtable_destroy demo_chain True = Some h' \<and>
    mset (keys_freed h') = {#Some 5, Some 9#} \<and> mset (values_freed h') = {#50, 90#}"
  using M_hashtable_destroy_correct [OF demo_chain_ok, of True]
  by (simp add: demo_chain_def demo_hash_def ents_def value_of_def)

end
