(* ===== verification/M_Bincodec.thy ===== *)
theory M_Bincodec
  imports Sort_Compar
begin

text \<open>
  The binary encodings (\<^verbatim>\<open>src/base/bincodec\<close>): hexadecimal, base 64 and base 32, and the functions
  that choose between them.

  An input is a block of bytes with the length that the caller passes, an output a block that is
  written at the positions the code computes. A result \<open>None\<close> is an access outside a block. The
  functions give the number that the source returns and the output block as they leave it. Characters
  are bytes; the ranges that the source tests lie below 128, where signed and unsigned agree.
\<close>

section \<open>Hexadecimal\<close>

definition hex2dec :: "M_uint8 \<Rightarrow> M_uint8" where
  "hex2dec c = (if c \<ge> 0x61 then c - 0x61 + 10 else if c \<ge> 0x41 then c - 0x41 + 10 else c - 0x30)"

definition hex_isvalidchar :: "M_uint8 \<Rightarrow> bool" where
  "hex_isvalidchar c =
     (if c \<ge> 0x30 \<and> c \<le> 0x39 then True
      else if c \<ge> 0x41 \<and> c \<le> 0x46 then True
      else if c \<ge> 0x61 \<and> c \<le> 0x66 then True
      else False)"

definition add_byte :: "bytes \<Rightarrow> nat \<Rightarrow> nat \<Rightarrow> nat \<Rightarrow> M_uint8 \<Rightarrow> (bytes \<times> nat \<times> nat) option" where
  "add_byte out pos linelen wrap c = do {
     out \<leftarrow> arr_set out pos c;
     let pos = pos + 1;
     let linelen = linelen + 1;
     if wrap > 0 \<and> linelen \<ge> wrap then do {
       out \<leftarrow> arr_set out pos 0x0a;
       Some (out, pos + 1, 0)
     } else Some (out, pos, linelen)
   }"

text \<open>The loop that skips white space, which the decoders share.\<close>

function skip_space :: "bytes \<Rightarrow> nat \<Rightarrow> nat \<Rightarrow> nat option" where
  "skip_space inp inLen i =
     (if i < inLen then do {
        c \<leftarrow> arr_get inp i;
        if M_chr_isspace c then skip_space inp inLen (i + 1) else Some i
      } else Some i)"
  by pat_completeness auto
termination
  by (relation "measure (\<lambda>(inp, inLen, i). inLen - i)") auto

declare skip_space.simps [simp del]

text \<open>The byte, or none when there is no other; the position and the failure flag.\<close>

definition get_byte :: "bytes \<Rightarrow> nat \<Rightarrow> nat \<Rightarrow> bool \<Rightarrow> (M_uint8 option \<times> nat \<times> bool) option" where
  "get_byte inp inLen i fail = do {
     i \<leftarrow> skip_space inp inLen i;
     if i \<ge> inLen then Some (None, i, fail)
     else do {
       c \<leftarrow> arr_get inp i;
       if \<not> hex_isvalidchar c then Some (None, i, True)
       else Some (Some c, i + 1, fail)
     }
   }"

definition M_hex_target_size :: "nat \<Rightarrow> nat \<Rightarrow> nat" where
  "M_hex_target_size srcsize wrap =
     (if srcsize = 0 then 0
      else if wrap = 0 then size_mul srcsize 2
      else size_add (size_mul srcsize 2) (size_mul srcsize 2 div wrap + 1))"

definition hex_digits :: bytes where
  "hex_digits = map of_char ''0123456789ABCDEF''"

function hex_encode_loop ::
  "bytes \<Rightarrow> nat \<Rightarrow> nat \<Rightarrow> nat \<Rightarrow> bytes \<Rightarrow> nat \<Rightarrow> nat \<Rightarrow> (bytes \<times> nat \<times> nat) option" where
  "hex_encode_loop inp inLen wrap i out pos linelen =
     (if i < inLen then do {
        b \<leftarrow> arr_get inp i;
        c \<leftarrow> arr_get hex_digits (unat (drop_bit 4 (0xf0 AND b)));
        (out, pos, linelen) \<leftarrow> add_byte out pos linelen wrap c;
        c \<leftarrow> arr_get hex_digits (unat (drop_bit 0 (0x0f AND b)));
        (out, pos, linelen) \<leftarrow> add_byte out pos linelen (if i = inLen - 1 then 0 else wrap) c;
        hex_encode_loop inp inLen wrap (i + 1) out pos linelen
      } else Some (out, pos, linelen))"
  by pat_completeness auto
termination
  by (relation "measure (\<lambda>(inp, inLen, wrap, i, out, pos, linelen). inLen - i)") auto

declare hex_encode_loop.simps [simp del]

definition M_hex_encode :: "bytes \<Rightarrow> nat \<Rightarrow> bytes \<Rightarrow> nat \<Rightarrow> nat \<Rightarrow> (nat \<times> bytes) option" where
  "M_hex_encode inp inLen out outLen wrap =
     (if inLen = 0 \<or> outLen < M_hex_target_size inLen wrap then Some (0, out)
      else do {
        (out, pos, linelen) \<leftarrow> hex_encode_loop inp inLen wrap 0 out 0 0;
        out \<leftarrow> (if pos < outLen then arr_set out pos 0 else Some out);
        Some (pos, out)
      })"

lemma skip_space_mono: "skip_space inp inLen i = Some j \<Longrightarrow> i \<le> j"
proof (induction inp inLen i rule: skip_space.induct)
  case (1 inp inLen i)
  then show ?case
    by (subst (asm) (2) skip_space.simps) (fastforce split: if_splits Option.bind_splits)
qed

lemma get_byte_mono: "get_byte inp inLen i fail = Some (Some c, j, f) \<Longrightarrow> i < j \<and> j \<le> inLen"
  by (auto simp: get_byte_def dest: skip_space_mono split: if_splits Option.bind_splits)

function hex_decode_loop ::
  "bytes \<Rightarrow> nat \<Rightarrow> nat \<Rightarrow> bytes \<Rightarrow> nat \<Rightarrow> bool \<Rightarrow> (bytes \<times> nat \<times> bool) option" where
  "hex_decode_loop inp inLen i out pos fail =
     (case get_byte inp inLen i fail of None \<Rightarrow> None
      | Some (None, i, fail) \<Rightarrow> Some (out, pos, fail)
      | Some (Some c1, i, fail) \<Rightarrow>
          (case get_byte inp inLen i fail of None \<Rightarrow> None
           | Some (None, i, fail) \<Rightarrow> Some (out, pos, fail)
           | Some (Some c2, i, fail) \<Rightarrow> do {
               out \<leftarrow> arr_set out pos (push_bit 4 (hex2dec c1) OR hex2dec c2);
               hex_decode_loop inp inLen i out (pos + 1) fail
             }))"
  by pat_completeness auto
termination
  by (relation "measure (\<lambda>(inp, inLen, i, out, pos, fail). inLen - i)") (auto dest!: get_byte_mono)

declare hex_decode_loop.simps [simp del]

definition M_hex_decode :: "bytes \<Rightarrow> nat \<Rightarrow> bytes \<Rightarrow> nat \<Rightarrow> (nat \<times> bytes) option" where
  "M_hex_decode inp inLen out outLen =
     (if inLen = 0 \<or> inLen mod 2 \<noteq> 0 \<or> outLen < inLen div 2 then Some (0, out)
      else do {
        (out, pos, fail) \<leftarrow> hex_decode_loop inp inLen 0 out 0 False;
        if fail then Some (0, out) else Some (pos, out)
      })"

section \<open>Base 64\<close>

definition enc_table :: bytes where
  "enc_table = map of_char ''ABCDEFGHIJKLMNOPQRSTUVWXYZabcdefghijklmnopqrstuvwxyz0123456789+/''"

definition dec_table :: "int list" where
  "dec_table = [62, -1, -1, -1, 63, 52, 53, 54, 55, 56, 57, 58, 59, 60, 61,
     -1, -1, -1, -1, -1, -1, -1, 0, 1, 2, 3, 4, 5, 6, 7, 8, 9, 10,
     11, 12, 13, 14, 15, 16, 17, 18, 19, 20, 21, 22, 23, 24, 25, -1,
     -1, -1, -1, -1, -1, 26, 27, 28, 29, 30, 31, 32, 33, 34, 35, 36,
     37, 38, 39, 40, 41, 42, 43, 44, 45, 46, 47, 48, 49, 50, 51]"

definition b64_isvalidchar :: "M_uint8 \<Rightarrow> bool" where
  "b64_isvalidchar c =
     (if c \<ge> 0x30 \<and> c \<le> 0x39 then True
      else if c \<ge> 0x41 \<and> c \<le> 0x5a then True
      else if c \<ge> 0x61 \<and> c \<le> 0x7a then True
      else if c = 0x2b \<or> c = 0x2f \<or> c = 0x3d then True
      else False)"

definition M_base64_encode_adder ::
  "bytes \<Rightarrow> M_uint32 \<Rightarrow> nat \<Rightarrow> nat \<Rightarrow> nat \<Rightarrow> bool \<Rightarrow> (bytes \<times> nat \<times> nat) option" where
  "M_base64_encode_adder out bidx pos len wrap ispad = do {
     c \<leftarrow> (if ispad then Some 0x3d else arr_get enc_table (unat bidx));
     out \<leftarrow> arr_set out pos c;
     let pos = pos + 1;
     let len = len + 1;
     if wrap > 0 \<and> len > 0 \<and> len mod wrap = 0 then do {
       out \<leftarrow> arr_set out pos 0x0a;
       Some (out, pos + 1, len)
     } else Some (out, pos, len)
   }"

text \<open>
  Whether there is a character, its value and the position after it. \<open>sizeof(dec_table)\<close> is the
  size in bytes, four for each entry.
\<close>

definition M_base64_get_decchar :: "bytes \<Rightarrow> nat \<Rightarrow> nat \<Rightarrow> (bool \<times> int \<times> nat) option" where
  "M_base64_get_decchar inp inlen idx =
     (if idx \<ge> inlen then Some (False, 0, idx)
      else do {
        idx \<leftarrow> skip_space inp inlen idx;
        if idx \<ge> inlen then Some (False, 0, idx)
        else do {
          c \<leftarrow> arr_get inp idx;
          if \<not> b64_isvalidchar c then Some (False, 0, idx)
          else do {
            let idx = idx + 1;
            if c = 0x3d then
              if idx - 1 < size_sub inlen 2 then Some (False, 0, idx) else Some (True, 0, idx)
            else if c < 43 \<or> unat c - 43 > 4 * length dec_table then Some (False, 0, idx)
            else do {
              val \<leftarrow> arr_get dec_table (unat c - 43);
              Some (val \<noteq> -1, val, idx)
            }
          }
        }
      })"

definition M_base64_write_decchar :: "bytes \<Rightarrow> nat \<Rightarrow> M_uint8 \<Rightarrow> nat \<Rightarrow> (bool \<times> bytes \<times> nat) option" where
  "M_base64_write_decchar out outlen c pos =
     (if pos \<ge> outlen then Some (False, out, pos)
      else do { out \<leftarrow> arr_set out pos c; Some (True, out, pos + 1) })"

definition M_base64_encode_size :: "nat \<Rightarrow> nat \<Rightarrow> nat" where
  "M_base64_encode_size inlen wrap =
     (if inlen = 0 then 0
      else let ret = size_add (size_mul 4 inlen div 3) 3;
               ret = ret - ret mod 4;
               ret = (if wrap > 0 then
                        if ret mod wrap \<noteq> 0 then size_add ret (ret div wrap)
                        else size_add ret (size_sub (ret div wrap) 1)
                      else ret)
           in size_add ret 1)"

definition M_base64_decode_size :: "nat \<Rightarrow> nat" where
  "M_base64_decode_size inlen = (if inlen = 0 then 0 else inlen div 4 * 3)"

text \<open>The four characters for the bits of \<open>tmp\<close>.\<close>

definition b64_encode_full :: "M_uint32 \<Rightarrow> nat \<Rightarrow> bytes \<Rightarrow> nat \<Rightarrow> nat \<Rightarrow> (bytes \<times> nat \<times> nat) option" where
  "b64_encode_full tmp wrap out pos len = do {
     (out, pos, len) \<leftarrow> M_base64_encode_adder out (drop_bit 18 tmp AND 63) pos len wrap False;
     (out, pos, len) \<leftarrow> M_base64_encode_adder out (drop_bit 12 tmp AND 63) pos len wrap False;
     (out, pos, len) \<leftarrow> M_base64_encode_adder out (drop_bit 6 tmp AND 63) pos len wrap False;
     M_base64_encode_adder out (tmp AND 63) pos len wrap False
   }"

function b64_encode_loop ::
  "bytes \<Rightarrow> nat \<Rightarrow> nat \<Rightarrow> nat \<Rightarrow> bytes \<Rightarrow> nat \<Rightarrow> nat \<Rightarrow> (bytes \<times> nat \<times> nat) option" where
  "b64_encode_loop inp inlen3 wrap i out pos len =
     (if i < inlen3 then do {
        b0 \<leftarrow> arr_get inp i;
        b1 \<leftarrow> arr_get inp (i + 1);
        b2 \<leftarrow> arr_get inp (i + 2);
        let tmp = push_bit 16 (ucast b0) OR push_bit 8 (ucast b1) OR ucast b2;
        (out, pos, len) \<leftarrow> b64_encode_full tmp wrap out pos len;
        b64_encode_loop inp inlen3 wrap (i + 3) out pos len
      } else Some (out, pos, len))"
  by pat_completeness auto
termination
  by (relation "measure (\<lambda>(inp, inlen3, wrap, i, out, pos, len). inlen3 - i)") auto

declare b64_encode_loop.simps [simp del]

text \<open>The one or two bytes after the last three, with the padding.\<close>

definition b64_encode_rest ::
  "bytes \<Rightarrow> nat \<Rightarrow> nat \<Rightarrow> nat \<Rightarrow> bytes \<Rightarrow> nat \<Rightarrow> nat \<Rightarrow> (bytes \<times> nat \<times> nat) option" where
  "b64_encode_rest inp inlen inlen3 wrap out pos len =
     (if inlen3 \<noteq> inlen then do {
        tmp \<leftarrow> (if inlen - inlen3 = 2 then do {
                   b0 \<leftarrow> arr_get inp (inlen - 2);
                   b1 \<leftarrow> arr_get inp (inlen - 1);
                   Some (push_bit 16 (ucast b0) OR push_bit 8 (ucast b1))
                 } else if inlen - inlen3 = 1 then do {
                   b0 \<leftarrow> arr_get inp (inlen - 1);
                   Some (push_bit 16 (ucast b0))
                 } else Some 0);
        (out, pos, len) \<leftarrow> M_base64_encode_adder out (drop_bit 18 tmp AND 63) pos len wrap False;
        (out, pos, len) \<leftarrow> M_base64_encode_adder out (drop_bit 12 tmp AND 63) pos len wrap False;
        (out, pos, len) \<leftarrow> (if inlen - inlen3 = 2
                             then M_base64_encode_adder out (drop_bit 6 tmp AND 63) pos len wrap False
                             else M_base64_encode_adder out 0 pos len wrap True);
        M_base64_encode_adder out 0 pos len wrap True
      } else Some (out, pos, len))"

definition M_base64_encode :: "bytes \<Rightarrow> nat \<Rightarrow> bytes \<Rightarrow> nat \<Rightarrow> nat \<Rightarrow> (nat \<times> bytes) option" where
  "M_base64_encode out outlen inp inlen wrap =
     (if outlen = 0 \<or> inlen = 0 \<or> outlen < M_base64_encode_size inlen wrap then Some (0, out)
      else do {
        let inlen3 = inlen - inlen mod 3;
        (out, pos, len) \<leftarrow> b64_encode_loop inp inlen3 wrap 0 out 0 0;
        (out, pos, len) \<leftarrow> b64_encode_rest inp inlen inlen3 wrap out pos len;
        c \<leftarrow> arr_get out (size_sub pos 1);
        let pos = (if c = 0x0a then pos - 1 else pos);
        out \<leftarrow> arr_set out pos 0;
        Some (pos, out)
      })"

text \<open>
  The loop that drops white space at the end. When there is nothing else it reads the byte before the
  block.
\<close>

primrec b64_trim :: "bytes \<Rightarrow> nat \<Rightarrow> nat option" where
  "b64_trim inp 0 = None"
| "b64_trim inp (Suc n) = do {
     c \<leftarrow> arr_get inp n;
     if M_chr_isspace c then b64_trim inp n else Some (Suc n)
   }"

text \<open>Four characters, or none when one of them is missing.\<close>

definition b64_get4 :: "bytes \<Rightarrow> nat \<Rightarrow> nat \<Rightarrow> (int \<times> int \<times> int \<times> int \<times> nat) option option" where
  "b64_get4 inp inlen i =
     (case M_base64_get_decchar inp inlen i of None \<Rightarrow> None | Some (ok, a, i) \<Rightarrow>
      if \<not> ok then Some None else
     (case M_base64_get_decchar inp inlen i of None \<Rightarrow> None | Some (ok, b, i) \<Rightarrow>
      if \<not> ok then Some None else
     (case M_base64_get_decchar inp inlen i of None \<Rightarrow> None | Some (ok, c, i) \<Rightarrow>
      if \<not> ok then Some None else
     (case M_base64_get_decchar inp inlen i of None \<Rightarrow> None | Some (ok, d, i) \<Rightarrow>
      if \<not> ok then Some None else Some (Some (a, b, c, d, i))))))"

definition b64_tmp :: "int \<Rightarrow> int \<Rightarrow> int \<Rightarrow> int \<Rightarrow> M_uint32" where
  "b64_tmp a b c d =
     push_bit 18 (word_of_int a) OR push_bit 12 (word_of_int b) OR push_bit 6 (word_of_int c) OR word_of_int d"

text \<open>The bytes of one group: the result is none when the output is full.\<close>

definition b64_write3 ::
  "bytes \<Rightarrow> nat \<Rightarrow> nat \<Rightarrow> M_uint32 \<Rightarrow> bytes \<Rightarrow> nat \<Rightarrow> nat \<Rightarrow> (bool \<times> bytes \<times> nat) option" where
  "b64_write3 inp inlen i tmp out outlen pos = do {
     (ok, out, pos) \<leftarrow> M_base64_write_decchar out outlen (ucast (drop_bit 16 tmp AND 0xFF)) pos;
     if \<not> ok then Some (False, out, pos)
     else do {
       p \<leftarrow> (if i \<noteq> inlen then Some True else do { c \<leftarrow> arr_get inp (size_sub inlen 2); Some (c \<noteq> 0x3d) });
       (ok, out, pos) \<leftarrow> (if p then M_base64_write_decchar out outlen (ucast (drop_bit 8 tmp AND 0xFF)) pos
                           else Some (True, out, pos));
       if \<not> ok then Some (False, out, pos)
       else do {
         p \<leftarrow> (if i \<noteq> inlen then Some True else do { c \<leftarrow> arr_get inp (size_sub inlen 1); Some (c \<noteq> 0x3d) });
         if p then M_base64_write_decchar out outlen (ucast (tmp AND 0xFF)) pos else Some (True, out, pos)
       }
     }
   }"

lemma get_decchar_mono: "M_base64_get_decchar inp inlen i = Some (True, v, j) \<Longrightarrow> i < j \<and> j \<le> inlen"
  by (auto simp: M_base64_get_decchar_def Let_def dest: skip_space_mono split: if_splits Option.bind_splits)

lemma b64_get4_mono: "b64_get4 inp inlen i = Some (Some (a, b, c, d, j)) \<Longrightarrow> i < j"
  by (auto simp: b64_get4_def split: option.splits if_splits dest!: get_decchar_mono)

function b64_decode_loop :: "bytes \<Rightarrow> nat \<Rightarrow> nat \<Rightarrow> bytes \<Rightarrow> nat \<Rightarrow> nat \<Rightarrow> (nat \<times> bytes) option" where
  "b64_decode_loop inp inlen i out outlen pos =
     (if i < inlen then
        case b64_get4 inp inlen i of None \<Rightarrow> None
        | Some None \<Rightarrow> Some (0, out)
        | Some (Some (a, b, c, d, i)) \<Rightarrow> do {
            (ok, out, pos) \<leftarrow> b64_write3 inp inlen i (b64_tmp a b c d) out outlen pos;
            if \<not> ok then Some (0, out) else b64_decode_loop inp inlen i out outlen pos
          }
      else Some (pos, out))"
  by pat_completeness auto
termination
  by (relation "measure (\<lambda>(inp, inlen, i, out, outlen, pos). inlen - i)") (auto dest!: b64_get4_mono)

declare b64_decode_loop.simps [simp del]

definition M_base64_decode :: "bytes \<Rightarrow> nat \<Rightarrow> bytes \<Rightarrow> nat \<Rightarrow> (nat \<times> bytes) option" where
  "M_base64_decode out outlen inp inlen =
     (if outlen = 0 \<or> inlen = 0 then Some (0, out)
      else do {
        inlen \<leftarrow> b64_trim inp inlen;
        if inlen = 0 then Some (0, out) else b64_decode_loop inp inlen 0 out outlen 0
      })"

section \<open>Base 32\<close>

definition M_base32_encode_size :: "nat \<Rightarrow> nat \<Rightarrow> nat" where
  "M_base32_encode_size len wrap =
     (if len = 0 then 0
      else let ret = size_add (size_mul 8 len) 4 div 5;
               ret = (if ret mod 8 \<noteq> 0 then size_add ret (8 - ret mod 8) else ret);
               ret = (if wrap > 0 then
                        if ret mod wrap \<noteq> 0 then size_add ret (ret div wrap)
                        else size_add ret (size_sub (ret div wrap) 1)
                      else ret)
           in size_add ret 1)"

definition M_base32_decode_size :: "nat \<Rightarrow> nat" where
  "M_base32_decode_size len = len div 8 * 5"

definition M_base32_charset :: bytes where
  "M_base32_charset = map of_char ''ABCDEFGHIJKLMNOPQRSTUVWXYZ234567''"

definition M_base32_rev_charset :: "int list" where
  "M_base32_rev_charset = [
     -1, -1, -1, -1, -1, -1, -1, -1, -1, -1, -1, -1, -1, -1, -1, -1,
     -1, -1, -1, -1, -1, -1, -1, -1, -1, -1, -1, -1, -1, -1, -1, -1,
     -1, -1, -1, -1, -1, -1, -1, -1, -1, -1, -1, -1, -1, -1, -1, -1,
     -1, -1, 26, 27, 28, 29, 30, 31, -1, -1, -1, -1, -1,  0, -1, -1,
     -1,  0,  1,  2,  3,  4,  5,  6,  7,  8,  9, 10, 11, 12, 13, 14,
     15, 16, 17, 18, 19, 20, 21, 22, 23, 24, 25, -1, -1, -1, -1, -1,
     -1,  0,  1,  2,  3,  4,  5,  6,  7,  8,  9, 10, 11, 12, 13, 14,
     15, 16, 17, 18, 19, 20, 21, 22, 23, 24, 25, -1, -1, -1, -1, -1] @ replicate 128 (-1)"

text \<open>The bits of up to five bytes, the first byte in the highest place.\<close>

fun b32_read :: "bytes \<Rightarrow> nat \<Rightarrow> nat \<Rightarrow> nat \<Rightarrow> M_uint64 \<Rightarrow> M_uint64 option" where
  "b32_read inp i cnt 0 n = Some n"
| "b32_read inp i cnt (Suc k) n = do {
     let j = cnt - Suc k;
     b \<leftarrow> arr_get inp (i + j);
     b32_read inp i cnt k (n OR push_bit (32 - j * 8) (ucast b))
   }"

definition b32_put ::
  "nat \<Rightarrow> M_uint8 \<Rightarrow> bytes \<Rightarrow> nat \<Rightarrow> nat \<Rightarrow> (bytes \<times> nat \<times> nat) option" where
  "b32_put wrap c out cnt datalen = do {
     (out, cnt) \<leftarrow> (if wrap \<noteq> 0 \<and> datalen > 0 \<and> datalen mod wrap = 0
                     then do { out \<leftarrow> arr_set out cnt 0x0a; Some (out, cnt + 1) } else Some (out, cnt));
     out \<leftarrow> arr_set out cnt c;
     Some (out, cnt + 1, datalen + 1)
   }"

text \<open>The eight characters of a group, from the one with index \<open>8 - k\<close> on.\<close>

fun b32_group ::
  "M_uint64 \<Rightarrow> nat \<Rightarrow> nat \<Rightarrow> nat \<Rightarrow> bytes \<Rightarrow> nat \<Rightarrow> nat \<Rightarrow> (bytes \<times> nat \<times> nat) option" where
  "b32_group n bytes wrap 0 out cnt datalen = Some (out, cnt, datalen)"
| "b32_group n bytes wrap (Suc k) out cnt datalen = do {
     let j = 8 - Suc k;
     c \<leftarrow> (if j * 5 > bytes * 8 then Some 0x3d
            else arr_get M_base32_charset (unat (drop_bit (35 - j * 5) n AND 0x1F)));
     (out, cnt, datalen) \<leftarrow> b32_put wrap c out cnt datalen;
     b32_group n bytes wrap k out cnt datalen
   }"

function b32_encode_loop ::
  "bytes \<Rightarrow> nat \<Rightarrow> nat \<Rightarrow> nat \<Rightarrow> bytes \<Rightarrow> nat \<Rightarrow> nat \<Rightarrow> (bytes \<times> nat \<times> nat) option" where
  "b32_encode_loop inp in_len wrap i out cnt datalen =
     (if i < in_len then do {
        let bytes = (if in_len - i > 5 then 5 else in_len - i);
        n \<leftarrow> b32_read inp i bytes bytes 0;
        (out, cnt, datalen) \<leftarrow> b32_group n bytes wrap 8 out cnt datalen;
        b32_encode_loop inp in_len wrap (i + 5) out cnt datalen
      } else Some (out, cnt, datalen))"
  by pat_completeness auto
termination
  by (relation "measure (\<lambda>(inp, in_len, wrap, i, out, cnt, datalen). in_len - i)") auto

declare b32_encode_loop.simps [simp del]

definition M_base32_encode :: "bytes \<Rightarrow> nat \<Rightarrow> bytes \<Rightarrow> nat \<Rightarrow> nat \<Rightarrow> (nat \<times> bytes) option" where
  "M_base32_encode out out_len inp in_len wrap =
     (if out_len = 0 \<or> in_len = 0 \<or> out_len < M_base32_encode_size in_len wrap then Some (0, out)
      else do {
        (out, cnt, datalen) \<leftarrow> b32_encode_loop inp in_len wrap 0 out 0 0;
        out \<leftarrow> arr_set out cnt 0;
        Some (cnt, out)
      })"

text \<open>
  The decoder reads a string up to its terminator and does not use the length. \<open>b32_eight\<close> reads
  the characters from the one with index \<open>8 - k\<close> on and gives the bits and the rest of the string.
\<close>

primrec b32_skip :: "bytes \<Rightarrow> bytes" where
  "b32_skip [] = []"
| "b32_skip (c # cs) = (if M_chr_isspace c then b32_skip cs else c # cs)"

fun b32_eight :: "nat \<Rightarrow> bytes \<Rightarrow> M_uint64 \<Rightarrow> (M_uint64 \<times> bytes) option" where
  "b32_eight 0 inp n = Some (n, inp)"
| "b32_eight (Suc k) inp n =
     (let i = 8 - Suc k; inp = b32_skip inp in
      if chr0 inp = 0 then None
      else let v = M_base32_rev_charset ! unat (chr0 inp) in
        if v < 0 then None
        else b32_eight k (tl inp) (n OR push_bit (35 - i * 5) (word_of_int v)))"

fun b32_write :: "nat \<Rightarrow> M_uint64 \<Rightarrow> bytes \<Rightarrow> nat \<Rightarrow> (bytes \<times> nat) option" where
  "b32_write 0 n out cnt = Some (out, cnt)"
| "b32_write (Suc k) n out cnt = do {
     let i = 5 - Suc k;
     out \<leftarrow> arr_set out cnt (ucast (drop_bit (32 - i * 8) n AND 0xFF));
     b32_write k n out (cnt + 1)
   }"

lemma length_b32_skip: "length (b32_skip cs) \<le> length cs"
  by (induction cs) auto

lemma b32_eight_length: "b32_eight k inp n = Some (m, rest) \<Longrightarrow> length rest + k \<le> length inp"
proof (induction k inp n rule: b32_eight.induct)
  case (2 k inp n)
  have "length rest + k \<le> length (tl (b32_skip inp))" "b32_skip inp \<noteq> []"
    using 2 by (auto simp: Let_def chr0_def split: if_splits)
  then show ?case using length_b32_skip [of inp] by (cases "b32_skip inp") auto
qed simp

function b32_decode_loop :: "bytes \<Rightarrow> bytes \<Rightarrow> nat \<Rightarrow> (nat \<times> bytes) option" where
  "b32_decode_loop inp out cnt =
     (if chr0 inp \<noteq> 0 then
        case b32_eight 8 inp 0 of None \<Rightarrow> Some (0, out)
        | Some (n, inp) \<Rightarrow> do {
            (out, cnt) \<leftarrow> b32_write 5 n out cnt;
            b32_decode_loop inp out cnt
          }
      else Some (cnt, out))"
  by pat_completeness auto
termination
  by (relation "measure (\<lambda>(inp, out, cnt). length inp)") (auto dest: b32_eight_length)

declare b32_decode_loop.simps [simp del]

definition M_base32_decode :: "bytes \<Rightarrow> nat \<Rightarrow> bytes \<Rightarrow> nat \<Rightarrow> (nat \<times> bytes) option" where
  "M_base32_decode out out_len inp in_len =
     (if out_len = 0 \<or> in_len = 0 \<or> out_len < M_base32_decode_size in_len then Some (0, out)
      else b32_decode_loop inp out 0)"

section \<open>The choice of the encoding\<close>

text \<open>\<open>M_str_len\<close>, \<open>M_str_ishex\<close> and \<open>M_str_isstr\<close> on a string that ends at its first zero byte.\<close>

definition M_str_len :: "bytes \<Rightarrow> nat" where
  "M_str_len s = length (takeWhile (\<lambda>c. c \<noteq> 0) s)"

fun M_str_ispredicate_max_inline :: "bytes \<Rightarrow> nat \<Rightarrow> (M_uint8 \<Rightarrow> bool) \<Rightarrow> bool" where
  "M_str_ispredicate_max_inline s 0 pred = True"
| "M_str_ispredicate_max_inline s (Suc n) pred =
     (if chr0 s = 0 then True
      else if \<not> pred (chr0 s) then False
      else M_str_ispredicate_max_inline (tl s) n pred)"

definition M_str_ishex :: "bytes \<Rightarrow> bool" where
  "M_str_ishex s = M_str_ispredicate_max_inline s (SIZE_MOD - 1) M_chr_ishex"

definition M_str_isprint :: "bytes \<Rightarrow> bool" where
  "M_str_isprint s = M_str_ispredicate_max_inline s (SIZE_MOD - 1) M_chr_isprint"

definition M_str_isstr :: "bytes \<Rightarrow> nat \<Rightarrow> bool option" where
  "M_str_isstr s len =
     (if len = 0 then Some False
      else do {
        c \<leftarrow> arr_get s (len - 1);
        Some (if c \<noteq> 0 then False
              else if M_str_len s \<noteq> len - 1 then False
              else if len = 1 then True
              else M_str_isprint s)
      })"

definition M_hex_or_base64_to_bin :: "bytes \<Rightarrow> nat \<Rightarrow> bytes \<Rightarrow> nat \<Rightarrow> (nat \<times> bytes) option" where
  "M_hex_or_base64_to_bin out outlen inp inlen =
     (if chr0 inp = 0 then Some (0, out)
      else if inlen mod 2 = 0 \<and> M_str_ishex inp then M_hex_decode inp inlen out outlen
      else M_base64_decode out outlen inp inlen)"

datatype M_bincodec_codec =
  M_BINCODEC_BASE64 | M_BINCODEC_HEX | M_BINCODEC_BASE64ORHEX | M_BINCODEC_BASE32

definition M_bincodec_decode_size :: "nat \<Rightarrow> M_bincodec_codec \<Rightarrow> nat" where
  "M_bincodec_decode_size inLen codec =
     (case codec of
        M_BINCODEC_BASE64 \<Rightarrow> M_base64_decode_size inLen
      | M_BINCODEC_BASE64ORHEX \<Rightarrow> M_base64_decode_size inLen
      | M_BINCODEC_BASE32 \<Rightarrow> M_base32_decode_size inLen
      | M_BINCODEC_HEX \<Rightarrow> inLen div 2)"

definition M_bincodec_encode_size :: "nat \<Rightarrow> nat \<Rightarrow> M_bincodec_codec \<Rightarrow> nat" where
  "M_bincodec_encode_size inLen wrap codec =
     (case codec of
        M_BINCODEC_BASE64 \<Rightarrow> M_base64_encode_size inLen wrap
      | M_BINCODEC_HEX \<Rightarrow> M_hex_target_size inLen wrap
      | M_BINCODEC_BASE64ORHEX \<Rightarrow> M_hex_target_size inLen wrap
      | M_BINCODEC_BASE32 \<Rightarrow> M_base32_encode_size inLen wrap)"

definition M_bincodec_encode ::
  "bytes \<Rightarrow> nat \<Rightarrow> bytes \<Rightarrow> nat \<Rightarrow> nat \<Rightarrow> M_bincodec_codec \<Rightarrow> (nat \<times> bytes) option" where
  "M_bincodec_encode out outLen inp inLen wrap codec =
     (case codec of
        M_BINCODEC_BASE64 \<Rightarrow> M_base64_encode out outLen inp inLen wrap
      | M_BINCODEC_BASE32 \<Rightarrow> M_base32_encode out outLen inp inLen wrap
      | M_BINCODEC_HEX \<Rightarrow> M_hex_encode inp inLen out outLen wrap
      | M_BINCODEC_BASE64ORHEX \<Rightarrow> Some (0, out))"

definition M_bincodec_decode ::
  "bytes \<Rightarrow> nat \<Rightarrow> bytes \<Rightarrow> nat \<Rightarrow> M_bincodec_codec \<Rightarrow> (nat \<times> bytes) option" where
  "M_bincodec_decode out outLen inp inLen codec =
     (case codec of
        M_BINCODEC_BASE64 \<Rightarrow> M_base64_decode out outLen inp inLen
      | M_BINCODEC_BASE32 \<Rightarrow> M_base32_decode out outLen inp inLen
      | M_BINCODEC_HEX \<Rightarrow> M_hex_decode inp inLen out outLen
      | M_BINCODEC_BASE64ORHEX \<Rightarrow> M_hex_or_base64_to_bin out outLen inp inLen)"

text \<open>
  The allocating versions: a fresh block has unspecified contents, here the byte \<open>f\<close>. The inner
  option is the null pointer.
\<close>

definition M_bincodec_encode_alloc ::
  "M_uint8 \<Rightarrow> bytes \<Rightarrow> nat \<Rightarrow> nat \<Rightarrow> M_bincodec_codec \<Rightarrow> bytes option option" where
  "M_bincodec_encode_alloc f inp inLen wrap codec =
     (if inLen = 0 then Some None
      else let pLen = M_bincodec_encode_size inLen wrap codec in
        if pLen = 0 then Some None
        else do {
          let pLen = size_add pLen 1;
          (len, p) \<leftarrow> M_bincodec_encode (replicate pLen f) pLen inp inLen wrap codec;
          if len > 0 then do { p \<leftarrow> arr_set p len 0; Some (Some p) } else Some None
        })"

text \<open>The result has the block and its length.\<close>

definition M_bincodec_decode_alloc ::
  "M_uint8 \<Rightarrow> bytes \<Rightarrow> nat \<Rightarrow> M_bincodec_codec \<Rightarrow> (bytes \<times> nat) option option" where
  "M_bincodec_decode_alloc f inp inLen codec =
     (if inLen = 0 then Some None
      else let pLen = M_bincodec_decode_size inLen codec in
        if pLen = 0 then Some None
        else do {
          (len, p) \<leftarrow> M_bincodec_decode (replicate (size_add pLen 1) f) pLen inp inLen codec;
          if len > 0 then do { p \<leftarrow> arr_set p len 0; Some (Some (p, len)) } else Some None
        })"

definition M_bincodec_decode_str_alloc :: "M_uint8 \<Rightarrow> bytes \<Rightarrow> M_bincodec_codec \<Rightarrow> bytes option option" where
  "M_bincodec_decode_str_alloc f inp codec = do {
     r \<leftarrow> M_bincodec_decode_alloc f inp (M_str_len inp) codec;
     case r of None \<Rightarrow> Some None
     | Some (out, outLen) \<Rightarrow> do {
         b \<leftarrow> M_str_isstr out (outLen + 1);
         Some (if \<not> b then None else Some out)
       }
   }"

definition M_bincodec_convert_alloc ::
  "M_uint8 \<Rightarrow> bytes \<Rightarrow> nat \<Rightarrow> nat \<Rightarrow> M_bincodec_codec \<Rightarrow> M_bincodec_codec \<Rightarrow> bytes option option" where
  "M_bincodec_convert_alloc f inp inLen wrap inCodec outCodec = do {
     r \<leftarrow> M_bincodec_decode_alloc f inp inLen inCodec;
     case r of None \<Rightarrow> Some None
     | Some (dec, decLen) \<Rightarrow> M_bincodec_encode_alloc f dec decLen wrap outCodec
   }"

definition M_bincodec_convert ::
  "M_uint8 \<Rightarrow> bytes \<Rightarrow> nat \<Rightarrow> nat \<Rightarrow> M_bincodec_codec \<Rightarrow> bytes \<Rightarrow> nat \<Rightarrow> M_bincodec_codec \<Rightarrow> (nat \<times> bytes) option" where
  "M_bincodec_convert f out outLen wrap outCodec inp inLen inCodec = do {
     r \<leftarrow> M_bincodec_decode_alloc f inp inLen inCodec;
     case r of None \<Rightarrow> Some (0, out)
     | Some (dec, decLen) \<Rightarrow> M_bincodec_encode out outLen dec decLen wrap outCodec
   }"

end
