(* ===== verification/M_Bincodec_Spec.thy ===== *)
theory M_Bincodec_Spec
  imports M_Bincodec
begin

text \<open>
  Round trips of the binary encodings. The encoders write a text one character at a time, with line
  breaks in between; the decoders read it back, skipping white space.
\<close>

section \<open>Writing with line breaks\<close>

text \<open>The text without its white space.\<close>

definition plain :: "bytes \<Rightarrow> bytes" where
  "plain t = filter (\<lambda>c. \<not> M_chr_isspace c) t"

lemma plain_simps [simp]: "plain [] = []" "plain (xs @ ys) = plain xs @ plain ys"
  "plain (c # cs) = (if M_chr_isspace c then plain cs else c # plain cs)"
  by (simp_all add: plain_def)

lemma isspace_newline [simp]: "M_chr_isspace 0x0a"
  by (simp add: chr_defs)

text \<open>
  What the three encoders share: a step that writes one character and perhaps a line break.
  \<open>at m pos len\<close> describes the position after \<open>m\<close> characters, and \<open>glyph m c\<close> is what the step
  writes for the character \<open>c\<close> there.
\<close>

locale line_writer =
  fixes put :: "bytes \<Rightarrow> nat \<Rightarrow> nat \<Rightarrow> M_uint8 \<Rightarrow> (bytes \<times> nat \<times> nat) option"
    and at :: "nat \<Rightarrow> nat \<Rightarrow> nat \<Rightarrow> bool" and glyph :: "nat \<Rightarrow> M_uint8 \<Rightarrow> bytes"
  assumes put_ok: "at m pos len \<Longrightarrow> pos + length (glyph m c) \<le> length out \<Longrightarrow>
      \<exists>out' len'. put out pos len c = Some (out', pos + length (glyph m c), len') \<and> length out' = length out \<and>
        take (pos + length (glyph m c)) out' = take pos out @ glyph m c \<and> at (Suc m) (pos + length (glyph m c)) len'"
    and plain_glyph: "plain (glyph m c) = plain [c]"
begin

primrec put_all :: "bytes \<Rightarrow> nat \<Rightarrow> nat \<Rightarrow> bytes \<Rightarrow> (bytes \<times> nat \<times> nat) option" where
  "put_all out pos len [] = Some (out, pos, len)"
| "put_all out pos len (c # cs) = do { (out, pos, len) \<leftarrow> put out pos len c; put_all out pos len cs }"

primrec glyphs :: "nat \<Rightarrow> bytes \<Rightarrow> bytes" where
  "glyphs m [] = []"
| "glyphs m (c # cs) = glyph m c @ glyphs (Suc m) cs"

lemma glyphs_append: "glyphs m (xs @ ys) = glyphs m xs @ glyphs (m + length xs) ys"
  by (induction xs arbitrary: m) auto

lemma plain_glyphs: "plain (glyphs m cs) = plain cs"
  by (induction cs arbitrary: m) (simp_all add: plain_glyph del: plain_simps(3), simp)

lemma put_all_append:
  "put_all out pos len (xs @ ys) = do { (out, pos, len) \<leftarrow> put_all out pos len xs; put_all out pos len ys }"
  by (induction xs arbitrary: out pos len) (auto split: Option.bind_splits)

lemma put_all_ok:
  "at m pos len \<Longrightarrow> pos + length (glyphs m cs) \<le> length out \<Longrightarrow>
    \<exists>out' len'. put_all out pos len cs = Some (out', pos + length (glyphs m cs), len') \<and> length out' = length out \<and>
      take (pos + length (glyphs m cs)) out' = take pos out @ glyphs m cs \<and>
      at (m + length cs) (pos + length (glyphs m cs)) len'"
proof (induction cs arbitrary: m out pos len)
  case (Cons c cs)
  then obtain out1 len1 where 1: "put out pos len c = Some (out1, pos + length (glyph m c), len1)"
    "length out1 = length out" "take (pos + length (glyph m c)) out1 = take pos out @ glyph m c"
    "at (Suc m) (pos + length (glyph m c)) len1"
    using put_ok [OF Cons.prems(1), of c out] by auto
  from Cons.IH [OF 1(4), of out1] Cons.prems(2) 1(2)
  obtain out' len' where "put_all out1 (pos + length (glyph m c)) len1 cs =
      Some (out', pos + length (glyph m c) + length (glyphs (Suc m) cs), len')" "length out' = length out"
    "take (pos + length (glyph m c) + length (glyphs (Suc m) cs)) out' = take (pos + length (glyph m c)) out1 @ glyphs (Suc m) cs"
    "at (Suc m + length cs) (pos + length (glyph m c) + length (glyphs (Suc m) cs)) len'"
    by auto
  then show ?case using 1 by (auto simp: add.assoc)
qed simp

end

lemma arr_set_take: "pos < length out \<Longrightarrow> \<exists>out'. arr_set out pos c = Some out' \<and> length out' = length out \<and>
    take (Suc pos) out' = take pos out @ [c]"
  by (simp add: arr_set_def take_Suc_conv_app_nth)

lemma arr_set_take2:
  assumes "Suc pos < length out"
  shows "\<exists>out1 out'. arr_set out pos c = Some out1 \<and> arr_set out1 (Suc pos) d = Some out' \<and> length out' = length out \<and>
    take (Suc (Suc pos)) out' = take pos out @ [c, d]"
  using assms by (simp add: arr_set_def take_Suc_conv_app_nth)

text \<open>A line break after every \<open>w\<close> characters.\<close>

definition break_after :: "nat \<Rightarrow> nat \<Rightarrow> M_uint8 \<Rightarrow> bytes" where
  "break_after w m c = (if w > 0 \<and> Suc m mod w = 0 then [c, 0x0a] else [c])"

lemma plain_break_after: "plain (break_after w m c) = plain [c]"
  by (simp add: break_after_def)

interpretation hex: line_writer "\<lambda>out pos len c. add_byte out pos len w c"
  "\<lambda>m pos len. pos = m + m div w \<and> (w > 0 \<longrightarrow> len = m mod w)" "break_after w"
proof (unfold_locales, goal_cases)
  case (1 m pos len c out)
  have d: "Suc m div w = (if Suc m mod w = 0 then Suc (m div w) else m div w)" if "w > 0"
    using div_Suc [of m w] by simp
  have e: "Suc m mod w = 0 \<longleftrightarrow> Suc (m mod w) \<ge> w" if "w > 0"
    using that mod_Suc [of m w] mod_less_divisor [OF that, of m] by (auto split: if_splits)
  show ?case
  proof (cases "w > 0 \<and> Suc m mod w = 0")
    case True
    then show ?thesis using 1 d e arr_set_take2 [of pos out c "0x0a"]
      by (auto simp: add_byte_def break_after_def)
  next
    case False
    then show ?thesis using 1 d e arr_set_take [of pos out c] mod_Suc [of m w]
      by (auto simp: add_byte_def break_after_def)
  qed
next
  case (2 m c)
  show ?case by (rule plain_break_after)
qed

section \<open>Reading\<close>

text \<open>What is left of the first \<open>n\<close> bytes at position \<open>i\<close>.\<close>

definition rest :: "bytes \<Rightarrow> nat \<Rightarrow> nat \<Rightarrow> bytes" where
  "rest inp n i = drop i (take n inp)"

lemma rest_Cons: "n \<le> length inp \<Longrightarrow> i < n \<Longrightarrow> rest inp n i = inp ! i # rest inp n (Suc i)"
  by (simp add: rest_def Cons_nth_drop_Suc [symmetric, of i])

lemma rest_Nil: "n \<le> length inp \<Longrightarrow> n \<le> i \<Longrightarrow> rest inp n i = []"
  by (simp add: rest_def)

lemma skip_space_ok:
  "n \<le> length inp \<Longrightarrow> i \<le> n \<Longrightarrow> \<exists>j. skip_space inp n i = Some j \<and> i \<le> j \<and> j \<le> n \<and>
    plain (rest inp n j) = plain (rest inp n i) \<and> (j < n \<longrightarrow> \<not> M_chr_isspace (inp ! j))"
proof (induction "n - i" arbitrary: i)
  case 0
  then show ?case by (subst skip_space.simps) simp
next
  case (Suc k)
  then have i: "i < n" and k: "k = n - Suc i" by simp_all
  show ?case
  proof (cases "M_chr_isspace (inp ! i)")
    case True
    then obtain j where "skip_space inp n (Suc i) = Some j" "Suc i \<le> j" "j \<le> n"
      "plain (rest inp n j) = plain (rest inp n (Suc i))" "j < n \<longrightarrow> \<not> M_chr_isspace (inp ! j)"
      using Suc.hyps(1) [of "Suc i"] k Suc.prems i by auto
    then show ?thesis using True i Suc.prems rest_Cons [OF Suc.prems(1) i]
      by (subst skip_space.simps) (auto simp: arr_get_def)
  next
    case False
    then show ?thesis using i Suc.prems by (subst skip_space.simps) (auto simp: arr_get_def)
  qed
qed

text \<open>The next character that is not white space.\<close>

lemma skip_space_next:
  assumes "n \<le> length inp" "i \<le> n" "plain (rest inp n i) = c # cs"
  shows "\<exists>j. skip_space inp n i = Some j \<and> i \<le> j \<and> j < n \<and> inp ! j = c \<and> plain (rest inp n (Suc j)) = cs"
proof -
  obtain j where j: "skip_space inp n i = Some j" "i \<le> j" "j \<le> n" "plain (rest inp n j) = plain (rest inp n i)"
    "j < n \<longrightarrow> \<not> M_chr_isspace (inp ! j)" using skip_space_ok [OF assms(1,2)] by blast
  then have jn: "j < n" using assms rest_Nil [OF assms(1), of j] by (cases "j < n") auto
  then show ?thesis using j assms rest_Cons [OF assms(1) jn] by auto
qed

lemma skip_space_end:
  assumes "n \<le> length inp" "i \<le> n" "plain (rest inp n i) = []"
  shows "skip_space inp n i = Some n"
proof -
  obtain j where j: "skip_space inp n i = Some j" "j \<le> n" "plain (rest inp n j) = plain (rest inp n i)"
    "j < n \<longrightarrow> \<not> M_chr_isspace (inp ! j)" using skip_space_ok [OF assms(1,2)] by blast
  then show ?thesis using rest_Cons [OF assms(1), of j] assms(3) by (cases "j < n") auto
qed

section \<open>Hexadecimal\<close>

definition hex2 :: "M_uint8 \<Rightarrow> bytes" where
  "hex2 b = [hex_digits ! unat (drop_bit 4 (0xf0 AND b)), hex_digits ! unat (drop_bit 0 (0x0f AND b))]"

lemma nibble:
  "k < 16 \<Longrightarrow> k < length hex_digits \<and> hex_isvalidchar (hex_digits ! k) \<and> \<not> M_chr_isspace (hex_digits ! k) \<and>
    hex2dec (hex_digits ! k) = of_nat k"
proof -
  have "list_all (\<lambda>k. k < length hex_digits \<and> hex_isvalidchar (hex_digits ! k) \<and> \<not> M_chr_isspace (hex_digits ! k) \<and>
    hex2dec (hex_digits ! k) = of_nat k) [0..<16]" by code_simp
  then show "k < 16 \<Longrightarrow> ?thesis" by (simp add: list_all_iff)
qed

lemma nibble_mask: "(0x0f :: M_uint8) = mask 4" "(0xf0 :: M_uint8) = push_bit 4 (mask 4)"
  by (simp_all add: mask_eq_exp_minus_1)

lemma unat_and_15: "unat (0x0f AND b :: M_uint8) < 16"
  unfolding nibble_mask(1) and.commute [of "mask 4"] take_bit_eq_mask [symmetric]
  using take_bit_nat_less_exp [of 4 "unat b"] by (simp only: unsigned_take_bit_eq) simp

lemma high_nibble: "drop_bit 4 (0xf0 AND b) = 0x0f AND drop_bit 4 (b :: M_uint8)"
  unfolding nibble_mask by (rule bit_word_eqI) (auto simp: bit_simps)

lemma join_nibbles: "push_bit 4 (0x0f AND drop_bit 4 b) OR (0x0f AND b) = (b :: M_uint8)"
  unfolding nibble_mask by (rule bit_word_eqI) (auto simp: bit_simps)

lemma hex2_cases:
  obtains c d where "hex2 b = [c, d]" "arr_get hex_digits (unat (drop_bit 4 (0xf0 AND b))) = Some c"
    "arr_get hex_digits (unat (drop_bit 0 (0x0f AND b))) = Some d" "hex_isvalidchar c" "hex_isvalidchar d"
    "\<not> M_chr_isspace c" "\<not> M_chr_isspace d" "push_bit 4 (hex2dec c) OR hex2dec d = b"
  using nibble [OF unat_and_15 [of "drop_bit 4 b"]] nibble [OF unat_and_15 [of b]] join_nibbles [of b]
  unfolding high_nibble hex2_def by (auto simp: arr_get_def high_nibble)

lemma length_break_after: "m div w + length (hex.glyphs w m cs) = length cs + (m + length cs) div w"
proof (induction cs arbitrary: m)
  case (Cons c cs)
  have "m div w + length (break_after w m c) = 1 + Suc m div w"
    by (cases "w = 0") (auto simp: break_after_def div_Suc)
  then show ?case using Cons.IH [of "Suc m"] by simp
qed simp

lemma length_break_after_0: "length (hex.glyphs w 0 cs) = length cs + length cs div w"
  using length_break_after [of 0 w cs] by simp

text \<open>A text that has a line break after every \<open>w\<close> characters, but not at the end.\<close>

definition line_text :: "nat \<Rightarrow> bytes \<Rightarrow> bytes" where
  "line_text w ds = (if ds = [] then [] else hex.glyphs w 0 (butlast ds) @ [last ds])"

lemma plain_id: "\<forall>c\<in>set ds. \<not> M_chr_isspace c \<Longrightarrow> plain ds = ds"
  by (simp add: plain_def)

lemma plain_line_text:
  assumes "\<forall>c\<in>set ds. \<not> M_chr_isspace c"
  shows "plain (line_text w ds) = ds"
proof (cases "ds = []")
  case False
  have "plain (hex.glyphs w 0 (butlast ds) @ [last ds]) = plain (butlast ds @ [last ds])"
    by (simp only: plain_simps(2) hex.plain_glyphs)
  then show ?thesis using False plain_id [OF assms] by (simp add: line_text_def)
qed (simp add: line_text_def)

lemma length_line_text: "ds \<noteq> [] \<Longrightarrow> length (line_text w ds) = length ds + (length ds - 1) div w"
  by (cases ds) (simp_all add: line_text_def length_break_after_0)

definition hex_text :: "nat \<Rightarrow> bytes \<Rightarrow> bytes" where
  "hex_text w bs = line_text w (concat (map hex2 bs))"

lemma length_hex2s [simp]: "length (concat (map hex2 bs)) = 2 * length bs"
  by (induction bs) (simp_all add: hex2_def)

lemma hex2s_nospace: "\<forall>c\<in>set (concat (map hex2 bs)). \<not> M_chr_isspace c"
proof (induction bs)
  case (Cons b bs)
  then show ?case by (cases b rule: hex2_cases) simp
qed simp

lemma plain_hex_text: "plain (hex_text w bs) = concat (map hex2 bs)"
  unfolding hex_text_def by (rule plain_line_text [OF hex2s_nospace])

lemma length_hex_text: "bs \<noteq> [] \<Longrightarrow> length (hex_text w bs) = 2 * length bs + (2 * length bs - 1) div w"
  using length_line_text [of "concat (map hex2 bs)" w] length_hex2s [of bs]
  unfolding hex_text_def by (metis length_0_conv mult_is_0 zero_neq_numeral)

text \<open>The loop writes the two characters of every byte except the last one through the writer.\<close>

lemma hex_encode_loop_ok:
  assumes "n \<le> length inp"
  shows "i < n \<Longrightarrow> hex_encode_loop inp n w i out pos len = do {
      (out, pos, len) \<leftarrow> hex.put_all w out pos len (butlast (concat (map hex2 (drop i (take n inp)))));
      add_byte out pos len 0 (last (concat (map hex2 (drop i (take n inp))))) }"
proof (induction "n - i" arbitrary: i out pos len)
  case (Suc k)
  have i: "i < length inp" "drop i (take n inp) = inp ! i # drop (Suc i) (take n inp)"
    using assms Suc.prems rest_Cons [OF assms, of i] by (simp_all add: rest_def)
  obtain c d where cd: "hex2 (inp ! i) = [c, d]" "arr_get hex_digits (unat (drop_bit 4 (0xf0 AND inp ! i))) = Some c"
    "arr_get hex_digits (unat (drop_bit 0 (0x0f AND inp ! i))) = Some d" by (rule hex2_cases)
  show ?case
  proof (cases "Suc i < n")
    case True
    define ds where "ds = concat (map hex2 (drop (Suc i) (take n inp)))"
    have "length ds = 2 * (n - Suc i)" using assms by (simp add: ds_def)
    then have "ds \<noteq> []" using True by auto
    then have b: "butlast (concat (map hex2 (drop i (take n inp)))) = c # d # butlast ds"
      "last (concat (map hex2 (drop i (take n inp)))) = last ds"
      unfolding i(2) by (simp_all add: cd(1) ds_def [symmetric])
    have ih: "hex_encode_loop inp n w (Suc i) out pos len = do {
        (out, pos, len) \<leftarrow> hex.put_all w out pos len (butlast ds); add_byte out pos len 0 (last ds) }" for out pos len
      unfolding ds_def using Suc.hyps(1) [of "Suc i"] Suc.hyps(2) True by simp
    show ?thesis unfolding b using True i(1) cd(2,3)
      by (subst hex_encode_loop.simps) (auto simp: ih arr_get_def split: Option.bind_splits)
  next
    case False
    then have n: "n = Suc i" using Suc.prems by simp
    then have b: "concat (map hex2 (drop i (take n inp))) = [c, d]" unfolding i(2) by (simp add: cd(1))
    have ih: "hex_encode_loop inp (Suc i) w (Suc i) out pos len = Some (out, pos, len)" for out pos len
      by (subst hex_encode_loop.simps) simp
    show ?thesis unfolding b using n i(1) cd(2,3)
      by (subst hex_encode_loop.simps) (auto simp: ih arr_get_def split: Option.bind_splits)
  qed
qed simp

lemma hex_encode_ok:
  assumes "0 < n" "n \<le> length inp" "2 * n + 2 * n div w + 1 < SIZE_MOD" "M_hex_target_size n w \<le> outLen" "outLen \<le> length out"
  shows "\<exists>out'. M_hex_encode inp n out outLen w = Some (length (hex_text w (take n inp)), out') \<and> length out' = length out \<and>
    take (length (hex_text w (take n inp))) out' = hex_text w (take n inp)"
proof -
  define ds where "ds = concat (map hex2 (take n inp))"
  have l: "length ds = 2 * n" using assms(2) by (simp add: ds_def)
  then have ne: "ds \<noteq> []" using assms(1) by auto
  have t: "hex_text w (take n inp) = hex.glyphs w 0 (butlast ds) @ [last ds]"
    using ne by (simp add: hex_text_def line_text_def ds_def [symmetric])
  have lt: "length (hex.glyphs w 0 (butlast ds)) = 2 * n - 1 + (2 * n - 1) div w"
    using l by (simp add: length_break_after_0)
  have "(2 * n - 1) div w \<le> 2 * n div w" by (simp add: div_le_mono)
  moreover have "M_hex_target_size n w = (if w = 0 then 2 * n else 2 * n + (2 * n div w + 1))"
    using assms(1,3) by (simp add: M_hex_target_size_def mult.commute)
  ultimately have room: "Suc (length (hex.glyphs w 0 (butlast ds))) \<le> length out"
    using assms(1,4,5) lt by (cases "w = 0") auto
  then obtain out1 len1 where o1: "hex.put_all w out 0 0 (butlast ds) = Some (out1, length (hex.glyphs w 0 (butlast ds)), len1)"
    "length out1 = length out" "take (length (hex.glyphs w 0 (butlast ds))) out1 = hex.glyphs w 0 (butlast ds)"
    using hex.put_all_ok [where m = 0 and pos = 0 and len = 0 and w = w and cs = "butlast ds" and out = out] by auto
  obtain out2 where o2: "arr_set out1 (length (hex.glyphs w 0 (butlast ds))) (last ds) = Some out2" "length out2 = length out1"
    "take (Suc (length (hex.glyphs w 0 (butlast ds)))) out2 = hex.glyphs w 0 (butlast ds) @ [last ds]"
    using arr_set_take [of "length (hex.glyphs w 0 (butlast ds))" out1 "last ds"] room o1(2,3) by auto
  have loop: "hex_encode_loop inp n w 0 out 0 0 = Some (out2, Suc (length (hex.glyphs w 0 (butlast ds))), Suc len1)"
    using hex_encode_loop_ok [OF assms(2,1), of w out 0 0] o1(1) o2(1)
    by (simp add: ds_def [symmetric] add_byte_def Let_def)
  have z: "take p (xs[p := c]) = take p xs" for p :: nat and xs :: bytes and c by simp
  show ?thesis unfolding t using loop o2(2,3) o1(2) assms(1,4,5)
    by (auto simp: M_hex_encode_def arr_set_def z)
qed

lemma get_byte_ok:
  assumes "n \<le> length inp" "i \<le> n"
  shows "plain (rest inp n i) = [] \<Longrightarrow> get_byte inp n i fail = Some (None, n, fail)"
    "plain (rest inp n i) = c # cs \<Longrightarrow> hex_isvalidchar c \<Longrightarrow>
      \<exists>j\<le>n. get_byte inp n i fail = Some (Some c, j, fail) \<and> plain (rest inp n j) = cs"
proof -
  show "plain (rest inp n i) = [] \<Longrightarrow> get_byte inp n i fail = Some (None, n, fail)"
    using skip_space_end [OF assms] by (simp add: get_byte_def)
  assume c: "plain (rest inp n i) = c # cs" "hex_isvalidchar c"
  obtain j where j: "skip_space inp n i = Some j" "j < n" "inp ! j = c" "plain (rest inp n (Suc j)) = cs"
    using skip_space_next [OF assms c(1)] by blast
  then show "\<exists>j\<le>n. get_byte inp n i fail = Some (Some c, j, fail) \<and> plain (rest inp n j) = cs"
    using c(2) assms(1) by (intro exI [of _ "Suc j"]) (simp add: get_byte_def arr_get_def)
qed

lemma hex_decode_loop_ok:
  assumes "n \<le> length inp"
  shows "i \<le> n \<Longrightarrow> plain (rest inp n i) = concat (map hex2 bs) \<Longrightarrow> pos + length bs \<le> length out \<Longrightarrow>
    hex_decode_loop inp n i out pos fail = Some (take pos out @ bs @ drop (pos + length bs) out, pos + length bs, fail)"
proof (induction bs arbitrary: i out pos)
  case Nil
  then show ?case using get_byte_ok(1) [OF assms, of i fail] by (subst hex_decode_loop.simps) simp
next
  case (Cons b bs)
  obtain c d where cd: "hex2 b = [c, d]" "hex_isvalidchar c" "hex_isvalidchar d" "push_bit 4 (hex2dec c) OR hex2dec d = b"
    by (rule hex2_cases)
  then have p: "plain (rest inp n i) = c # d # concat (map hex2 bs)" using Cons.prems(2) by simp
  obtain j where j: "j \<le> n" "get_byte inp n i fail = Some (Some c, j, fail)" "plain (rest inp n j) = d # concat (map hex2 bs)"
    using get_byte_ok(2) [OF assms Cons.prems(1) p cd(2)] by blast
  obtain k where k: "k \<le> n" "get_byte inp n j fail = Some (Some d, k, fail)" "plain (rest inp n k) = concat (map hex2 bs)"
    using get_byte_ok(2) [OF assms j(1,3) cd(3)] by blast
  have "pos < length out" using Cons.prems(3) by simp
  then have s: "arr_set out pos b = Some (out[pos := b])" "take (Suc pos) (out[pos := b]) = take pos out @ [b]"
    by (simp_all add: arr_set_def take_Suc_conv_app_nth)
  have "hex_decode_loop inp n i out pos fail = hex_decode_loop inp n k (out[pos := b]) (Suc pos) fail"
    using j(2) k(2) s(1) cd(4) by (subst hex_decode_loop.simps) simp
  then show ?case using Cons.IH [OF k(1,3), of "Suc pos" "out[pos := b]"] Cons.prems(3) s(2) by simp
qed

lemma hex_decode_ok:
  assumes "n \<le> length inp" "even n" "n \<noteq> 0" "plain (take n inp) = concat (map hex2 bs)" "n div 2 \<le> outLen" "outLen \<le> length out"
  shows "M_hex_decode inp n out outLen = Some (length bs, bs @ drop (length bs) out)"
proof -
  have "length (plain (take n inp)) \<le> n" unfolding plain_def by (rule order_trans [OF length_filter_le]) simp
  then have "2 * length bs \<le> n" using assms(4) by simp
  then have "length bs \<le> length out" using assms(5,6) by simp
  then have "hex_decode_loop inp n 0 out 0 False = Some (bs @ drop (length bs) out, length bs, False)"
    using hex_decode_loop_ok [OF assms(1), of 0 bs 0 out False] assms(4) by (simp add: rest_def)
  then show ?thesis using assms(2,3,5) by (simp add: M_hex_decode_def even_iff_mod_2_eq_zero)
qed

text \<open>
  C30. Encoding bytes as hexadecimal digits, with a line break after every \<open>wrap\<close> characters except
  the last, stays inside an output of the size that the encoder asks for, and decoding the text gives
  the bytes back, exactly when the number of characters including the line breaks is even. When it is
  odd the decoder, which counts the line breaks, refuses the text.
\<close>

theorem M_hex_roundtrip:
  assumes "0 < n" "n \<le> length inp" "2 * n + 2 * n div wrap + 1 < SIZE_MOD"
    and "M_hex_target_size n wrap \<le> outLen" "outLen \<le> length out" "outLen div 2 \<le> decLen" "decLen \<le> length dec"
  shows "\<exists>r out'. M_hex_encode inp n out outLen wrap = Some (r, out') \<and> r = 2 * n + (2 * n - 1) div wrap \<and> r \<le> outLen \<and>
    M_hex_decode out' r dec decLen = Some (if even r then (n, take n inp @ drop n dec) else (0, dec))"
proof -
  let ?t = "hex_text wrap (take n inp)"
  obtain out' where e: "M_hex_encode inp n out outLen wrap = Some (length ?t, out')" "length out' = length out"
    "take (length ?t) out' = ?t" using hex_encode_ok [OF assms(1-5)] by blast
  have r: "length ?t = 2 * n + (2 * n - 1) div wrap"
    using assms(1,2) length_hex_text [of "take n inp" wrap] by (cases inp) auto
  have "(2 * n - 1) div wrap \<le> 2 * n div wrap" by (simp add: div_le_mono)
  then have le: "length ?t \<le> outLen"
    using assms(1,3,4) unfolding r by (cases "wrap = 0") (simp_all add: M_hex_target_size_def mult.commute)
  have p: "plain (take (length ?t) out') = concat (map hex2 (take n inp))" unfolding e(3) by (rule plain_hex_text)
  have "M_hex_decode out' (length ?t) dec decLen = Some (if even (length ?t) then (n, take n inp @ drop n dec) else (0, dec))"
  proof (cases "even (length ?t)")
    case True
    have "length ?t div 2 \<le> decLen" using le assms(6) by (meson div_le_mono le_trans)
    then show ?thesis using hex_decode_ok [OF _ True _ p _ assms(7)] le assms(1,2,5) e(2) r True by simp
  next
    case False
    then have "length ?t mod 2 \<noteq> 0" by presburger
    then show ?thesis using False by (simp add: M_hex_decode_def)
  qed
  then show ?thesis using e(1) le unfolding r by blast
qed

theorem M_hex_roundtrip_witness:
  "\<exists>out' out''. M_hex_encode [0xab, 0xcd, 0xef] 3 (replicate 9 0) 9 4 = Some (7, out') \<and>
    M_hex_decode out' 7 [1, 2, 3, 4] 4 = Some (0, [1, 2, 3, 4]) \<and>
    M_hex_encode [0xab, 0xcd, 0xef] 3 (replicate 9 0) 9 0 = Some (6, out'') \<and>
    M_hex_decode out'' 6 [1, 2, 3, 4] 4 = Some (3, [0xab, 0xcd, 0xef, 4])"
  using M_hex_roundtrip [of 3 "[0xab, 0xcd, 0xef]" 4 9 "replicate 9 0" 4 "[1, 2, 3, 4]"]
    M_hex_roundtrip [of 3 "[0xab, 0xcd, 0xef]" 0 9 "replicate 9 0" 4 "[1, 2, 3, 4]"]
  by (auto simp: SIZE_MOD_def M_hex_target_size_def)

end
