(* ===== verification/M_Base64_Spec.thy ===== *)
theory M_Base64_Spec
  imports M_Bincodec_Spec
begin

text \<open>
  The round trip of base 64. The text that the encoder writes is a line-broken copy of the reference
  encoding \<open>b64_chars\<close>; the decoder gives the bytes back if a line break does not separate the two
  padding characters.
\<close>

section \<open>The reference encoding\<close>

definition b64_word :: "M_uint8 \<Rightarrow> M_uint8 \<Rightarrow> M_uint8 \<Rightarrow> M_uint32" where
  "b64_word a b c = push_bit 16 (ucast a) OR push_bit 8 (ucast b) OR ucast c"

definition b64_chr :: "nat \<Rightarrow> M_uint32 \<Rightarrow> M_uint8" where
  "b64_chr k tmp = enc_table ! unat (drop_bit k tmp AND 63)"

fun b64_chars :: "bytes \<Rightarrow> bytes" where
  "b64_chars (a # b # c # bs) =
     [b64_chr 18 (b64_word a b c), b64_chr 12 (b64_word a b c), b64_chr 6 (b64_word a b c), b64_chr 0 (b64_word a b c)]
     @ b64_chars bs"
| "b64_chars [a, b] = [b64_chr 18 (b64_word a b 0), b64_chr 12 (b64_word a b 0), b64_chr 6 (b64_word a b 0), 0x3d]"
| "b64_chars [a] = [b64_chr 18 (b64_word a 0 0), b64_chr 12 (b64_word a 0 0), 0x3d, 0x3d]"
| "b64_chars [] = []"

lemma mask_63: "(63 :: M_uint32) = mask 6" and mask_255: "(0xFF :: M_uint32) = mask 8"
  by (simp_all add: mask_eq_exp_minus_1)

lemma unat_and_63: "unat (x AND 63 :: M_uint32) < 64"
  unfolding mask_63 take_bit_eq_mask [symmetric]
  using take_bit_nat_less_exp [of 6 "unat x"] by (simp only: unsigned_take_bit_eq) simp

text \<open>The decoder's view of a character of the alphabet.\<close>

definition b64_good :: "nat \<Rightarrow> bool" where
  "b64_good k \<longleftrightarrow> (let c = enc_table ! k in
     b64_isvalidchar c \<and> \<not> M_chr_isspace c \<and> c \<noteq> 0x3d \<and> \<not> c < 43 \<and> unat c - 43 < length dec_table \<and>
     dec_table ! (unat c - 43) = int k)"

lemma enc_table_eq: "enc_table =
  [65, 66, 67, 68, 69, 70, 71, 72, 73, 74, 75, 76, 77, 78, 79, 80, 81, 82, 83, 84, 85, 86, 87, 88, 89, 90,
   97, 98, 99, 100, 101, 102, 103, 104, 105, 106, 107, 108, 109, 110, 111, 112, 113, 114, 115, 116, 117, 118,
   119, 120, 121, 122, 48, 49, 50, 51, 52, 53, 54, 55, 56, 57, 43, 47]"
  by (simp add: enc_table_def)

lemma enc_table_good: "k < 64 \<Longrightarrow> b64_good k"
proof -
  have "list_all b64_good [0..<64]" unfolding b64_good_def enc_table_eq by code_simp
  then show "k < 64 \<Longrightarrow> ?thesis" by (simp add: list_all_iff)
qed

section \<open>Bits of a group\<close>

lemma b64_join: "push_bit 18 (drop_bit 18 x AND 63) OR push_bit 12 (drop_bit 12 x AND 63) OR
    push_bit 6 (drop_bit 6 x AND 63) OR (drop_bit 0 x AND 63) = (x AND mask 24 :: M_uint32)"
  unfolding mask_63
proof (rule bit_word_eqI)
  fix n assume "n < LENGTH(32)"
  then consider "n < 6" | "6 \<le> n" "n < 12" | "12 \<le> n" "n < 18" | "18 \<le> n" "n < 24" | "24 \<le> n" by linarith
  then show "bit (push_bit 18 (drop_bit 18 x AND mask 6) OR push_bit 12 (drop_bit 12 x AND mask 6) OR
      push_bit 6 (drop_bit 6 x AND mask 6) OR (drop_bit 0 x AND mask 6)) n = bit (x AND mask 24) n"
    by cases (auto simp: bit_simps)
qed

lemma bit_byte: "bit (a :: M_uint8) n \<Longrightarrow> n < 8"
  using bit_imp_le_length [of a n] by simp

lemma b64_word_mask: "b64_word a b c AND mask 24 = b64_word a b c"
  unfolding b64_word_def by (rule bit_word_eqI) (auto simp: bit_simps dest: bit_byte)

lemma b64_word_bytes:
  "ucast (drop_bit 16 (b64_word a b c) AND 0xFF) = a" "ucast (drop_bit 8 (b64_word a b c) AND 0xFF) = b"
  "ucast (b64_word a b c AND 0xFF) = c"
  unfolding b64_word_def mask_255
  by (rule bit_word_eqI; auto simp: bit_simps dest: bit_byte; fail)+

lemma b64_word_zero: "drop_bit 0 (b64_word a b 0) AND 63 = 0" "drop_bit 6 (b64_word a 0 0) AND 63 = 0" "drop_bit 0 (b64_word a 0 0) AND 63 = 0"
  unfolding b64_word_def mask_63 by (rule bit_word_eqI; auto simp: bit_simps; fail)+

text \<open>The value of a character.\<close>

definition b64_val :: "nat \<Rightarrow> M_uint32 \<Rightarrow> int" where
  "b64_val k tmp = int (unat (drop_bit k tmp AND 63))"

lemma b64_tmp_word:
  "b64_tmp (b64_val 18 (b64_word a b c)) (b64_val 12 (b64_word a b c)) (b64_val 6 (b64_word a b c)) (b64_val 0 (b64_word a b c))
    = b64_word a b c"
  using b64_join [of "b64_word a b c"] unfolding b64_tmp_def b64_val_def b64_word_mask by simp

lemma b64_tmp_pad1:
  "b64_tmp (b64_val 18 (b64_word a b 0)) (b64_val 12 (b64_word a b 0)) (b64_val 6 (b64_word a b 0)) 0 = b64_word a b 0"
  using b64_tmp_word [of a b 0] b64_word_zero(1) [of a b] by (simp add: b64_val_def)

lemma b64_tmp_pad2:
  "b64_tmp (b64_val 18 (b64_word a 0 0)) (b64_val 12 (b64_word a 0 0)) 0 0 = b64_word a 0 0"
  using b64_tmp_word [of a 0 0] b64_word_zero(2,3) [of a] by (simp add: b64_val_def)

lemma b64_chr_facts: "b64_good (unat (drop_bit k (tmp :: M_uint32) AND 63))"
  by (rule enc_table_good) (rule unat_and_63)

lemma b64_chr_plain: "\<not> M_chr_isspace (b64_chr k tmp)" "b64_chr k tmp \<noteq> 0x3d" "b64_chr k tmp \<noteq> 0x0a"
  using b64_chr_facts [of k tmp] by (auto simp: b64_good_def b64_chr_def Let_def chr_defs)

lemma pad_nospace: "\<not> M_chr_isspace 0x3d"
  by (simp add: chr_defs)

lemma b64_chars_nospace: "\<forall>c\<in>set (b64_chars bs). \<not> M_chr_isspace c"
  by (induction bs rule: b64_chars.induct) (simp_all add: b64_chr_plain pad_nospace)

lemma length_b64_chars: "length (b64_chars bs) = 4 * ((length bs + 2) div 3)"
proof (induction bs rule: b64_chars.induct)
  case (1 a b c bs)
  have "(length (a # b # c # bs) + 2) div 3 = Suc ((length bs + 2) div 3)"
  proof -
    have "length (a # b # c # bs) + 2 = (length bs + 2) + 3" by simp
    then show ?thesis by (simp only: div_add_self2 [of 3 "length bs + 2"])
  qed
  then show ?case using 1 by simp
qed simp_all

section \<open>Encoding\<close>

text \<open>The step of the encoder for a character.\<close>

definition b64_put :: "nat \<Rightarrow> bytes \<Rightarrow> nat \<Rightarrow> nat \<Rightarrow> M_uint8 \<Rightarrow> (bytes \<times> nat \<times> nat) option" where
  "b64_put w out pos len c = do {
     out \<leftarrow> arr_set out pos c;
     if w > 0 \<and> (len + 1) mod w = 0 then do { out \<leftarrow> arr_set out (pos + 1) 0x0a; Some (out, pos + 1 + 1, len + 1) }
     else Some (out, pos + 1, len + 1) }"

lemma adder_put:
  "M_base64_encode_adder out (drop_bit k tmp AND 63) pos len w False = b64_put w out pos len (b64_chr k tmp)"
  "M_base64_encode_adder out (tmp AND 63) pos len w False = b64_put w out pos len (b64_chr 0 tmp)"
  "M_base64_encode_adder out x pos len w True = b64_put w out pos len 0x3d"
proof -
  have "unat (y AND 63 :: M_uint32) < length enc_table" for y
    using unat_and_63 [of y] by (simp add: enc_table_eq)
  then show "M_base64_encode_adder out (drop_bit k tmp AND 63) pos len w False = b64_put w out pos len (b64_chr k tmp)"
    "M_base64_encode_adder out (tmp AND 63) pos len w False = b64_put w out pos len (b64_chr 0 tmp)"
    by (simp_all add: M_base64_encode_adder_def b64_put_def b64_chr_def arr_get_def Let_def cong: if_cong)
qed (simp add: M_base64_encode_adder_def b64_put_def Let_def cong: if_cong)

interpretation b64: line_writer "b64_put w" "\<lambda>m pos len. pos = m + m div w \<and> len = m" "break_after w"
proof (unfold_locales, goal_cases)
  case (1 m pos len c out)
  have d: "Suc m div w = (if Suc m mod w = 0 then Suc (m div w) else m div w)" if "w > 0"
    using div_Suc [of m w] by simp
  have e: "Suc m div w = m div w" if "\<not> (w > 0 \<and> Suc m mod w = 0)"
    using that d by (cases "w = 0") auto
  show ?case
  proof (cases "w > 0 \<and> Suc m mod w = 0")
    case True
    then show ?thesis using 1 d arr_set_take2 [of pos out c "0x0a"] by (auto simp: b64_put_def break_after_def)
  next
    case False
    then show ?thesis using 1 e arr_set_take [of pos out c] by (auto simp: b64_put_def break_after_def)
  qed
next
  case (2 m c)
  show ?case by (rule plain_break_after)
qed

lemma b64_full_put:
  "b64_encode_full tmp w out pos len = b64.put_all w out pos len [b64_chr 18 tmp, b64_chr 12 tmp, b64_chr 6 tmp, b64_chr 0 tmp]"
  unfolding b64_encode_full_def adder_put(1) unfolding adder_put(2) by (auto split: Option.bind_splits)

lemma b64_chars_append: "3 dvd length xs \<Longrightarrow> b64_chars (xs @ ys) = b64_chars xs @ b64_chars ys"
proof (induction xs rule: b64_chars.induct)
  case (1 a b c bs)
  have "length (a # b # c # bs) = length bs + 3" by simp
  then have "3 dvd length bs" using "1.prems" by (simp only: dvd_add_left_iff [OF dvd_refl])
  then show ?case using "1.IH" by simp
qed (auto dest: dvd_imp_le)

lemma b64_encode_loop_put:
  assumes "m \<le> length inp" "3 dvd m"
  shows "i \<le> m \<Longrightarrow> 3 dvd i \<Longrightarrow>
    b64_encode_loop inp m w i out pos len = b64.put_all w out pos len (b64_chars (drop i (take m inp)))"
proof (induction "m - i" arbitrary: i out pos len rule: less_induct)
  case less
  show ?case
  proof (cases "i < m")
    case True
    have "i + 3 \<le> m" using True less.prems(2) assms(2) by (auto simp: dvd_def)
    then have d: "drop i (take m inp) = inp ! i # inp ! (i + 1) # inp ! (i + 2) # drop (i + 3) (take m inp)"
      using assms(1) rest_Cons [of m inp i] rest_Cons [of m inp "Suc i"] rest_Cons [of m inp "Suc (Suc i)"]
      by (simp add: rest_def numeral_3_eq_3)
    have ih: "b64_encode_loop inp m w (i + 3) out pos len = b64.put_all w out pos len (b64_chars (drop (i + 3) (take m inp)))"
      for out pos len using less.hyps [of "i + 3"] True \<open>i + 3 \<le> m\<close> less.prems(2) by simp
    have "b64_encode_loop inp m w i out pos len =
        do { (out, pos, len) \<leftarrow> b64_encode_full (b64_word (inp ! i) (inp ! (i + 1)) (inp ! (i + 2))) w out pos len;
             b64_encode_loop inp m w (i + 3) out pos len }"
      using True \<open>i + 3 \<le> m\<close> assms(1) by (subst b64_encode_loop.simps) (simp add: arr_get_def b64_word_def)
    also have "\<dots> = b64.put_all w out pos len (b64_chars (drop i (take m inp)))"
      unfolding d b64_chars.simps(1) b64.put_all_append b64_full_put ih ..
    finally show ?thesis .
  next
    case False
    then show ?thesis using less.prems(1) by (subst b64_encode_loop.simps) simp
  qed
qed

lemma b64_encode_rest_put:
  assumes "n \<le> length inp" "m = n - n mod 3"
  shows "b64_encode_rest inp n m w out pos len = b64.put_all w out pos len (b64_chars (drop m (take n inp)))"
proof -
  consider "n mod 3 = 0" | "n mod 3 = 1" | "n mod 3 = 2" by (metis One_nat_def mod_less_divisor numeral_2_eq_2 numeral_3_eq_3 less_Suc_eq less_one zero_less_Suc not_less_eq)
  then show ?thesis
  proof cases
    case 1
    then show ?thesis using assms by (simp add: b64_encode_rest_def)
  next
    case 2
    then have m: "n = Suc m" using assms(2) mod_le_divisor by (metis Suc_eq_plus1 le_add_diff_inverse2 mod_less_eq_dividend)
    then have d: "drop m (take n inp) = [inp ! m]" using assms(1) rest_Cons [of n inp m] by (simp add: rest_def)
    show ?thesis unfolding d b64_chars.simps using m assms(1)
      by (auto simp: b64_encode_rest_def arr_get_def adder_put(1,3) b64_word_def split: Option.bind_splits)
  next
    case 3
    then have m: "n = Suc (Suc m)" using assms(2) by (metis add_2_eq_Suc' le_add_diff_inverse2 mod_less_eq_dividend)
    then have d: "drop m (take n inp) = [inp ! m, inp ! Suc m]"
      using assms(1) rest_Cons [of n inp m] rest_Cons [of n inp "Suc m"] by (simp add: rest_def)
    show ?thesis unfolding d b64_chars.simps using m assms(1)
      by (auto simp: b64_encode_rest_def arr_get_def adder_put(1,3) b64_word_def split: Option.bind_splits)
  qed
qed

lemma b64_encode_put:
  assumes "n \<le> length inp"
  shows "do { (out, pos, len) \<leftarrow> b64_encode_loop inp (n - n mod 3) w 0 out 0 0;
      b64_encode_rest inp n (n - n mod 3) w out pos len } = b64.put_all w out 0 0 (b64_chars (take n inp))"
proof -
  let ?m = "n - n mod 3"
  have m: "?m \<le> length inp" "3 dvd ?m" "?m \<le> n" using assms by (simp_all add: dvd_minus_mod)
  then have "take n inp = take ?m inp @ drop ?m (take n inp)"
    by (metis append_take_drop_id min.absorb1 take_take)
  then have "b64_chars (take n inp) = b64_chars (take ?m inp) @ b64_chars (drop ?m (take n inp))"
    using b64_chars_append [of "take ?m inp" "drop ?m (take n inp)"] m by simp
  then show ?thesis
    using b64_encode_loop_put [OF m(1,2), of 0 w out 0 0] b64_encode_rest_put [OF assms refl]
    by (simp add: b64.put_all_append)
qed

lemma b64_round: "(4 * n div 3 + 3) - (4 * n div 3 + 3) mod 4 = 4 * ((n + 2) div 3)" for n :: nat
proof -
  obtain q r where n: "n = 3 * q + r" "r < 3" by (metis mod_less_divisor mult_div_mod_eq zero_less_numeral)
  then consider "r = 0" | "r = 1" | "r = 2" by linarith
  moreover have "(4 + 12 * q) div 3 = 4 * q + 1" "(8 + 12 * q) div 3 = 4 * q + 2" by presburger+
  moreover have "(4 * q + 4) mod 4 = 0" "(4 * q + 5) mod 4 = 1" by presburger+
  ultimately show ?thesis by cases (simp_all add: n(1))
qed

lemma b64_size:
  assumes "0 < n" "8 * n + 32 < SIZE_MOD"
  shows "M_base64_encode_size n w =
    (let l = 4 * ((n + 2) div 3) in if w > 0 \<and> l mod w = 0 then l + l div w else l + l div w + 1)"
proof -
  define l where "l = 4 * ((n + 2) div 3)"
  have r: "size_add (size_mul 4 n div 3) 3 - size_add (size_mul 4 n div 3) 3 mod 4 = l"
    using b64_round [of n] assms(2) by (simp add: l_def size_mul_def size_add_def)
  have "l \<le> 4 * n + 8" "l div w \<le> l" "0 < l" using assms(1) by (auto simp: l_def)
  then have s: "l + l div w + 1 < SIZE_MOD" using assms(2) by linarith
  have "l mod w = 0 \<Longrightarrow> w > 0 \<Longrightarrow> l div w > 0" using \<open>0 < l\<close> by (auto simp: div_eq_0_iff)
  then show ?thesis using assms(1) s unfolding M_base64_encode_size_def Let_def r l_def [symmetric]
    by (cases "w > 0"; cases "l mod w = 0") auto
qed

text \<open>The encoder writes the line-broken text and its terminator.\<close>

lemma b64_encode_ok:
  assumes "0 < n" "n \<le> length inp" "8 * n + 32 < SIZE_MOD" "M_base64_encode_size n w \<le> outLen" "outLen \<le> length out"
  defines "t \<equiv> line_text w (b64_chars (take n inp))"
  shows "\<exists>out'. M_base64_encode out outLen inp n w = Some (length t, out') \<and> length out' = length out \<and>
    take (Suc (length t)) out' = t @ [0] \<and> Suc (length t) \<le> outLen"
proof -
  define ds where "ds = b64_chars (take n inp)"
  have l: "length ds = 4 * ((n + 2) div 3)" using assms(2) by (simp add: ds_def length_b64_chars)
  have ne: "ds \<noteq> []" using l assms(1) by (cases ds) auto
  then have lp: "0 < length ds" by simp
  have g: "hex.glyphs w 0 ds = hex.glyphs w 0 (butlast ds) @ break_after w (length ds - 1) (last ds)"
    using hex.glyphs_append [of w 0 "butlast ds" "[last ds]"] ne by simp
  have t: "t = hex.glyphs w 0 (butlast ds) @ [last ds]" using ne by (simp add: t_def line_text_def ds_def)
  have sz: "length (hex.glyphs w 0 ds) + (if w > 0 \<and> length ds mod w = 0 then 0 else 1) \<le> outLen"
    using assms(4) lp unfolding b64_size [OF assms(1,3)] l [symmetric] Let_def length_break_after_0 by (auto split: if_splits)
  then have "length (hex.glyphs w 0 ds) \<le> length out" using assms(5) by simp
  then obtain out1 len1 where o1: "b64.put_all w out 0 0 ds = Some (out1, length (hex.glyphs w 0 ds), len1)"
    "length out1 = length out" "take (length (hex.glyphs w 0 ds)) out1 = hex.glyphs w 0 ds"
    using b64.put_all_ok [where m = 0 and pos = 0 and len = 0 and w = w and cs = ds and out = out] by auto
  have gl: "0 < length (hex.glyphs w 0 ds)" "length (hex.glyphs w 0 ds) < SIZE_MOD" "0 < outLen"
  proof -
    have "length ds + length ds div w \<le> 8 * n" using div_le_dividend [of "length ds" w] assms(1) l by linarith
    then show "0 < length (hex.glyphs w 0 ds)" "length (hex.glyphs w 0 ds) < SIZE_MOD"
      using lp assms(3) by (simp_all add: length_break_after_0)
    then show "0 < outLen" using sz by linarith
  qed
  obtain o' p' l' where "b64_encode_loop inp (n - n mod 3) w 0 out 0 0 = Some (o', p', l')"
    "b64_encode_rest inp n (n - n mod 3) w o' p' l' = Some (out1, length (hex.glyphs w 0 ds), len1)"
    using b64_encode_put [OF assms(2), of w out] o1(1) unfolding ds_def [symmetric] by (auto split: Option.bind_splits)
  then have "M_base64_encode out outLen inp n w = do {
      c \<leftarrow> arr_get out1 (size_sub (length (hex.glyphs w 0 ds)) 1);
      let pos = (if c = 0x0a then length (hex.glyphs w 0 ds) - 1 else length (hex.glyphs w 0 ds));
      out \<leftarrow> arr_set out1 pos 0; Some (pos, out) }"
    using assms(1,4) gl(3) by (simp add: M_base64_encode_def)
  moreover have "arr_get out1 (size_sub (length (hex.glyphs w 0 ds)) 1) = Some (last (hex.glyphs w 0 ds))"
  proof -
    have "out1 ! (length (hex.glyphs w 0 ds) - 1) = last (hex.glyphs w 0 ds)"
      using gl(1) o1(3) by (metis diff_less last_conv_nth length_greater_0_conv nth_take zero_less_one)
    moreover have "length (hex.glyphs w 0 ds) - 1 < length out1"
      using gl(1) o1(2) \<open>length (hex.glyphs w 0 ds) \<le> length out\<close> by linarith
    moreover have "size_sub (length (hex.glyphs w 0 ds)) 1 = length (hex.glyphs w 0 ds) - 1"
      by (rule size_sub_le) (use gl(1,2) in linarith)+
    ultimately show ?thesis by (simp only: arr_get_def if_True)
  qed
  ultimately have enc: "M_base64_encode out outLen inp n w = do {
      let pos = (if last (hex.glyphs w 0 ds) = 0x0a then length (hex.glyphs w 0 ds) - 1 else length (hex.glyphs w 0 ds));
      out \<leftarrow> arr_set out1 pos 0; Some (pos, out) }"
    by simp
  have lc: "last ds \<noteq> 0x0a" using b64_chars_nospace [of "take n inp"] isspace_newline last_in_set [OF ne]
    unfolding ds_def by metis
  have fin: "\<exists>out'. arr_set out1 (length t) 0 = Some out' \<and> length out' = length out \<and> take (Suc (length t)) out' = t @ [0]"
    if "Suc (length t) \<le> length out" "take (length t) out1 = t"
    using arr_set_take [of "length t" out1 0] that o1(2) by simp
  show ?thesis
  proof (cases "w > 0 \<and> length ds mod w = 0")
    case True
    then have g2: "hex.glyphs w 0 ds = t @ [0x0a]" using g t lp by (simp add: break_after_def)
    then have "Suc (length t) \<le> outLen" "take (length t) out1 = t"
      using sz o1(3) by (simp_all, metis append_eq_conv_conj append_take_drop_id take_take min.cobounded1 le_add1 length_append min.absorb1)
    then show ?thesis using enc fin assms(5) by (auto simp: g2)
  next
    case False
    then have g2: "hex.glyphs w 0 ds = t" using g t lp by (auto simp: break_after_def)
    then have "last (hex.glyphs w 0 ds) \<noteq> 0x0a" using t lc by simp
    then show ?thesis using enc fin assms(5) sz o1(3) False by (auto simp: g2)
  qed
qed

section \<open>Decoding\<close>

lemma get_decchar_chr:
  assumes "n \<le> length inp" "i \<le> n" "plain (rest inp n i) = b64_chr k tmp # cs"
  shows "\<exists>j\<le>n. M_base64_get_decchar inp n i = Some (True, b64_val k tmp, j) \<and> plain (rest inp n j) = cs"
proof -
  obtain j where j: "skip_space inp n i = Some j" "i \<le> j" "j < n" "inp ! j = b64_chr k tmp" "plain (rest inp n (Suc j)) = cs"
    using skip_space_next [OF assms] by blast
  have g: "b64_isvalidchar (b64_chr k tmp)" "b64_chr k tmp \<noteq> 0x3d" "\<not> b64_chr k tmp < 43"
    "unat (b64_chr k tmp) - 43 < length dec_table" "dec_table ! (unat (b64_chr k tmp) - 43) = b64_val k tmp"
    using b64_chr_facts [of k tmp] by (simp_all add: b64_good_def b64_chr_def b64_val_def Let_def)
  have "0 \<le> b64_val k tmp" by (simp add: b64_val_def)
  then show ?thesis using j g assms(1)
    by (intro exI [of _ "Suc j"]) (simp add: M_base64_get_decchar_def arr_get_def Let_def)
qed

lemma get_decchar_pad:
  assumes "n \<le> length inp" "i \<le> n" "plain (rest inp n i) = 0x3d # cs" "2 \<le> n" "n < SIZE_MOD"
    and pos: "\<And>j. j < n \<Longrightarrow> plain (rest inp n (Suc j)) = cs \<Longrightarrow> n - 2 \<le> j"
  shows "\<exists>j\<le>n. M_base64_get_decchar inp n i = Some (True, 0, j) \<and> plain (rest inp n j) = cs"
proof -
  obtain j where j: "skip_space inp n i = Some j" "i \<le> j" "j < n" "inp ! j = 0x3d" "plain (rest inp n (Suc j)) = cs"
    using skip_space_next [OF assms(1-3)] by blast
  have "b64_isvalidchar 0x3d" by (simp add: b64_isvalidchar_def)
  then show ?thesis using j assms(1,4,5) pos [OF j(3,5)]
    by (intro exI [of _ "Suc j"]) (auto simp: M_base64_get_decchar_def arr_get_def Let_def)
qed

text \<open>Where the last characters are.\<close>

lemma rest_last:
  assumes "n \<le> length inp" "0 < n" "\<not> M_chr_isspace (inp ! (n - 1))" "i < n"
  shows "plain (rest inp n i) \<noteq> []"
proof -
  have "inp ! (n - 1) \<in> set (rest inp n i)"
    using assms(1,2,4) by (auto simp: rest_def in_set_conv_nth intro!: exI [of _ "n - 1 - i"])
  then show ?thesis using assms(3) by (auto simp: plain_def filter_empty_conv)
qed

lemma rest_last_two:
  assumes "n \<le> length inp" "2 \<le> n" "\<not> M_chr_isspace (inp ! (n - 1))" "\<not> M_chr_isspace (inp ! (n - 2))" "i \<le> n - 2"
  shows "2 \<le> length (plain (rest inp n i))"
proof -
  have n: "Suc (n - 2) = n - 1" "Suc (n - 1) = n" using assms(2) by simp_all
  have e: "rest inp n (n - 2) = [inp ! (n - 2), inp ! (n - 1)]"
    using assms(1,2) rest_Cons [of n inp "n - 2"] rest_Cons [of n inp "n - 1"] rest_Nil [of n inp n] unfolding n by simp
  have "rest inp n i = take (n - 2 - i) (rest inp n i) @ drop (n - 2 - i) (rest inp n i)" by simp
  also have "drop (n - 2 - i) (rest inp n i) = rest inp n (n - 2)"
    unfolding rest_def drop_drop using assms(5) by (simp only: le_add_diff_inverse2)
  finally have "plain (rest inp n i) = plain (take (n - 2 - i) (rest inp n i)) @ [inp ! (n - 2), inp ! (n - 1)]"
    using assms(3,4) plain_simps(2) [of "take (n - 2 - i) (rest inp n i)" "rest inp n (n - 2)"] unfolding e by simp
  then show ?thesis by simp
qed

text \<open>What the last two characters of a text of \<open>n\<close> characters for the bytes \<open>bs\<close> have to be.\<close>

definition b64_end :: "bytes \<Rightarrow> nat \<Rightarrow> nat \<Rightarrow> bool" where
  "b64_end inp n l \<longleftrightarrow>
     2 \<le> n \<and> n \<le> length inp \<and> n < SIZE_MOD \<and> \<not> M_chr_isspace (inp ! (n - 1)) \<and>
     (inp ! (n - 1) = 0x3d \<longleftrightarrow> l mod 3 \<noteq> 0) \<and> (inp ! (n - 2) = 0x3d \<longleftrightarrow> l mod 3 = 1)"

lemma b64_get4_full:
  assumes "n \<le> length inp" "i \<le> n"
    "plain (rest inp n i) = [b64_chr 18 t, b64_chr 12 t, b64_chr 6 t, b64_chr 0 t] @ cs"
  shows "\<exists>j\<le>n. b64_get4 inp n i = Some (Some (b64_val 18 t, b64_val 12 t, b64_val 6 t, b64_val 0 t, j)) \<and>
    plain (rest inp n j) = cs"
proof -
  obtain j1 where 1: "j1 \<le> n" "M_base64_get_decchar inp n i = Some (True, b64_val 18 t, j1)"
    "plain (rest inp n j1) = [b64_chr 12 t, b64_chr 6 t, b64_chr 0 t] @ cs"
    using get_decchar_chr [OF assms(1,2)] assms(3) by force
  obtain j2 where 2: "j2 \<le> n" "M_base64_get_decchar inp n j1 = Some (True, b64_val 12 t, j2)"
    "plain (rest inp n j2) = [b64_chr 6 t, b64_chr 0 t] @ cs"
    using get_decchar_chr [OF assms(1) 1(1)] 1(3) by force
  obtain j3 where 3: "j3 \<le> n" "M_base64_get_decchar inp n j2 = Some (True, b64_val 6 t, j3)"
    "plain (rest inp n j3) = [b64_chr 0 t] @ cs"
    using get_decchar_chr [OF assms(1) 2(1)] 2(3) by force
  obtain j4 where 4: "j4 \<le> n" "M_base64_get_decchar inp n j3 = Some (True, b64_val 0 t, j4)"
    "plain (rest inp n j4) = cs" using get_decchar_chr [OF assms(1) 3(1)] 3(3) by force
  show ?thesis using 1(2) 2(2) 3(2) 4 by (simp add: b64_get4_def)
qed

lemma b64_get4_pad1:
  assumes "b64_end inp n l" "i \<le> n" "plain (rest inp n i) = [b64_chr 18 t, b64_chr 12 t, b64_chr 6 t, 0x3d]"
  shows "b64_get4 inp n i = Some (Some (b64_val 18 t, b64_val 12 t, b64_val 6 t, 0, n))"
proof -
  have e: "n \<le> length inp" "2 \<le> n" "n < SIZE_MOD" "\<not> M_chr_isspace (inp ! (n - 1))" using assms(1) by (auto simp: b64_end_def)
  obtain j1 where 1: "j1 \<le> n" "M_base64_get_decchar inp n i = Some (True, b64_val 18 t, j1)"
    "plain (rest inp n j1) = [b64_chr 12 t, b64_chr 6 t, 0x3d]"
    using get_decchar_chr [OF e(1) assms(2)] assms(3) by force
  obtain j2 where 2: "j2 \<le> n" "M_base64_get_decchar inp n j1 = Some (True, b64_val 12 t, j2)"
    "plain (rest inp n j2) = [b64_chr 6 t, 0x3d]" using get_decchar_chr [OF e(1) 1(1)] 1(3) by force
  obtain j3 where 3: "j3 \<le> n" "M_base64_get_decchar inp n j2 = Some (True, b64_val 6 t, j3)"
    "plain (rest inp n j3) = [0x3d]" using get_decchar_chr [OF e(1) 2(1)] 2(3) by force
  have "n - 2 \<le> j" if "j < n" "plain (rest inp n (Suc j)) = []" for j
    using rest_last [OF e(1) _ e(4), of "Suc j"] that e(2) by (cases "Suc j < n") auto
  then obtain j4 where 4: "j4 \<le> n" "M_base64_get_decchar inp n j3 = Some (True, 0, j4)" "plain (rest inp n j4) = []"
    using get_decchar_pad [OF e(1) 3(1,3) e(2,3)] by blast
  then have "j4 = n" using rest_last [OF e(1) _ e(4), of j4] e(2) by (cases "j4 < n") auto
  then show ?thesis using 1(2) 2(2) 3(2) 4 by (simp add: b64_get4_def)
qed

lemma b64_get4_pad2:
  assumes "b64_end inp n l" "l mod 3 = 1" "i \<le> n" "plain (rest inp n i) = [b64_chr 18 t, b64_chr 12 t, 0x3d, 0x3d]"
  shows "b64_get4 inp n i = Some (Some (b64_val 18 t, b64_val 12 t, 0, 0, n))"
proof -
  have e: "n \<le> length inp" "2 \<le> n" "n < SIZE_MOD" "\<not> M_chr_isspace (inp ! (n - 1))" "inp ! (n - 2) = 0x3d"
    using assms(1,2) by (auto simp: b64_end_def)
  then have e6: "\<not> M_chr_isspace (inp ! (n - 2))" using pad_nospace by simp
  obtain j1 where 1: "j1 \<le> n" "M_base64_get_decchar inp n i = Some (True, b64_val 18 t, j1)"
    "plain (rest inp n j1) = [b64_chr 12 t, 0x3d, 0x3d]"
    using get_decchar_chr [OF e(1) assms(3)] assms(4) by force
  obtain j2 where 2: "j2 \<le> n" "M_base64_get_decchar inp n j1 = Some (True, b64_val 12 t, j2)"
    "plain (rest inp n j2) = [0x3d, 0x3d]" using get_decchar_chr [OF e(1) 1(1)] 1(3) by force
  have "n - 2 \<le> j" if "j < n" "plain (rest inp n (Suc j)) = [0x3d]" for j
    using rest_last_two [OF e(1,2,4) e6, of "Suc j"] that by (cases "Suc j \<le> n - 2") auto
  then obtain j3 where 3: "j3 \<le> n" "M_base64_get_decchar inp n j2 = Some (True, 0, j3)" "plain (rest inp n j3) = [0x3d]"
    using get_decchar_pad [OF e(1) 2(1,3) e(2,3)] by blast
  have "n - 2 \<le> j" if "j < n" "plain (rest inp n (Suc j)) = []" for j
    using rest_last [OF e(1) _ e(4), of "Suc j"] that e(2) by (cases "Suc j < n") auto
  then obtain j4 where 4: "j4 \<le> n" "M_base64_get_decchar inp n j3 = Some (True, 0, j4)" "plain (rest inp n j4) = []"
    using get_decchar_pad [OF e(1) 3(1,3) e(2,3)] by blast
  then have "j4 = n" using rest_last [OF e(1) _ e(4), of j4] e(2) by (cases "j4 < n") auto
  then show ?thesis using 1(2) 2(2) 3(2) 4 by (simp add: b64_get4_def)
qed

text \<open>The bytes of a group are written one after the other.\<close>

lemma write_decchar_ok:
  "pos < outlen \<Longrightarrow> outlen \<le> length out \<Longrightarrow> M_base64_write_decchar out outlen c pos = Some (True, out[pos := c], pos + 1)"
  by (simp add: M_base64_write_decchar_def arr_set_def)

lemma b64_write3_ok:
  assumes "b64_end inp n l" "outlen \<le> length out"
  shows "l mod 3 = 0 \<or> i \<noteq> n \<Longrightarrow> pos + 3 \<le> outlen \<Longrightarrow> b64_write3 inp n i (b64_word a b c) out outlen pos =
      Some (True, out[pos := a, pos + 1 := b, pos + 2 := c], pos + 3)"
    "l mod 3 = 2 \<Longrightarrow> pos + 2 \<le> outlen \<Longrightarrow> b64_write3 inp n n (b64_word a b c) out outlen pos =
      Some (True, out[pos := a, pos + 1 := b], pos + 2)"
    "l mod 3 = 1 \<Longrightarrow> pos + 1 \<le> outlen \<Longrightarrow> b64_write3 inp n n (b64_word a b c) out outlen pos =
      Some (True, out[pos := a], pos + 1)"
proof -
  have g: "arr_get inp (size_sub n 2) = Some (inp ! (n - 2))" "arr_get inp (size_sub n (Suc 0)) = Some (inp ! (n - Suc 0))"
    using assms(1) by (auto simp: b64_end_def arr_get_def)
  have l: "inp ! (n - Suc 0) = 0x3d \<longleftrightarrow> l mod 3 \<noteq> 0" "inp ! (n - 2) = 0x3d \<longleftrightarrow> l mod 3 = 1"
    using assms(1) by (simp_all add: b64_end_def)
  note defs = b64_write3_def b64_word_bytes write_decchar_ok g l
  show "l mod 3 = 0 \<or> i \<noteq> n \<Longrightarrow> pos + 3 \<le> outlen \<Longrightarrow> b64_write3 inp n i (b64_word a b c) out outlen pos =
      Some (True, out[pos := a, pos + 1 := b, pos + 2 := c], pos + 3)"
    using assms(2) by (cases "i = n") (simp_all add: defs)
  show "l mod 3 = 2 \<Longrightarrow> pos + 2 \<le> outlen \<Longrightarrow> b64_write3 inp n n (b64_word a b c) out outlen pos =
      Some (True, out[pos := a, pos + 1 := b], pos + 2)"
    using assms(2) by (simp add: defs)
  show "l mod 3 = 1 \<Longrightarrow> pos + 1 \<le> outlen \<Longrightarrow> b64_write3 inp n n (b64_word a b c) out outlen pos =
      Some (True, out[pos := a], pos + 1)"
    using assms(2) by (simp add: defs)
qed

lemma take_update3: "pos + 3 \<le> length out \<Longrightarrow> take (pos + 3) (out[pos := a, pos + 1 := b, pos + 2 := c]) = take pos out @ [a, b, c]"
  by (simp add: numeral_3_eq_3 take_Suc_conv_app_nth)

lemma update2:
  assumes "pos + 2 \<le> length out"
  shows "out[pos := a, pos + 1 := b] = take pos out @ [a, b] @ drop (pos + 2) out"
proof -
  have "take (pos + 2) (out[pos := a, pos + 1 := b]) = take pos out @ [a, b]"
    using assms by (simp add: numeral_2_eq_2 take_Suc_conv_app_nth)
  then show ?thesis using append_take_drop_id [of "pos + 2" "out[pos := a, pos + 1 := b]"] by simp
qed

lemma b64_decode_loop_ok:
  assumes "outlen \<le> length out" "b64_end inp n (length bs)" "i \<le> n" "plain (rest inp n i) = b64_chars bs"
    "pos + length bs \<le> outlen"
  shows "b64_decode_loop inp n i out outlen pos =
    Some (pos + length bs, take pos out @ bs @ drop (pos + length bs) out)"
  using assms
proof (induction bs arbitrary: i out pos rule: b64_chars.induct)
  case (1 a b c bs)
  have n: "n \<le> length inp" "0 < n" "\<not> M_chr_isspace (inp ! (n - 1))" using "1.prems"(2) by (auto simp: b64_end_def)
  have p: "plain (rest inp n i) = [b64_chr 18 (b64_word a b c), b64_chr 12 (b64_word a b c), b64_chr 6 (b64_word a b c),
      b64_chr 0 (b64_word a b c)] @ b64_chars bs" using "1.prems"(4) by simp
  have lt: "i < n" using p n(1) rest_Nil [OF n(1), of i] "1.prems"(3) by (cases "i < n") auto
  obtain j where j: "j \<le> n" "plain (rest inp n j) = b64_chars bs"
    "b64_get4 inp n i = Some (Some (b64_val 18 (b64_word a b c), b64_val 12 (b64_word a b c), b64_val 6 (b64_word a b c),
      b64_val 0 (b64_word a b c), j))"
    using b64_get4_full [OF n(1) "1.prems"(3) p] by blast
  let ?out = "out[pos := a, pos + 1 := b, pos + 2 := c]"
  have "length (a # b # c # bs) mod 3 = 0 \<or> j \<noteq> n"
  proof (cases "j = n")
    case True
    then have "length (b64_chars bs) = 0" using j(2) rest_Nil [OF n(1), of j] by simp
    then have "bs = []" by (simp add: length_b64_chars div_eq_0_iff)
    then show ?thesis by simp
  qed simp
  then have w: "b64_write3 inp n j (b64_word a b c) out outlen pos = Some (True, ?out, pos + 3)"
    using b64_write3_ok(1) [OF "1.prems"(2,1)] "1.prems"(5) by simp
  have "length (a # b # c # bs) = length bs + 3" by simp
  then have "length (a # b # c # bs) mod 3 = length bs mod 3" by (simp only: mod_add_self2)
  then have e: "b64_end inp n (length bs)" using "1.prems"(2) unfolding b64_end_def by metis
  have "b64_decode_loop inp n i out outlen pos = b64_decode_loop inp n j ?out outlen (pos + 3)"
    using lt j(3) w by (subst b64_decode_loop.simps) (simp add: b64_tmp_word)
  also have "\<dots> = Some (pos + 3 + length bs, take (pos + 3) ?out @ bs @ drop (pos + 3 + length bs) ?out)"
    by (rule "1.IH") (use "1.prems" e j in simp_all)
  also have "pos + 3 + length bs = pos + length (a # b # c # bs)" by simp
  finally show ?case using "1.prems"(1,5) take_update3 [of pos out a b c] by simp
next
  case (2 a b)
  have n: "n \<le> length inp" using "2.prems"(2) by (auto simp: b64_end_def)
  have lt: "i < n" using "2.prems"(3,4) rest_Nil [OF n, of i] by (cases "i < n") auto
  have "b64_get4 inp n i = Some (Some (b64_val 18 (b64_word a b 0), b64_val 12 (b64_word a b 0), b64_val 6 (b64_word a b 0), 0, n))"
    using b64_get4_pad1 [OF "2.prems"(2,3)] "2.prems"(4) by simp
  moreover have "b64_write3 inp n n (b64_word a b 0) out outlen pos = Some (True, out[pos := a, pos + 1 := b], pos + 2)"
    using b64_write3_ok(2) [OF "2.prems"(2,1)] "2.prems"(5) by simp
  moreover have "b64_decode_loop inp n n o' outlen p = Some (p, o')" for o' p by (subst b64_decode_loop.simps) simp
  ultimately have "b64_decode_loop inp n i out outlen pos = Some (pos + 2, out[pos := a, pos + 1 := b])"
    using lt by (subst b64_decode_loop.simps) (simp add: b64_tmp_pad1)
  then show ?case using update2 [of pos out a b] "2.prems"(1,5) by simp
next
  case (3 a)
  have n: "n \<le> length inp" using "3.prems"(2) by (auto simp: b64_end_def)
  have lt: "i < n" using "3.prems"(3,4) rest_Nil [OF n, of i] by (cases "i < n") auto
  have "b64_get4 inp n i = Some (Some (b64_val 18 (b64_word a 0 0), b64_val 12 (b64_word a 0 0), 0, 0, n))"
    using b64_get4_pad2 [OF "3.prems"(2) _ "3.prems"(3)] "3.prems"(4) by simp
  moreover have "b64_write3 inp n n (b64_word a 0 0) out outlen pos = Some (True, out[pos := a], pos + 1)"
    using b64_write3_ok(3) [OF "3.prems"(2,1)] "3.prems"(5) by simp
  moreover have "b64_decode_loop inp n n o' outlen p = Some (p, o')" for o' p by (subst b64_decode_loop.simps) simp
  ultimately have "b64_decode_loop inp n i out outlen pos = Some (pos + 1, out[pos := a])"
    using lt by (subst b64_decode_loop.simps) (simp add: b64_tmp_pad2)
  then show ?case using "3.prems"(1,5) by (simp add: upd_conv_take_nth_drop)
next
  case 4
  have n: "n \<le> length inp" "0 < n" "\<not> M_chr_isspace (inp ! (n - 1))" using "4.prems"(2) by (auto simp: b64_end_def)
  then have "i = n" using rest_last [OF n, of i] "4.prems"(3,4) by (cases "i < n") auto
  then show ?case by (subst b64_decode_loop.simps) simp
qed

section \<open>Round trip\<close>

text \<open>The last two characters of the reference encoding.\<close>

lemma b64_chars_ne: "b64_chars bs = [] \<longleftrightarrow> bs = []"
  by (cases bs rule: b64_chars.cases) auto

lemma mod3_Cons: "length (a # b # c # bs) mod 3 = length bs mod 3"
proof -
  have "length (a # b # c # bs) = length bs + 3" by simp
  then show ?thesis by (simp only: mod_add_self2)
qed

lemma b64_chars_last:
  "bs \<noteq> [] \<Longrightarrow> (last (b64_chars bs) = 0x3d \<longleftrightarrow> length bs mod 3 \<noteq> 0) \<and>
    (last (butlast (b64_chars bs)) = 0x3d \<longleftrightarrow> length bs mod 3 = 1)"
proof (induction bs rule: b64_chars.induct)
  case (1 a b c bs)
  show ?case
  proof (cases "bs = []")
    case True
    then show ?thesis by (simp add: b64_chr_plain)
  next
    case False
    then have "4 \<le> length (b64_chars bs)" by (cases bs rule: b64_chars.cases) auto
    then obtain x y zs where z: "b64_chars bs = x # y # zs" "zs \<noteq> []"
      by (fastforce simp: numeral_eq_Suc Suc_le_length_iff)
    have e: "last (b64_chars (a # b # c # bs)) = last (b64_chars bs)"
      "last (butlast (b64_chars (a # b # c # bs))) = last (butlast (b64_chars bs))" using z by auto
    show ?thesis unfolding e mod3_Cons using "1.IH" [OF False] .
  qed
qed (simp_all add: b64_chr_plain)

lemma line_text_last:
  assumes "2 \<le> length ds"
  shows "line_text w ds \<noteq> []" "last (line_text w ds) = last ds"
    "last (butlast (line_text w ds)) = (if w > 0 \<and> (length ds - 1) mod w = 0 then 0x0a else last (butlast ds))"
    "2 \<le> length (line_text w ds)"
proof -
  have ne: "ds \<noteq> []" "butlast ds \<noteq> []" using assms by (cases ds; auto)+
  then have "hex.glyphs w 0 (butlast ds) = hex.glyphs w 0 (butlast (butlast ds)) @ break_after w (length ds - 2) (last (butlast ds))"
    using hex.glyphs_append [of w 0 "butlast (butlast ds)" "[last (butlast ds)]"] by (simp add: numeral_2_eq_2)
  moreover have "Suc (length ds - 2) = length ds - 1" using assms by simp
  ultimately show "line_text w ds \<noteq> []" "last (line_text w ds) = last ds"
    "last (butlast (line_text w ds)) = (if w > 0 \<and> (length ds - 1) mod w = 0 then 0x0a else last (butlast ds))"
    "2 \<le> length (line_text w ds)"
    using ne(1) by (auto simp: line_text_def break_after_def butlast_append)
qed

lemma nth_last_two:
  assumes "2 \<le> length t" "take (length t) out = t"
  shows "out ! (length t - 1) = last t" "out ! (length t - 2) = last (butlast t)"
proof -
  have n: "out ! i = t ! i" if "i < length t" for i using assms(2) that by (metis nth_take)
  have "t \<noteq> []" "butlast t \<noteq> []" using assms(1) by (cases t; auto)+
  then show "out ! (length t - 1) = last t" "out ! (length t - 2) = last (butlast t)"
    using assms(1) n [of "length t - 1"] n [of "length t - 2"]
    by (simp_all add: last_conv_nth nth_butlast numeral_2_eq_2)
qed

lemma b64_trim_last: "0 < n \<Longrightarrow> n \<le> length inp \<Longrightarrow> \<not> M_chr_isspace (inp ! (n - 1)) \<Longrightarrow> b64_trim inp n = Some n"
  by (cases n) (simp_all add: arr_get_def)

text \<open>
  C31. Encoding bytes in base 64 stays inside an output of the size that the encoder asks for, ends
  with a terminator, and decoding the text gives the bytes back, for every length of line except those
  that put a line break between the two padding characters.
\<close>

theorem M_base64_roundtrip:
  assumes "0 < n" "n \<le> length inp" "8 * n + 32 < SIZE_MOD" "M_base64_encode_size n wrap \<le> outLen" "outLen \<le> length out"
    and "n \<le> decLen" "decLen \<le> length dec"
    and nosplit: "n mod 3 \<noteq> 1 \<or> wrap = 0 \<or> (4 * ((n + 2) div 3) - 1) mod wrap \<noteq> 0"
  shows "\<exists>r out'. M_base64_encode out outLen inp n wrap = Some (r, out') \<and> r < outLen \<and> out' ! r = 0 \<and>
    M_base64_decode dec decLen out' r = Some (n, take n inp @ drop n dec)"
proof -
  let ?bs = "take n inp" and ?ds = "b64_chars (take n inp)" and ?t = "line_text wrap (b64_chars (take n inp))"
  have bs: "length ?bs = n" "?bs \<noteq> []" using assms(1,2) by auto
  have ld: "length ?ds = 4 * ((n + 2) div 3)" "2 \<le> length ?ds" using assms(1) unfolding length_b64_chars bs(1) by simp_all
  obtain out' where e: "M_base64_encode out outLen inp n wrap = Some (length ?t, out')" "length out' = length out"
    "take (Suc (length ?t)) out' = ?t @ [0]" "Suc (length ?t) \<le> outLen" using b64_encode_ok [OF assms(1-5)] by blast
  have t: "take (length ?t) out' = ?t" using e(3) by (metis append_eq_conv_conj take_Suc_conv_app_nth take_take min.absorb1 lessI less_imp_le)
  have z: "out' ! length ?t = 0" using e(3) by (metis lessI nth_append_length nth_take)
  note lt = line_text_last [OF ld(2), of wrap]
  have o: "out' ! (length ?t - 1) = last ?ds" "out' ! (length ?t - 2) = (if wrap > 0 \<and> (length ?ds - 1) mod wrap = 0 then 0x0a else last (butlast ?ds))"
    using nth_last_two [OF lt(4) t] lt(2,3) by simp_all
  have sp: "\<not> M_chr_isspace (last ?ds)" using b64_chars_nospace [of ?bs] ld(2) by (metis last_in_set list.size(3) not_numeral_le_zero)
  have "length ?t < SIZE_MOD"
  proof -
    have "length ?t = length ?ds + (length ?ds - 1) div wrap" using ld(2) by (intro length_line_text) auto
    moreover have "length ?ds \<le> 4 * n" using ld(1) assms(1) by linarith
    ultimately show ?thesis using div_le_dividend [of "length ?ds - 1" wrap] assms(3) by linarith
  qed
  then have "b64_end out' (length ?t) n"
    unfolding b64_end_def o ld(1)
    using lt(4) e(2,4) assms(5) sp b64_chars_last [OF bs(2), unfolded bs(1)] nosplit by auto
  then have be: "b64_end out' (length ?t) (length ?bs)" unfolding bs(1) .
  have "plain (rest out' (length ?t) 0) = ?ds" using t plain_line_text [OF b64_chars_nospace] by (simp add: rest_def)
  then have "b64_decode_loop out' (length ?t) 0 dec decLen 0 = Some (n, ?bs @ drop n dec)"
    using b64_decode_loop_ok [OF assms(7) be, of 0 0] assms(6) bs(1) by simp
  moreover have "b64_trim out' (length ?t) = Some (length ?t)"
    by (rule b64_trim_last) (use lt(4) e(2,4) assms(5) o(1) sp in auto)
  ultimately have "M_base64_decode dec decLen out' (length ?t) = Some (n, ?bs @ drop n dec)"
    using lt(4) assms(1,6) by (auto simp: M_base64_decode_def)
  then show ?thesis using e(1,4) z by (auto simp: Suc_le_eq)
qed

theorem M_base64_roundtrip_witness:
  "\<exists>r out'. M_base64_encode (replicate 20 7) 20 [0x61, 0x62, 0x63, 0x64] 4 4 = Some (r, out') \<and>
    M_base64_decode [1, 2, 3, 4, 5] 5 out' r = Some (4, [0x61, 0x62, 0x63, 0x64, 5])"
proof -
  have "M_base64_encode_size 4 4 = 10" by (subst b64_size) (simp_all add: SIZE_MOD_def Let_def)
  then show ?thesis
    using M_base64_roundtrip [of 4 "[0x61, 0x62, 0x63, 0x64]" 4 20 "replicate 20 7" 5 "[1, 2, 3, 4, 5]"]
    by (auto simp: SIZE_MOD_def)
qed

text \<open>
  Decoding a base 64 text that consists of white space only reads the byte before the text: the
  loop that drops white space from the end has no lower bound.
\<close>

lemma M_base64_decode_blank:
  assumes "0 < n" "n \<le> length inp" "\<forall>i<n. M_chr_isspace (inp ! i)" "0 < outLen"
  shows "M_base64_decode out outLen inp n = None"
proof -
  have "b64_trim inp k = None" if "k \<le> n" for k
    using that assms(2,3) by (induction k) (simp_all add: arr_get_def)
  then show ?thesis using assms(1,4) by (simp add: M_base64_decode_def)
qed

lemma M_base64_decode_blank_example: "M_base64_decode [0, 0, 0] 3 [0x20, 0x0a] 2 = None"
  using M_base64_decode_blank [of 2 "[0x20, 0x0a]" 3 "[0, 0, 0]"] by (simp add: chr_defs numeral_2_eq_2 less_Suc_eq)

end
