(* ===== verification/M_Cache.thy ===== *)
theory M_Cache
  imports M_Hashtable
begin

text \<open>
  The cache (\<^verbatim>\<open>src/base/cache/m_cache.c\<close>): a hash table from keys to the nodes of a linked list,
  which holds the pairs of key and value with the one that was used last in front. When the cache
  is full an insertion reuses the node at the end.

  The pairs are allocated separately from the nodes, in the store \<open>cvals\<close>; the list has their
  addresses. Keys and values are pointers of the same type, as in the source. Whether a callback to
  free keys or values is registered is a flag, and the calls of a registered one are recorded in
  \<open>ckeys_freed\<close> and \<open>cvalues_freed\<close>. The member \<open>size\<close> of the source is never used.
\<close>

section \<open>State\<close>

record 'p M_cache_value =
  cv_key :: 'p
  cv_value :: 'p

record ('p, 't) M_cache =
  kv_table :: "('p, addr, 't) M_hashtable"
  value_list :: "(addr, 't) M_llist"
  max_size :: nat
  c_key_duplicate :: "('p \<Rightarrow> 'p) option"
  c_key_free :: bool
  c_value_duplicate :: "('p \<Rightarrow> 'p) option"
  c_value_free :: bool
  cvals :: "addr \<Rightarrow> 'p M_cache_value option"
  cval_fresh :: addr
  ckeys_freed :: "'p list"
  cvalues_freed :: "'p list"

record 'p M_cache_callbacks =
  ccb_key_duplicate :: "('p \<Rightarrow> 'p) option"
  ccb_key_free :: bool
  ccb_value_duplicate :: "('p \<Rightarrow> 'p) option"
  ccb_value_free :: bool

text \<open>Accesses to a pair, and the calls of the callbacks that free.\<close>

definition cval_get :: "('p, 't) M_cache \<Rightarrow> addr \<Rightarrow> 'p M_cache_value option" where
  "cval_get c a = (if a = NULL then None else cvals c a)"

definition cval_set :: "('p, 't) M_cache \<Rightarrow> addr \<Rightarrow> 'p M_cache_value \<Rightarrow> ('p, 't) M_cache option" where
  "cval_set c a cv = do { _ \<leftarrow> cval_get c a; Some (c\<lparr>cvals := (cvals c)(a \<mapsto> cv)\<rparr>) }"

definition call_key_free :: "('p, 't) M_cache \<Rightarrow> 'p \<Rightarrow> ('p, 't) M_cache" where
  "call_key_free c key = (if c_key_free c then c\<lparr>ckeys_freed := ckeys_freed c @ [key]\<rparr> else c)"

definition call_value_free :: "('p, 't) M_cache \<Rightarrow> 'p \<Rightarrow> ('p, 't) M_cache" where
  "call_value_free c val = (if c_value_free c then c\<lparr>cvalues_freed := cvalues_freed c @ [val]\<rparr> else c)"

definition cache_key :: "('p, 't) M_cache \<Rightarrow> 'p \<Rightarrow> 'p" where
  "cache_key c key = (case c_key_duplicate c of Some f \<Rightarrow> f key | None \<Rightarrow> key)"

section \<open>Pairs\<close>

definition M_cache_value_create ::
  "('p, 't) M_cache \<Rightarrow> 'p \<Rightarrow> 'p \<Rightarrow> addr \<times> ('p, 't) M_cache" where
  "M_cache_value_create c key val =
     (let cv = \<lparr>cv_key = cache_key c key,
                cv_value = (case c_value_duplicate c of Some f \<Rightarrow> f key | None \<Rightarrow> val)\<rparr>
      in (cval_fresh c, c\<lparr>cvals := (cvals c)(cval_fresh c \<mapsto> cv), cval_fresh := cval_fresh c + 1\<rparr>))"

definition M_cache_value_destroy ::
  "('p::zero, 't) M_cache \<Rightarrow> addr \<Rightarrow> bool \<Rightarrow> ('p, 't) M_cache option" where
  "M_cache_value_destroy c a destroy_container = do {
     cv \<leftarrow> cval_get c a;
     let c = call_key_free c (cv_key cv);
     let c = call_value_free c (cv_value cv);
     if destroy_container then Some (c\<lparr>cvals := (cvals c)(a := None)\<rparr>)
     else cval_set c a \<lparr>cv_key = NULL, cv_value = NULL\<rparr>
   }"

section \<open>Creation and destruction\<close>

text \<open>The inner option is the null pointer; the environment seeds the random numbers.\<close>

definition M_cache_create ::
  "M_uint64 \<Rightarrow> ('p \<Rightarrow> M_uint32 \<Rightarrow> M_uint32) \<Rightarrow> ('p, 't) M_sort_compar_t \<Rightarrow> nat
     \<Rightarrow> ('p \<Rightarrow> M_uint32 \<Rightarrow> M_uint32) option \<Rightarrow> ('p, 't) M_sort_compar_t option
     \<Rightarrow> 'p M_cache_callbacks option \<Rightarrow> ('p, 't::zero) M_cache option option" where
  "M_cache_create env hash_vp compar_vp n hash equal callbacks = do {
     h \<leftarrow> M_hashtable_create env hash_vp compar_vp 16 75 hash equal {} None;
     case h of None \<Rightarrow> Some None
     | Some h \<Rightarrow> (case M_llist_create env None {} of None \<Rightarrow> Some None
         | Some l \<Rightarrow> (let c = \<lparr>kv_table = h, value_list = l, max_size = 0, c_key_duplicate = None, c_key_free = False,
                               c_value_duplicate = None, c_value_free = False, cvals = (\<lambda>_. None), cval_fresh = 1,
                               ckeys_freed = [], cvalues_freed = []\<rparr>;
                        c = (case callbacks of None \<Rightarrow> c
                             | Some cb \<Rightarrow> c\<lparr>c_key_duplicate := ccb_key_duplicate cb, c_key_free := ccb_key_free cb,
                                          c_value_duplicate := ccb_value_duplicate cb, c_value_free := ccb_value_free cb\<rparr>)
                    in Some (Some (c\<lparr>max_size := n\<rparr>))))
   }"

partial_function (option) cache_destroy_loop ::
  "('p::zero, 't) M_cache \<Rightarrow> addr \<Rightarrow> ('p, 't) M_cache option" where
  "cache_destroy_loop c bucket =
     (if bucket \<noteq> NULL then do {
        (a, l) \<leftarrow> M_llist_take_node (value_list c) bucket;
        c \<leftarrow> M_cache_value_destroy (c\<lparr>value_list := l\<rparr>) a True;
        bucket \<leftarrow> M_llist_first (value_list c);
        cache_destroy_loop c bucket
      } else Some c)"

declare cache_destroy_loop.simps [code]

text \<open>The cache as \<open>M_free\<close> finds it.\<close>

definition M_cache_destroy :: "('p::zero, 't::zero) M_cache \<Rightarrow> ('p, 't) M_cache option" where
  "M_cache_destroy c = do {
     h \<leftarrow> M_hashtable_destroy (kv_table c) False;
     let c = c\<lparr>kv_table := h\<rparr>;
     bucket \<leftarrow> M_llist_first (value_list c);
     c \<leftarrow> cache_destroy_loop c bucket;
     l \<leftarrow> M_llist_destroy (value_list c) False;
     Some (c\<lparr>value_list := l\<rparr>)
   }"

section \<open>Insertion\<close>

text \<open>
  The bucket for a key that is not in the cache: the coldest one when the cache is full, else a new
  one. The result has the bucket, its pair, and whether it is new.
\<close>

definition cache_new_bucket ::
  "('p::zero, 't::zero) M_cache \<Rightarrow> 'p \<Rightarrow> 'p \<Rightarrow> (addr \<times> addr \<times> bool \<times> ('p, 't) M_cache) option" where
  "cache_new_bucket c key val =
     (if M_llist_len (value_list c) = max_size c then do {
        let bucket = M_llist_last (value_list c);
        a \<leftarrow> M_llist_node_val (value_list c) bucket;
        cv \<leftarrow> cval_get c a;
        (b, h) \<leftarrow> M_hashtable_remove (kv_table c) (cv_key cv) False;
        c \<leftarrow> M_cache_value_destroy (c\<lparr>kv_table := h\<rparr>) a False;
        cv \<leftarrow> cval_get c a;
        c \<leftarrow> cval_set c a (cv\<lparr>cv_key := cache_key c key\<rparr>);
        Some (bucket, a, False, c)
      } else do {
        let (a, c) = M_cache_value_create c key val;
        (bucket, l) \<leftarrow> M_llist_insert_first (value_list c) a;
        Some (bucket, a, True, c\<lparr>value_list := l\<rparr>)
      })"

text \<open>The value of a pair that is not new.\<close>

definition cache_set_value ::
  "('p::zero, 't) M_cache \<Rightarrow> addr \<Rightarrow> 'p \<Rightarrow> 'p \<Rightarrow> ('p, 't) M_cache option" where
  "cache_set_value c a key val = do {
     cv \<leftarrow> cval_get c a;
     cval_set c a (cv\<lparr>cv_value :=
       (case c_value_duplicate c of Some f \<Rightarrow> if val \<noteq> NULL then f key else val | None \<Rightarrow> val)\<rparr>)
   }"

definition M_cache_insert ::
  "('p::zero, 't::zero) M_cache \<Rightarrow> 'p \<Rightarrow> 'p \<Rightarrow> (bool \<times> ('p, 't) M_cache) option" where
  "M_cache_insert c key val =
     (if key = NULL \<or> max_size c = 0 then Some (False, c)
      else do {
        r \<leftarrow> M_hashtable_get (kv_table c) key;
        let bucket = (case r of None \<Rightarrow> NULL | Some n \<Rightarrow> n);
        (bucket, a, newval, c) \<leftarrow>
          (if bucket = NULL then do {
             (bucket, a, newval, c) \<leftarrow> cache_new_bucket c key val;
             cv \<leftarrow> cval_get c a;
             (b, h) \<leftarrow> M_hashtable_insert (kv_table c) (cv_key cv) bucket;
             Some (bucket, a, newval, c\<lparr>kv_table := h\<rparr>)
           } else do {
             a \<leftarrow> M_llist_node_val (value_list c) bucket;
             cv \<leftarrow> cval_get c a;
             Some (bucket, a, False, call_value_free c (cv_value cv))
           });
        c \<leftarrow> (if \<not> newval then cache_set_value c a key val else Some c);
        l \<leftarrow> M_llist_set_first (value_list c) bucket;
        Some (True, c\<lparr>value_list := l\<rparr>)
      })"

section \<open>Removal and lookup\<close>

definition M_cache_remove ::
  "('p::zero, 't::zero) M_cache \<Rightarrow> 'p \<Rightarrow> (bool \<times> ('p, 't) M_cache) option" where
  "M_cache_remove c key =
     (if key = NULL then Some (False, c)
      else do {
        r \<leftarrow> M_hashtable_get (kv_table c) key;
        case r of None \<Rightarrow> Some (False, c)
        | Some bucket \<Rightarrow> do {
            (a, l) \<leftarrow> M_llist_take_node (value_list c) bucket;
            (b, h) \<leftarrow> M_hashtable_remove (kv_table c) key False;
            c \<leftarrow> M_cache_value_destroy (c\<lparr>value_list := l, kv_table := h\<rparr>) a True;
            Some (True, c)
          }
      })"

text \<open>The inner option is \<open>M_FALSE\<close>; the caller asks for the value.\<close>

definition M_cache_get ::
  "('p::zero, 't::zero) M_cache \<Rightarrow> 'p \<Rightarrow> ('p option \<times> ('p, 't) M_cache) option" where
  "M_cache_get c key =
     (if key = NULL then Some (None, c)
      else do {
        r \<leftarrow> M_hashtable_get (kv_table c) key;
        case r of None \<Rightarrow> Some (None, c)
        | Some bucket \<Rightarrow> do {
            l \<leftarrow> M_llist_set_first (value_list c) bucket;
            let c = c\<lparr>value_list := l\<rparr>;
            a \<leftarrow> M_llist_node_val (value_list c) bucket;
            cv \<leftarrow> cval_get c a;
            Some (Some (cv_value cv), c)
          }
      })"

section \<open>Size\<close>

definition M_cache_size :: "('p, 't) M_cache \<Rightarrow> nat" where
  "M_cache_size c = M_llist_len (value_list c)"

definition M_cache_max_size :: "('p, 't) M_cache \<Rightarrow> nat" where
  "M_cache_max_size c = max_size c"

partial_function (option) cache_shrink_loop ::
  "('p::zero, 't::zero) M_cache \<Rightarrow> nat \<Rightarrow> ('p, 't) M_cache option" where
  "cache_shrink_loop c n =
     (if M_llist_len (value_list c) > n then do {
        let bucket = M_llist_last (value_list c);
        (a, l) \<leftarrow> M_llist_take_node (value_list c) bucket;
        cv \<leftarrow> cval_get c a;
        (b, h) \<leftarrow> M_hashtable_remove (kv_table c) (cv_key cv) False;
        c \<leftarrow> M_cache_value_destroy (c\<lparr>value_list := l, kv_table := h\<rparr>) a True;
        cache_shrink_loop c n
      } else Some c)"

declare cache_shrink_loop.simps [code]

definition M_cache_set_max_size ::
  "('p::zero, 't::zero) M_cache \<Rightarrow> nat \<Rightarrow> (bool \<times> ('p, 't) M_cache) option" where
  "M_cache_set_max_size c n = do {
     c \<leftarrow> cache_shrink_loop c n;
     Some (True, c\<lparr>max_size := n\<rparr>)
   }"

end
