(* ===== verification/Simulation.thy ===== *)
theory Simulation
  imports "HOL-Library.Monad_Syntax"
begin

text \<open>
  Sequences of operations. An operation of a component takes the state to a result and the next
  state, or fails; an operation of a specification never fails. If every operation of the component
  does what the specification says, so does every sequence.
\<close>

fun run :: "('op \<Rightarrow> 'c \<Rightarrow> ('r \<times> 'c) option) \<Rightarrow> 'op list \<Rightarrow> 'c \<Rightarrow> ('r list \<times> 'c) option" where
  "run step [] c = Some ([], c)"
| "run step (x # xs) c = do {
     (r, c) \<leftarrow> step x c;
     (rs, c) \<leftarrow> run step xs c;
     Some (r # rs, c)
   }"

fun spec_run :: "('op \<Rightarrow> 'a \<Rightarrow> 'r \<times> 'a) \<Rightarrow> 'op list \<Rightarrow> 'a \<Rightarrow> 'r list \<times> 'a" where
  "spec_run step [] a = ([], a)"
| "spec_run step (x # xs) a =
     (let (r, a) = step x a; (rs, a) = spec_run step xs a in (r # rs, a))"

text \<open>The precondition of each operation holds when its turn comes.\<close>

fun script_ok :: "('op \<Rightarrow> 'a \<Rightarrow> bool) \<Rightarrow> ('op \<Rightarrow> 'a \<Rightarrow> 'r \<times> 'a) \<Rightarrow> 'op list \<Rightarrow> 'a \<Rightarrow> bool" where
  "script_ok pre step [] a = True"
| "script_ok pre step (x # xs) a = (pre x a \<and> script_ok pre step xs (snd (step x a)))"

locale simulation =
  fixes rel :: "'c \<Rightarrow> 'a \<Rightarrow> bool" and pre :: "'op \<Rightarrow> 'a \<Rightarrow> bool"
    and cstep :: "'op \<Rightarrow> 'c \<Rightarrow> ('r \<times> 'c) option" and astep :: "'op \<Rightarrow> 'a \<Rightarrow> 'r \<times> 'a"
  assumes step: "rel c a \<Longrightarrow> pre x a \<Longrightarrow> \<exists>c'. cstep x c = Some (fst (astep x a), c') \<and> rel c' (snd (astep x a))"
begin

lemma run_refines:
  "rel c a \<Longrightarrow> script_ok pre astep xs a \<Longrightarrow>
    \<exists>c'. run cstep xs c = Some (fst (spec_run astep xs a), c') \<and> rel c' (snd (spec_run astep xs a))"
proof (induction xs arbitrary: c a)
  case (Cons x xs)
  obtain c1 where c1: "cstep x c = Some (fst (astep x a), c1)" "rel c1 (snd (astep x a))"
    using step Cons.prems by fastforce
  from Cons.IH [OF c1(2)] Cons.prems(2) show ?case using c1(1) by (auto simp: case_prod_unfold Let_def)
qed simp

end

end
