(* ===== verification/M_Cache_Spec.thy ===== *)
theory M_Cache_Spec
  imports M_Cache M_Hashtable_Spec M_LList_Spec Simulation
begin

text \<open>
  The cache refines a list of pairs of key and value, the one that was used last in front. The
  invariant ties the three structures together: the nodes of the list, the pairs that they refer to,
  and the table, whose lookup finds the node of a key.
\<close>

section \<open>Invariant\<close>

text \<open>The pair of a node.\<close>

definition pair_of :: "('p, 't) M_cache \<Rightarrow> addr \<Rightarrow> 'p M_cache_value" where
  "pair_of c n = the (cvals c (lval (value_list c) n))"

abbreviation key_of :: "('p, 't) M_cache \<Rightarrow> addr \<Rightarrow> 'p" where
  "key_of c n \<equiv> cv_key (pair_of c n)"

text \<open>The list, and the store of pairs, which has the pairs of the list only.\<close>

definition store_ok :: "('p, 't) M_cache \<Rightarrow> addr list \<Rightarrow> bool" where
  "store_ok c ns \<longleftrightarrow>
     llist_ok (value_list c) ns \<and> \<not> circular (value_list c) \<and> l_duplicate_insert (value_list c) = M_llist_duplicate_func_default \<and>
     distinct (lvals (value_list c) ns) \<and> dom (cvals c) = set (lvals (value_list c) ns) \<and>
     (\<forall>a\<in>dom (cvals c). 0 < a \<and> a < cval_fresh c) \<and> 0 < cval_fresh c"

text \<open>The table for the keys of the nodes.\<close>

definition index_ok :: "('p::zero, addr, 't::zero) M_hashtable \<Rightarrow> (addr \<Rightarrow> 'p) \<Rightarrow> addr list \<Rightarrow> bool" where
  "index_ok h key ns \<longleftrightarrow>
     hash_ok h \<and> key_duplicate_insert h = M_hashtable_duplicate_func_default \<and>
     value_duplicate_insert h = M_hashtable_duplicate_func_default \<and>
     (\<forall>n\<in>set ns. key n \<noteq> 0) \<and> (\<forall>m\<in>set ns. \<forall>n\<in>set ns. keq h (key m) (key n) \<longrightarrow> m = n) \<and>
     (\<forall>k. k \<noteq> 0 \<longrightarrow> lookup h k = find (\<lambda>n. keq h (key n) k) ns) \<and> num_keys h = length ns"

definition cache_ok :: "('p::zero, 't::zero) M_cache \<Rightarrow> addr list \<Rightarrow> bool" where
  "cache_ok c ns \<longleftrightarrow>
     store_ok c ns \<and> index_ok (kv_table c) (key_of c) ns \<and> length ns \<le> max_size c \<and> max_size c + 1 < SIZE_MOD"

text \<open>The abstraction: the pairs in the order of the list.\<close>

definition pairs :: "('p, 't) M_cache \<Rightarrow> addr list \<Rightarrow> ('p \<times> 'p) list" where
  "pairs c ns = map (\<lambda>n. (key_of c n, cv_value (pair_of c n))) ns"

section \<open>The index\<close>

lemma find_unique:
  assumes "\<And>m n. m \<in> set ns \<Longrightarrow> n \<in> set ns \<Longrightarrow> P m \<Longrightarrow> P n \<Longrightarrow> m = n" "n \<in> set ns" "P n"
  shows "find P ns = Some n"
proof (cases "find P ns")
  case None
  then show ?thesis using assms(2,3) by (auto simp: find_None_iff)
next
  case (Some m)
  then have "m \<in> set ns" "P m" by (auto simp: find_Some_iff)
  then show ?thesis using Some assms by blast
qed

lemma index_keq:
  assumes "index_ok h key ns" "m \<in> set ns" "n \<in> set ns" "keq h (key m) k" "keq h (key n) k"
  shows "m = n"
proof -
  have "tbl_ok h" using assms(1) by (simp add: index_ok_def hash_ok_def)
  then have "keq h (key m) (key n)" using assms(4,5) keq_contract by blast
  then show ?thesis using assms(1-3) by (auto simp: index_ok_def)
qed

lemma index_lookup:
  assumes "index_ok h key ns" "k \<noteq> 0"
  shows "n \<in> set ns \<Longrightarrow> keq h (key n) k \<Longrightarrow> lookup h k = Some n"
    "lookup h k = Some n \<Longrightarrow> n \<in> set ns \<and> keq h (key n) k"
    "lookup h k = None \<longleftrightarrow> (\<forall>n\<in>set ns. \<not> keq h (key n) k)"
proof -
  have l: "lookup h k = find (\<lambda>n. keq h (key n) k) ns" using assms by (simp add: index_ok_def)
  show "n \<in> set ns \<Longrightarrow> keq h (key n) k \<Longrightarrow> lookup h k = Some n"
    unfolding l by (rule find_unique) (use index_keq [OF assms(1)] in blast)
  show "lookup h k = Some n \<Longrightarrow> n \<in> set ns \<and> keq h (key n) k" unfolding l by (auto simp: find_Some_iff)
  show "lookup h k = None \<longleftrightarrow> (\<forall>n\<in>set ns. \<not> keq h (key n) k)" unfolding l find_None_iff by blast
qed

text \<open>A table is an index if its lookups are right.\<close>

lemma index_intro:
  assumes "hash_ok h" "key_duplicate_insert h = M_hashtable_duplicate_func_default"
    "value_duplicate_insert h = M_hashtable_duplicate_func_default" "num_keys h = length ns"
    "\<forall>n\<in>set ns. key n \<noteq> 0" "\<And>m n. m \<in> set ns \<Longrightarrow> n \<in> set ns \<Longrightarrow> keq h (key m) (key n) \<Longrightarrow> m = n"
    "\<And>k n. k \<noteq> 0 \<Longrightarrow> n \<in> set ns \<Longrightarrow> keq h (key n) k \<Longrightarrow> lookup h k = Some n"
    "\<And>k. k \<noteq> 0 \<Longrightarrow> \<forall>n\<in>set ns. \<not> keq h (key n) k \<Longrightarrow> lookup h k = None"
  shows "index_ok h key ns"
proof -
  have "tbl_ok h" using assms(1) by (simp add: hash_ok_def)
  have "lookup h k = find (\<lambda>n. keq h (key n) k) ns" if "k \<noteq> 0" for k
  proof (cases "find (\<lambda>n. keq h (key n) k) ns")
    case None
    then have "\<forall>n\<in>set ns. \<not> keq h (key n) k" unfolding find_None_iff by blast
    then show ?thesis using assms(8) [OF that] None by simp
  next
    case (Some n)
    then have "n \<in> set ns" "keq h (key n) k" by (auto simp: find_Some_iff)
    then show ?thesis using assms(7) [OF that] Some by simp
  qed
  then show ?thesis unfolding index_ok_def using assms(1-6) by blast
qed

text \<open>The order of the nodes does not matter.\<close>

lemma index_reorder:
  assumes "index_ok h key ns" "set ns' = set ns" "length ns' = length ns"
  shows "index_ok h key ns'"
proof (rule index_intro)
  show "lookup h k = Some n" if "k \<noteq> 0" "n \<in> set ns'" "keq h (key n) k" for k n
    using index_lookup(1) [OF assms(1) that(1)] that assms(2) by simp
  show "lookup h k = None" if "k \<noteq> 0" "\<forall>n\<in>set ns'. \<not> keq h (key n) k" for k
    using index_lookup(3) [OF assms(1) that(1)] that assms(2) by simp
  show "m = n" if "m \<in> set ns'" "n \<in> set ns'" "keq h (key m) (key n)" for m n
    using assms(1,2) that by (auto simp: index_ok_def)
qed (use assms in \<open>auto simp: index_ok_def\<close>)


text \<open>Adding a node for a new key, and removing one.\<close>

lemma index_put:
  assumes i: "index_ok h key ns" and n: "n \<notin> set ns" and k: "k \<noteq> 0" "\<forall>m\<in>set ns. \<not> keq h (key m) k"
    and put: "table_put h k n h'" and key: "key' n = k" "\<And>m. m \<in> set ns \<Longrightarrow> key' m = key m"
  shows "index_ok h' key' (n # ns)"
proof -
  have t: "tbl_ok h" using i by (simp add: index_ok_def hash_ok_def)
  have st: "key_equality h' = key_equality h" "hash_ok h'" "key_duplicate_insert h' = key_duplicate_insert h"
    "value_duplicate_insert h' = value_duplicate_insert h" using put by (simp_all add: table_put_def same_table_def)
  have l: "lookup h' j = (if keq h k j then Some n else lookup h j)" if "j \<noteq> 0" for j using put that by (simp add: table_put_def)
  have ne: "\<not> (keq h k j \<and> keq h (key m) j)" if "m \<in> set ns" for m j using k(2) that keq_contract [OF t] by blast
  have nk: "\<not> keq h k (key m)" "\<not> keq h (key m) k" if "m \<in> set ns" for m
    using ne [OF that] keq_contract(1,2) [OF t] by blast+
  show ?thesis
  proof (rule index_intro)
    show "num_keys h' = length (n # ns)"
      using put i index_lookup(3) [OF i k(1)] k(2) by (simp add: table_put_def index_ok_def)
    show "\<forall>m\<in>set (n # ns). key' m \<noteq> 0" using i k(1) key by (simp add: index_ok_def)
    show "m = m'" if "m \<in> set (n # ns)" "m' \<in> set (n # ns)" "keq h' (key' m) (key' m')" for m m'
      using that i key nk unfolding index_ok_def st(1) by auto
    show "lookup h' j = Some m" if "j \<noteq> 0" "m \<in> set (n # ns)" "keq h' (key' m) j" for j m
      using that key l [OF that(1)] ne [of m j] index_lookup(1) [OF i that(1), of m] unfolding st(1) by auto
    show "lookup h' j = None" if "j \<noteq> 0" "\<forall>m\<in>set (n # ns). \<not> keq h' (key' m) j" for j
      using that key l [OF that(1)] index_lookup(3) [OF i that(1)] unfolding st(1) by auto
  qed (use st i in \<open>auto simp: index_ok_def\<close>)
qed


text \<open>The same for the operations of the table.\<close>

lemma index_insert:
  assumes i: "index_ok h key ns" and n: "n \<notin> set ns" and k: "k \<noteq> 0" "\<forall>m\<in>set ns. \<not> keq h (key m) k"
    and len: "length ns + 1 < SIZE_MOD" and key: "key' n = k" "\<And>m. m \<in> set ns \<Longrightarrow> key' m = key m"
  shows "\<exists>h'. M_hashtable_insert h k n = Some (True, h') \<and> index_ok h' key' (n # ns) \<and> key_equality h' = key_equality h"
proof -
  have h: "hash_ok h" "key_duplicate_insert h k = k" "value_duplicate_insert h n = n" "num_keys h + 1 < SIZE_MOD"
    using i len by (simp_all add: index_ok_def M_hashtable_duplicate_func_default_def)
  then have "keq h k k" using keq_contract(1) [of h k] by (simp add: hash_ok_def)
  then obtain h' where h': "M_hashtable_insert h k n = Some (True, h')" "table_put h k n h'"
    using insert_put [OF h(1) k(1), of n] h k(1) by auto
  moreover have "key_equality h' = key_equality h" using h'(2) by (simp add: table_put_def same_table_def)
  ultimately show ?thesis using index_put [OF i n k h'(2), of key'] key by blast
qed


section \<open>The list and the pairs\<close>

lemma store_simps [simp]:
  "store_ok (c\<lparr>kv_table := h\<rparr>) ns = store_ok c ns" "store_ok (c\<lparr>ckeys_freed := ks\<rparr>) ns = store_ok c ns"
  "store_ok (c\<lparr>cvalues_freed := ks\<rparr>) ns = store_ok c ns" "store_ok (c\<lparr>max_size := m\<rparr>) ns = store_ok c ns"
  "pair_of (c\<lparr>kv_table := h\<rparr>) = pair_of c" "pair_of (c\<lparr>ckeys_freed := ks\<rparr>) = pair_of c"
  "pair_of (c\<lparr>cvalues_freed := ks\<rparr>) = pair_of c" "pair_of (c\<lparr>max_size := m\<rparr>) = pair_of c"
  by (simp_all add: store_ok_def pair_of_def fun_eq_iff)

lemma call_free_simps [simp]:
  "value_list (call_key_free c k) = value_list c" "value_list (call_value_free c k) = value_list c"
  "kv_table (call_key_free c k) = kv_table c" "kv_table (call_value_free c k) = kv_table c"
  "cvals (call_key_free c k) = cvals c" "cvals (call_value_free c k) = cvals c"
  "max_size (call_key_free c k) = max_size c" "max_size (call_value_free c k) = max_size c"
  "c_key_duplicate (call_key_free c k) = c_key_duplicate c" "c_key_duplicate (call_value_free c k) = c_key_duplicate c"
  "c_value_duplicate (call_key_free c k) = c_value_duplicate c" "c_value_duplicate (call_value_free c k) = c_value_duplicate c"
  "store_ok (call_key_free c k) ns = store_ok c ns" "store_ok (call_value_free c k) ns = store_ok c ns"
  "pair_of (call_key_free c k) = pair_of c" "pair_of (call_value_free c k) = pair_of c"
  "cval_get (call_key_free c k) = cval_get c" "cval_get (call_value_free c k) = cval_get c"
  by (simp_all add: call_key_free_def call_value_free_def cval_get_def fun_eq_iff)

lemma store_node:
  assumes "store_ok c ns" "n \<in> set ns"
  shows "n \<noteq> 0" "M_llist_node_val (value_list c) n = Some (lval (value_list c) n)" "lval (value_list c) n \<noteq> 0"
    "cval_get c (lval (value_list c) n) = Some (pair_of c n)" "cvals c (lval (value_list c) n) = Some (pair_of c n)"
proof -
  have l: "linked (value_list c) ns" using assms(1) by (simp add: store_ok_def llist_ok_def)
  then have "0 \<notin> set ns" by (simp add: linked_def)
  then show n: "n \<noteq> 0" using assms(2) by metis
  obtain x where "nodes (value_list c) n = Some x" using linked_node [OF l assms(2)] by blast
  then show "M_llist_node_val (value_list c) n = Some (lval (value_list c) n)"
    using n by (simp add: M_llist_node_val_def node_get_def lval_def)
  have "lval (value_list c) n \<in> dom (cvals c)" using assms by (simp add: store_ok_def)
  moreover show "lval (value_list c) n \<noteq> 0" using calculation assms(1) by (auto simp: store_ok_def)
  ultimately show "cval_get c (lval (value_list c) n) = Some (pair_of c n)" "cvals c (lval (value_list c) n) = Some (pair_of c n)"
    by (auto simp: cval_get_def pair_of_def)
qed

lemma store_lval_eq:
  assumes "store_ok c ns" "m \<in> set ns" "n \<in> set ns"
  shows "lval (value_list c) m = lval (value_list c) n \<longleftrightarrow> m = n"
proof -
  have "inj_on (lval (value_list c)) (set ns)" using assms(1) by (simp add: store_ok_def distinct_map)
  then show ?thesis using assms(2,3) by (auto simp: inj_on_def)
qed


lemma store_set_first:
  assumes "store_ok c (xs @ n # ys)"
  shows "\<exists>l. M_llist_set_first (value_list c) n = Some l \<and> store_ok (c\<lparr>value_list := l\<rparr>) (n # xs @ ys) \<and>
    pair_of (c\<lparr>value_list := l\<rparr>) = pair_of c"
proof -
  have "llist_ok (value_list c) (xs @ n # ys)" "\<not> circular (value_list c)" using assms by (simp_all add: store_ok_def)
  then obtain l where l: "M_llist_set_first (value_list c) n = Some l" "moved (value_list c) (n # xs @ ys) l"
    using set_first_ok by fastforce
  then have "lval l = lval (value_list c)" "llist_ok l (n # xs @ ys)" "same_cfg (value_list c) l" by (auto simp: moved_def)
  moreover have "pair_of (c\<lparr>value_list := l\<rparr>) = pair_of c" using calculation(1) by (simp add: pair_of_def fun_eq_iff)
  ultimately show ?thesis using l(1) assms by (auto simp: store_ok_def same_cfg_def)
qed

text \<open>Taking a node off the list together with its pair.\<close>

lemma store_take:
  assumes "store_ok c (xs @ n # ys)"
  shows "\<exists>l. M_llist_take_node (value_list c) n = Some (lval (value_list c) n, l) \<and>
    store_ok (c\<lparr>value_list := l, cvals := (cvals c)(lval (value_list c) n := None)\<rparr>) (xs @ ys) \<and>
    (\<forall>m\<in>set (xs @ ys). pair_of (c\<lparr>value_list := l, cvals := (cvals c)(lval (value_list c) n := None)\<rparr>) m = pair_of c m)"
proof -
  let ?a = "lval (value_list c) n"
  have d: "distinct (xs @ n # ys)" using assms by (simp add: store_ok_def llist_ok_def linked_def)
  have "llist_ok (value_list c) (xs @ n # ys)" "\<not> circular (value_list c)" using assms by (simp_all add: store_ok_def)
  then obtain l where l: "M_llist_take_remove_node (value_list c) n False = Some (True, ?a, l)" "removed (value_list c) (xs @ ys) [] l"
    using take_remove_ok [of "value_list c" xs n ys False] by auto
  then have r: "\<forall>m\<in>set (xs @ ys). lval l m = lval (value_list c) m" "llist_ok l (xs @ ys)" "same_cfg (value_list c) l"
    by (auto simp: removed_def)
  then have v: "lvals l (xs @ ys) = lvals (value_list c) (xs @ ys)" by simp
  have ne: "lval (value_list c) m \<noteq> ?a" if "m \<in> set (xs @ ys)" for m
    using store_lval_eq [OF assms, of m n] that d by auto
  have "dom ((cvals c)(?a := None)) = set (lvals l (xs @ ys))" unfolding v
    using assms ne by (auto simp: store_ok_def)
  moreover have "distinct (lvals l (xs @ ys))" unfolding v using assms by (simp add: store_ok_def)
  ultimately have "store_ok (c\<lparr>value_list := l, cvals := (cvals c)(?a := None)\<rparr>) (xs @ ys)"
    using r assms by (auto simp: store_ok_def same_cfg_def)
  moreover have "\<forall>m\<in>set (xs @ ys). pair_of (c\<lparr>value_list := l, cvals := (cvals c)(?a := None)\<rparr>) m = pair_of c m"
    using r(1) ne by (auto simp: pair_of_def)
  moreover have "M_llist_take_node (value_list c) n = Some (?a, l)" using l(1) by (simp add: M_llist_take_node_def)
  ultimately show ?thesis by blast
qed

text \<open>A new node in front, with a new pair.\<close>

lemma store_new:
  fixes c :: "('p, 't) M_cache" and cv :: "'p M_cache_value"
  assumes "store_ok c ns" "length ns + 1 < SIZE_MOD"
  defines "c1 \<equiv> c\<lparr>cvals := (cvals c)(cval_fresh c \<mapsto> cv), cval_fresh := cval_fresh c + 1\<rparr>"
  shows "\<exists>n l. M_llist_insert_first (value_list c) (cval_fresh c) = Some (n, l) \<and> n \<notin> set ns \<and>
    store_ok (c1\<lparr>value_list := l\<rparr>) (n # ns) \<and> lval l n = cval_fresh c \<and> pair_of (c1\<lparr>value_list := l\<rparr>) n = cv \<and>
    (\<forall>m\<in>set ns. pair_of (c1\<lparr>value_list := l\<rparr>) m = pair_of c m)"
proof -
  let ?n = "fresh (value_list c)"
  have s: "llist_ok (value_list c) ns" "0 < cval_fresh c" "l_duplicate_insert (value_list c) (cval_fresh c) = cval_fresh c"
    using assms(1) by (simp_all add: store_ok_def M_llist_duplicate_func_default_def)
  obtain l where l: "M_llist_insert_first (value_list c) (cval_fresh c) = Some (?n, l)" "llist_ok l (?n # ns)"
    "lval l = (lval (value_list c))(?n := cval_fresh c)" "same_cfg (value_list c) l"
    using insert_first_ok [OF s(1) _ assms(2), of "cval_fresh c"] s(2,3) by (auto simp: inserted_def)
  have n: "?n \<notin> set ns" using s(1) by (auto simp: llist_ok_def)
  then have v: "lvals l (?n # ns) = cval_fresh c # lvals (value_list c) ns" using l(3) by auto
  have fr: "cval_fresh c \<notin> set (lvals (value_list c) ns)" using assms(1) by (auto simp: store_ok_def)
  have "distinct (lvals l (?n # ns))" unfolding v using fr assms(1) by (simp add: store_ok_def)
  moreover have "dom (cvals c1) = set (lvals l (?n # ns))" unfolding v using assms(1) by (auto simp: store_ok_def c1_def)
  moreover have "\<forall>a\<in>dom (cvals c1). 0 < a \<and> a < cval_fresh c1"
    using assms(1) by (auto simp: store_ok_def c1_def intro: less_SucI)
  ultimately have "store_ok (c1\<lparr>value_list := l\<rparr>) (?n # ns)"
    using assms(1) l(2,4) unfolding store_ok_def by (simp add: c1_def same_cfg_def)
  moreover have "pair_of (c1\<lparr>value_list := l\<rparr>) ?n = cv" by (simp add: pair_of_def c1_def l(3))
  moreover have "pair_of (c1\<lparr>value_list := l\<rparr>) m = pair_of c m" if "m \<in> set ns" for m
  proof -
    have "lval (value_list c) m \<noteq> cval_fresh c" "m \<noteq> ?n" using that n fr by (auto simp: image_iff)
    then show ?thesis by (simp add: pair_of_def c1_def l(3))
  qed
  ultimately show ?thesis using l(1,3) n by auto
qed

section \<open>Lookup and removal\<close>

text \<open>The value that is kept: the source duplicates the key in its place.\<close>

definition kept_value :: "('p, 't) M_cache \<Rightarrow> 'p \<Rightarrow> 'p \<Rightarrow> 'p" where
  "kept_value c key val = (case c_value_duplicate c of Some f \<Rightarrow> f key | None \<Rightarrow> val)"

text \<open>The settings of the cache.\<close>

definition same_cache :: "('p, 't) M_cache \<Rightarrow> ('p, 't) M_cache \<Rightarrow> bool" where
  "same_cache c c' \<longleftrightarrow>
     max_size c' = max_size c \<and> c_key_duplicate c' = c_key_duplicate c \<and> c_key_free c' = c_key_free c \<and>
     c_value_duplicate c' = c_value_duplicate c \<and> c_value_free c' = c_value_free c \<and>
     key_equality (kv_table c') = key_equality (kv_table c)"

abbreviation ceq :: "('p, 't::zero) M_cache \<Rightarrow> 'p \<Rightarrow> 'p \<Rightarrow> bool" where
  "ceq c \<equiv> keq (kv_table c)"

lemma cache_lookup:
  assumes "cache_ok c ns" "key \<noteq> 0"
  shows "M_hashtable_get (kv_table c) key = Some (find (\<lambda>n. ceq c (key_of c n) key) ns)"
proof -
  have "tbl_ok (kv_table c)" using assms(1) by (simp add: cache_ok_def index_ok_def hash_ok_def)
  then show ?thesis using assms get_lookup [of "kv_table c" key] by (auto simp: cache_ok_def index_ok_def)
qed




text \<open>A hit of the lookup moves the pair to the front.\<close>

lemma cache_hit_front:
  assumes "cache_ok c (xs @ n # ys)"
  shows "\<exists>l. M_llist_set_first (value_list c) n = Some l \<and> cache_ok (c\<lparr>value_list := l\<rparr>) (n # xs @ ys) \<and>
    pair_of (c\<lparr>value_list := l\<rparr>) = pair_of c"
proof -
  obtain l where l: "M_llist_set_first (value_list c) n = Some l" "store_ok (c\<lparr>value_list := l\<rparr>) (n # xs @ ys)"
    "pair_of (c\<lparr>value_list := l\<rparr>) = pair_of c" using store_set_first [of c xs n ys] assms by (auto simp: cache_ok_def)
  moreover have "index_ok (kv_table c) (key_of c) (n # xs @ ys)"
    using index_reorder [of "kv_table c" "key_of c" "xs @ n # ys"] assms by (auto simp: cache_ok_def)
  ultimately show ?thesis using assms by (auto simp: cache_ok_def)
qed




section \<open>Insertion\<close>

lemma kept_value_simps [simp]:
  "kept_value (c\<lparr>kv_table := h\<rparr>) = kept_value c" "kept_value (c\<lparr>cvals := p\<rparr>) = kept_value c"
  "kept_value (call_value_free c v) = kept_value c" "cache_key (call_value_free c v) = cache_key c"
  "cache_key (c\<lparr>kv_table := h\<rparr>) = cache_key c" "cache_key (c\<lparr>cvals := p\<rparr>) = cache_key c"
  by (simp_all add: kept_value_def call_value_free_def cache_key_def fun_eq_iff)


text \<open>The pairs after a change of one.\<close>

lemma pairs_cong: "(\<And>m. m \<in> set ns \<Longrightarrow> pair_of c' m = pair_of c m) \<Longrightarrow> pairs c' ns = pairs c ns"
  by (simp add: pairs_def)


text \<open>A key that is not in the index; its copy is not in there either.\<close>

lemma new_key:
  assumes "index_ok h key ns" "keq h k' k" "\<forall>n\<in>set ns. \<not> keq h (key n) k"
  shows "\<forall>n\<in>set ns. \<not> keq h (key n) k'"
proof -
  have "tbl_ok h" using assms(1) by (simp add: index_ok_def hash_ok_def)
  from keq_contract(3) [OF this _ assms(2)] show ?thesis using assms(3) by blast
qed

text \<open>A new key in a cache that has room.\<close>

lemma insert_room:
  assumes "cache_ok c ns" "cache_key c key \<noteq> 0" "ceq c (cache_key c key) key" "key \<noteq> 0"
    "\<forall>n\<in>set ns. \<not> ceq c (key_of c n) key" "length ns < max_size c"
  shows "\<exists>c' n. M_cache_insert c key val = Some (True, c') \<and> cache_ok c' (n # ns) \<and>
    pairs c' (n # ns) = (cache_key c key, kept_value c key val) # pairs c ns \<and> same_cache c c' \<and>
    ckeys_freed c' = ckeys_freed c \<and> cvalues_freed c' = cvalues_freed c"
proof -
  let ?cv = "\<lparr>cv_key = cache_key c key, cv_value = kept_value c key val\<rparr>"
  define c1 where "c1 = c\<lparr>cvals := (cvals c)(cval_fresh c \<mapsto> ?cv), cval_fresh := cval_fresh c + 1\<rparr>"
  have i: "index_ok (kv_table c) (key_of c) ns" and s: "store_ok c ns" and len: "length ns + 1 < SIZE_MOD"
    using assms(1,6) by (simp_all add: cache_ok_def)
  have g: "M_hashtable_get (kv_table c) key = Some None"
    using cache_lookup [OF assms(1,4)] assms(5) by (simp add: find_None_iff)
  obtain n l where l: "M_llist_insert_first (value_list c) (cval_fresh c) = Some (n, l)" "n \<notin> set ns"
    "store_ok (c1\<lparr>value_list := l\<rparr>) (n # ns)" "lval l n = cval_fresh c" "pair_of (c1\<lparr>value_list := l\<rparr>) n = ?cv"
    "\<And>m. m \<in> set ns \<Longrightarrow> pair_of (c1\<lparr>value_list := l\<rparr>) m = pair_of c m"
    using store_new [OF s len, of ?cv] unfolding c1_def [symmetric] by blast
  have k: "\<forall>m\<in>set ns. \<not> ceq c (key_of c m) (cache_key c key)" using new_key [OF i assms(3,5)] .
  obtain h where h: "M_hashtable_insert (kv_table c) (cache_key c key) n = Some (True, h)"
    "index_ok h (key_of (c1\<lparr>value_list := l\<rparr>)) (n # ns)" "key_equality h = key_equality (kv_table c)"
    using index_insert [OF i l(2) assms(2) k len, of "key_of (c1\<lparr>value_list := l\<rparr>)"] l(5,6) by auto
  define c2 where "c2 = c1\<lparr>value_list := l, kv_table := h\<rparr>"
  have s2: "store_ok c2 (n # ns)" and p2: "pair_of c2 = pair_of (c1\<lparr>value_list := l\<rparr>)" using l(3)
    by (simp_all add: c2_def store_ok_def pair_of_def fun_eq_iff)
  have "index_ok h (key_of c2) (n # ns)" using h(2) p2 by simp
  then have ok2: "cache_ok c2 ([] @ n # ns)"
    using s2 assms(1,6) by (simp add: cache_ok_def c2_def c1_def)
  then obtain l' where l': "M_llist_set_first (value_list c2) n = Some l'" "cache_ok (c2\<lparr>value_list := l'\<rparr>) (n # ns)"
    "pair_of (c2\<lparr>value_list := l'\<rparr>) = pair_of c2" using cache_hit_front [OF ok2] by auto
  have "M_llist_len (value_list c) = length ns" using s by (simp add: store_ok_def llist_ok_def M_llist_len_def)
  then have "cache_new_bucket c key val = Some (n, cval_fresh c, True, c1\<lparr>value_list := l\<rparr>)"
    using l(1) assms(6) by (simp add: cache_new_bucket_def M_cache_value_create_def kept_value_def c1_def)
  moreover have "cval_get (c1\<lparr>value_list := l\<rparr>) (cval_fresh c) = Some ?cv" using s by (simp add: c1_def cval_get_def store_ok_def)
  ultimately have "M_cache_insert c key val = Some (True, c2\<lparr>value_list := l'\<rparr>)"
    using assms(4,6) g h(1) l'(1) by (simp add: M_cache_insert_def c2_def c1_def)
  moreover have "pairs (c2\<lparr>value_list := l'\<rparr>) ns = pairs c ns" by (rule pairs_cong) (use l'(3) p2 l(6) in auto)
  ultimately show ?thesis using l'(2,3) p2 l(5) h(3)
    by (auto simp: pairs_def same_cache_def c2_def c1_def)
qed





section \<open>Size and destruction\<close>


lemma destroy_loop_done: "cache_destroy_loop c 0 = Some c"
  by (simp add: cache_destroy_loop.simps)

lemma cache_destroy_loop_ok:
  assumes "store_ok c ns"
  shows "\<exists>c'. cache_destroy_loop c (first_of ns) = Some c' \<and> store_ok c' [] \<and>
    ckeys_freed c' = ckeys_freed c @ (if c_key_free c then map fst (pairs c ns) else []) \<and>
    cvalues_freed c' = cvalues_freed c @ (if c_value_free c then map snd (pairs c ns) else [])"
  using assms
proof (induction ns arbitrary: c)
  case Nil
  then show ?case by (simp add: destroy_loop_done pairs_def)
next
  case (Cons n ns)
  let ?a = "lval (value_list c) n"
  obtain l where l: "M_llist_take_node (value_list c) n = Some (?a, l)"
    "store_ok (c\<lparr>value_list := l, cvals := (cvals c)(?a := None)\<rparr>) ns"
    "\<And>m. m \<in> set ns \<Longrightarrow> pair_of (c\<lparr>value_list := l, cvals := (cvals c)(?a := None)\<rparr>) m = pair_of c m"
    using store_take [of c "[]" n ns] Cons.prems by auto
  define c1 where "c1 = c\<lparr>value_list := l, cvals := (cvals c)(?a := None),
    ckeys_freed := ckeys_freed c @ (if c_key_free c then [key_of c n] else []),
    cvalues_freed := cvalues_freed c @ (if c_value_free c then [cv_value (pair_of c n)] else [])\<rparr>"
  have n: "n \<noteq> 0" "?a \<noteq> 0" "cvals c ?a = Some (pair_of c n)" using store_node [OF Cons.prems] by simp_all
  have d: "M_cache_value_destroy (c\<lparr>value_list := l\<rparr>) ?a True = Some c1"
    using n by (simp add: M_cache_value_destroy_def cval_get_def call_key_free_def call_value_free_def c1_def)
  have s: "store_ok c1 ns" using l(2) by (simp add: c1_def store_ok_def)
  then have "M_llist_first (value_list c1) = Some (first_of ns)"
    by (simp add: store_ok_def llist_ok_def linked_def M_llist_first_def)
  then have "cache_destroy_loop c n = cache_destroy_loop c1 (first_of ns)"
    using n(1) l(1) d by (subst cache_destroy_loop.simps) simp
  moreover have "pairs c1 ns = pairs c ns" by (rule pairs_cong) (use l(3) in \<open>auto simp: c1_def pair_of_def\<close>)
  moreover have "c_key_free c1 = c_key_free c" "c_value_free c1 = c_value_free c" by (simp_all add: c1_def)
  ultimately show ?case using Cons.IH [OF s] by (auto simp: c1_def pairs_def)
qed

lemma cache_destroy_ok:
  assumes "cache_ok c ns"
  shows "\<exists>c'. M_cache_destroy c = Some c' \<and> cvals c' = (\<lambda>_. None) \<and> nodes (value_list c') = (\<lambda>_. None) \<and>
    ckeys_freed c' = ckeys_freed c @ (if c_key_free c then map fst (pairs c ns) else []) \<and>
    cvalues_freed c' = cvalues_freed c @ (if c_value_free c then map snd (pairs c ns) else [])"
proof -
  have t: "tbl_ok (kv_table c)" and s: "store_ok c ns" using assms by (simp_all add: cache_ok_def index_ok_def hash_ok_def)
  obtain h where h: "M_hashtable_destroy (kv_table c) False = Some h" using table_destroy_ok [OF t] by blast
  have "store_ok (c\<lparr>kv_table := h\<rparr>) ns" using s by simp
  from cache_destroy_loop_ok [OF this] obtain c1 where c1: "cache_destroy_loop (c\<lparr>kv_table := h\<rparr>) (first_of ns) = Some c1" "store_ok c1 []"
    "ckeys_freed c1 = ckeys_freed c @ (if c_key_free c then map fst (pairs c ns) else [])"
    "cvalues_freed c1 = cvalues_freed c @ (if c_value_free c then map snd (pairs c ns) else [])"
    by (auto simp: pairs_def)
  have "M_llist_first (value_list c) = Some (first_of ns)"
    using s by (simp add: store_ok_def llist_ok_def linked_def M_llist_first_def)
  moreover have "M_llist_destroy (value_list c1) False = Some (value_list c1)" "nodes (value_list c1) = (\<lambda>_. None)" "cvals c1 = (\<lambda>_. None)"
    using c1(2) by (auto simp: store_ok_def llist_ok_def linked_def M_llist_destroy_def M_llist_first_def)
  ultimately show ?thesis using h c1 by (auto simp: M_cache_destroy_def)
qed

section \<open>Refinement of a list of pairs\<close>




















section \<open>Creation\<close>

lemma cache_table_ok:
  fixes eq :: "('p::zero, 't::zero) M_sort_compar_t"
  assumes "hash_contract eq hs"
  shows "\<exists>h :: ('p, addr, 't) M_hashtable. M_hashtable_create env hvp cvp 16 75 (Some hs) (Some eq) {} None = Some (Some h) \<and>
    (\<forall>key. index_ok h key []) \<and> key_equality h = eq"
proof -
  let ?cb = "\<lparr>hcb_key_duplicate_insert = None, hcb_key_duplicate_copy = None, hcb_key_free = False,
    hcb_value_duplicate_insert = None, hcb_value_duplicate_copy = None, hcb_value_equality = None,
    hcb_value_free = False\<rparr> :: ('p, addr, 't) M_hashtable_callbacks"
  have "(16::nat) \<le> 2 ^ 63" by simp
  from create_ok [OF _ this _ _ assms, of 75 "{}" env hvp cvp ?cb] obtain h where h:
    "M_hashtable_create env hvp cvp 16 75 (Some hs) (Some eq) {} (Some ?cb) = Some (Some h)" "hash_ok h"
    "\<forall>k. k \<noteq> 0 \<longrightarrow> lookup h k = None" "num_keys h = 0" "key_equality h = eq"
    "key_duplicate_insert h = M_hashtable_duplicate_func_default" "value_duplicate_insert h = M_hashtable_duplicate_func_default"
    by (auto simp: or_default_def)
  have "M_hashtable_create env hvp cvp 16 75 (Some hs) (Some eq) {} None =
    M_hashtable_create env hvp cvp 16 75 (Some hs) (Some eq) {} (Some ?cb)"
    unfolding M_hashtable_create_def by (simp add: Let_def)
  then show ?thesis using h by (simp add: index_ok_def)
qed

lemma cache_create_ok:
  fixes eq :: "('p::zero, 't::zero) M_sort_compar_t"
  assumes "hash_contract eq hs" "n + 1 < SIZE_MOD"
  shows "\<exists>c. M_cache_create env hvp cvp n (Some hs) (Some eq) (Some cb) = Some (Some c) \<and> cache_ok c [] \<and> max_size c = n \<and>
    key_equality (kv_table c) = eq \<and> c_key_duplicate c = ccb_key_duplicate cb \<and> c_key_free c = ccb_key_free cb \<and>
    c_value_duplicate c = ccb_value_duplicate cb \<and> c_value_free c = ccb_value_free cb \<and> ckeys_freed c = [] \<and> cvalues_freed c = []"
proof -
  obtain h :: "('p, addr, 't) M_hashtable" where h: "M_hashtable_create env hvp cvp 16 75 (Some hs) (Some eq) {} None = Some (Some h)"
    "\<forall>key. index_ok h key []" "key_equality h = eq" using cache_table_ok [OF assms(1)] by blast
  obtain l :: "(addr, 't) M_llist" where l: "M_llist_create env None {} = Some l" "llist_ok l []" "\<not> circular l"
    "l_duplicate_insert l = M_llist_duplicate_func_default"
    by (simp add: M_llist_create_def llist_ok_def linked_def links_def)
  show ?thesis using h l assms(2)
    by (simp add: M_cache_create_def cache_ok_def store_ok_def)
qed

section \<open>Properties\<close>


abbreviation demo_cache_callbacks :: "M_uint64 option M_cache_callbacks" where
  "demo_cache_callbacks \<equiv> \<lparr>ccb_key_duplicate = None, ccb_key_free = True, ccb_value_duplicate = None, ccb_value_free = True\<rparr>"

abbreviation demo_vp_hash :: "M_uint64 option \<Rightarrow> M_uint32 \<Rightarrow> M_uint32" where
  "demo_vp_hash k \<equiv> (case k of None \<Rightarrow> (\<lambda>s. 0) | Some p \<Rightarrow> M_hash_func_hash_vp p)"


text \<open>
  C33. Destroying a cache frees every pair once, its key and its value to the callbacks that are
  registered for them, and leaves no pair and no node allocated.
\<close>

theorem M_cache_destroy_correct:
  assumes "cache_ok c ns"
  shows "\<exists>c'. M_cache_destroy c = Some c' \<and> cvals c' = (\<lambda>_. None) \<and> nodes (value_list c') = (\<lambda>_. None) \<and>
    ckeys_freed c' = ckeys_freed c @ (if c_key_free c then map fst (pairs c ns) else []) \<and>
    cvalues_freed c' = cvalues_freed c @ (if c_value_free c then map snd (pairs c ns) else [])"
  using assms by (rule cache_destroy_ok)

theorem M_cache_destroy_correct_witness:
  "\<exists>c c1 c2. M_cache_create 1 (\<lambda>k s. 0) M_sort_compar_vp 2 (Some demo_vp_hash)
      (Some (M_sort_compar_vp :: (M_uint64 option, nat) M_sort_compar_t)) (Some demo_cache_callbacks) = Some (Some c) \<and>
    M_cache_insert c (Some 1) (Some 10) = Some (True, c1) \<and> M_cache_destroy c1 = Some c2 \<and>
    cvals c2 = (\<lambda>_. None) \<and> ckeys_freed c2 = [Some 1] \<and> cvalues_freed c2 = [Some 10]"
proof -
  have two: "2 + 1 < SIZE_MOD" by (simp add: SIZE_MOD_def)
  from cache_create_ok [OF vp_hash.hash_contract_axioms two, of 1 "\<lambda>k s. 0" M_sort_compar_vp demo_cache_callbacks]
  obtain c :: "(M_uint64 option, nat) M_cache" where c: "M_cache_create 1 (\<lambda>k s. 0) M_sort_compar_vp 2 (Some demo_vp_hash)
      (Some M_sort_compar_vp) (Some demo_cache_callbacks) = Some (Some c)" "cache_ok c []" "max_size c = 2"
    "key_equality (kv_table c) = M_sort_compar_vp" "c_key_duplicate c = None" "c_value_duplicate c = None"
    "c_key_free c" "c_value_free c" "ckeys_freed c = []" "cvalues_freed c = []" by auto
  have "cache_key c (Some 1) = Some 1" "kept_value c (Some 1) (Some 10) = Some 10"
    using c(5,6) by (simp_all add: cache_key_def kept_value_def)
  then obtain c1 n where c1: "M_cache_insert c (Some 1) (Some 10) = Some (True, c1)" "cache_ok c1 [n]"
    "pairs c1 [n] = [(Some 1, Some 10)]" "same_cache c c1" "ckeys_freed c1 = []" "cvalues_freed c1 = []"
    using insert_room [OF c(2), of "Some 1" "Some 10"] c(3,4,9,10)
    by (auto simp: zero_option_def M_sort_compar_vp_def pairs_def)
  from M_cache_destroy_correct [OF c1(2)] show ?thesis
    using c(1,7,8) c1 by (auto simp: same_cache_def)
qed

end
