(* ===== verification/M_Utf8.thy ===== *)
theory M_Utf8
  imports Sort_Compar
begin

text \<open>
  UTF-8 (\<^verbatim>\<open>src/base/utf8/m_utf8.c\<close>): the width of a sequence, the validity of a code point,
  decoding and encoding of one code point, validation, counting and access by index.

  A string is the list of its bytes up to the terminator, and a pointer into it the rest of the list,
  \<open>None\<close> being the null pointer. The functions take the old values of the variables that they may
  write through a pointer and return the new ones. The outer option of a result is \<open>None\<close> if the
  code dereferences the null pointer or writes outside the output.
\<close>

section \<open>Bytes and code points\<close>

datatype M_utf8_error =
    M_UTF8_ERROR_SUCCESS | M_UTF8_ERROR_BAD_START | M_UTF8_ERROR_TRUNCATED | M_UTF8_ERROR_EXPECT_CONTINUE
  | M_UTF8_ERROR_BAD_CODE_POINT | M_UTF8_ERROR_OVERLONG | M_UTF8_ERROR_INVALID_PARAM

definition M_utf8_is_continue :: "M_uint8 \<Rightarrow> bool" where
  "M_utf8_is_continue byte = (byte \<ge> 0x80 \<and> byte \<le> 0xBF)"

definition M_utf8_byte_width :: "M_uint8 \<Rightarrow> nat" where
  "M_utf8_byte_width byte =
     (if byte \<le> 0x7F then 1
      else if byte \<ge> 0x80 \<and> byte \<le> 0xBF then 0
      else if byte \<ge> 0xC2 \<and> byte \<le> 0xDF then 2
      else if byte \<ge> 0xE0 \<and> byte \<le> 0xEF then 3
      else if byte \<ge> 0xF0 \<and> byte \<le> 0xF4 then 4
      else 0)"

definition M_utf8_cp_width :: "M_uint32 \<Rightarrow> nat" where
  "M_utf8_cp_width cp =
     (if cp \<le> 0x7F then 1
      else if cp \<ge> 0x80 \<and> cp \<le> 0x7FF then 2
      else if cp \<ge> 0x800 \<and> cp \<le> 0xFFFF then 3
      else 4)"

definition M_utf8_is_valid_cp :: "M_uint32 \<Rightarrow> bool" where
  "M_utf8_is_valid_cp cp =
     (if cp > 0x10FFFF then False
      else if cp \<ge> 0xD800 \<and> cp \<le> 0xDFFF then False
      else if cp = 0xFFFE \<or> cp = 0xFFFF \<or> cp = 0x1FFFE \<or> cp = 0x1FFFF \<or> cp = 0x2FFFE \<or> cp = 0x2FFFF \<or>
        cp = 0x3FFFE \<or> cp = 0x3FFFF \<or> cp = 0x4FFFE \<or> cp = 0x4FFFF \<or> cp = 0x5FFFE \<or> cp = 0x5FFFF \<or>
        cp = 0x6FFFE \<or> cp = 0x6FFFF \<or> cp = 0x7FFFE \<or> cp = 0x7FFFF \<or> cp = 0x8FFFE \<or> cp = 0x8FFFF \<or>
        cp = 0x9FFFE \<or> cp = 0x9FFFF \<or> cp = 0x10FFFE \<or> cp = 0x10FFFF \<or>
        (cp \<ge> 0xFDD0 \<and> cp \<le> 0xFDEF) then False
      else True)"

section \<open>Decoding\<close>

text \<open>The byte at an index of a string; the terminator past the end.\<close>

definition str_at :: "bytes \<Rightarrow> nat \<Rightarrow> M_uint8" where
  "str_at s i = chr0 (drop i s)"

text \<open>The loop over the bytes that continue a sequence.\<close>

function utf8_check_continues :: "bytes \<Rightarrow> nat \<Rightarrow> nat \<Rightarrow> M_utf8_error" where
  "utf8_check_continues s i width =
     (if i < width then
        if str_at s i = 0 then M_UTF8_ERROR_TRUNCATED
        else if \<not> M_utf8_is_continue (str_at s i) then M_UTF8_ERROR_EXPECT_CONTINUE
        else utf8_check_continues s (i + 1) width
      else M_UTF8_ERROR_SUCCESS)"
  by pat_completeness auto

termination
  by (relation "measure (\<lambda>(s, i, width). width - i)") auto

declare utf8_check_continues.simps [simp del]

definition utf8_join :: "bytes \<Rightarrow> nat \<Rightarrow> M_uint32" where
  "utf8_join s width =
     (let b = (\<lambda>i. ucast (str_at s i) :: M_uint32) in
      if width = 2 then push_bit 6 (b 0 AND 0x1F) OR (b 1 AND 0x3F)
      else if width = 3 then push_bit 12 (b 0 AND 0x0F) OR push_bit 6 (b 1 AND 0x3F) OR (b 2 AND 0x3F)
      else push_bit 18 (b 0 AND 0x07) OR push_bit 12 (b 1 AND 0x3F) OR push_bit 6 (b 2 AND 0x3F) OR (b 3 AND 0x3F))"

text \<open>The result, the code point and the start of the next character.\<close>

definition M_utf8_get_cp :: "bytes option \<Rightarrow> M_uint32 \<Rightarrow> bytes option \<Rightarrow> M_utf8_error \<times> M_uint32 \<times> bytes option" where
  "M_utf8_get_cp strp cp next =
     (case strp of None \<Rightarrow> (M_UTF8_ERROR_INVALID_PARAM, cp, next)
      | Some s \<Rightarrow>
          if str_at s 0 = 0 then (M_UTF8_ERROR_SUCCESS, 0, Some s)
          else let width = M_utf8_byte_width (str_at s 0) in
            if width = 0 then (M_UTF8_ERROR_BAD_START, 0, None)
            else if width > 4 then (M_UTF8_ERROR_BAD_CODE_POINT, 0, None)
            else if width = 1 then (M_UTF8_ERROR_SUCCESS, ucast (str_at s 0), Some (drop 1 s))
            else let res = utf8_check_continues s 1 width in
              if res \<noteq> M_UTF8_ERROR_SUCCESS then (res, 0, None)
              else let mycp = utf8_join s width in
                if \<not> M_utf8_is_valid_cp mycp then (M_UTF8_ERROR_BAD_CODE_POINT, 0, None)
                else if width \<noteq> M_utf8_cp_width mycp then (M_UTF8_ERROR_OVERLONG, 0, None)
                else (M_UTF8_ERROR_SUCCESS, mycp, Some (drop width s)))"

section \<open>Encoding\<close>

definition utf8_put :: "bytes \<Rightarrow> nat \<Rightarrow> M_uint32 \<Rightarrow> bytes option" where
  "utf8_put buf width cp =
     (if width = 1 then arr_set buf 0 (ucast cp)
      else if width = 2 then do {
        buf \<leftarrow> arr_set buf 0 (ucast (0xC0 OR (drop_bit 6 cp AND 0x3F)));
        arr_set buf 1 (ucast (0x80 OR (cp AND 0x3F)))
      } else if width = 3 then do {
        buf \<leftarrow> arr_set buf 0 (ucast (0xE0 OR (drop_bit 12 cp AND 0x3F)));
        buf \<leftarrow> arr_set buf 1 (ucast (0x80 OR (drop_bit 6 cp AND 0x3F)));
        arr_set buf 2 (ucast (0x80 OR (cp AND 0x3F)))
      } else do {
        buf \<leftarrow> arr_set buf 0 (ucast (0xF0 OR (drop_bit 18 cp AND 0x3F)));
        buf \<leftarrow> arr_set buf 1 (ucast (0x80 OR (drop_bit 12 cp AND 0x3F)));
        buf \<leftarrow> arr_set buf 2 (ucast (0x80 OR (drop_bit 6 cp AND 0x3F)));
        arr_set buf 3 (ucast (0x80 OR (cp AND 0x3F)))
      })"

text \<open>The variable for the length may be missing, then its pointer is null.\<close>

definition M_utf8_from_cp ::
  "bytes option \<Rightarrow> nat \<Rightarrow> nat option \<Rightarrow> M_uint32 \<Rightarrow> (M_utf8_error \<times> bytes option \<times> nat option) option" where
  "M_utf8_from_cp buf buf_size len cp =
     (case (buf, len) of
        (Some b, Some _) \<Rightarrow>
          if \<not> M_utf8_is_valid_cp cp then Some (M_UTF8_ERROR_BAD_CODE_POINT, buf, len)
          else let width = M_utf8_cp_width cp in
            if width = 0 then Some (M_UTF8_ERROR_BAD_CODE_POINT, buf, len)
            else if width > buf_size then Some (M_UTF8_ERROR_TRUNCATED, buf, len)
            else if width \<noteq> 1 \<and> width \<noteq> 2 \<and> width \<noteq> 3 \<and> width \<noteq> 4 then Some (M_UTF8_ERROR_BAD_CODE_POINT, buf, len)
            else do { b \<leftarrow> utf8_put b width cp; Some (M_UTF8_ERROR_SUCCESS, Some b, Some width) }
      | _ \<Rightarrow> Some (M_UTF8_ERROR_INVALID_PARAM, buf, len))"

definition M_utf8_get_chr ::
  "bytes option \<Rightarrow> bytes option \<Rightarrow> nat \<Rightarrow> nat option \<Rightarrow> bytes option
     \<Rightarrow> (M_utf8_error \<times> bytes option \<times> nat option \<times> bytes option) option" where
  "M_utf8_get_chr strp buf buf_size len next =
     (let (res, cp, next) = M_utf8_get_cp strp 0 next in
      if res \<noteq> M_UTF8_ERROR_SUCCESS then Some (res, buf, len, next)
      else if buf = None \<or> buf_size = 0 then Some (M_UTF8_ERROR_SUCCESS, buf, len, next)
      else do {
        (res, buf, len) \<leftarrow> M_utf8_from_cp buf buf_size len cp;
        Some (res, buf, len, next)
      })"

section \<open>Strings\<close>

definition M_str_isempty :: "bytes option \<Rightarrow> bool" where
  "M_str_isempty s = (case s of None \<Rightarrow> True | Some s \<Rightarrow> chr0 s = 0)"

lemma get_cp_shorter:
  assumes "M_utf8_get_cp (Some s) cp next = (M_UTF8_ERROR_SUCCESS, cp', next')" "chr0 s \<noteq> 0"
  shows "\<exists>s'. next' = Some s' \<and> length s' < length s"
proof -
  have "s \<noteq> []" using assms(2) by (auto simp: chr0_def)
  then show ?thesis using assms by (auto simp: M_utf8_get_cp_def str_at_def Let_def split: if_splits)
qed

lemma get_cp_decreases:
  "(M_UTF8_ERROR_SUCCESS, cp', next') = M_utf8_get_cp (Some s) cp next \<Longrightarrow> chr0 s \<noteq> 0 \<Longrightarrow> length (the next') < length s"
  using get_cp_shorter [of s cp "next" cp' next'] by auto

text \<open>The loop of the validation; the result has the success, the end pointer and the count.\<close>

function utf8_validate_loop ::
  "M_utf8_error \<Rightarrow> bytes option \<Rightarrow> bytes option \<Rightarrow> nat \<Rightarrow> (M_utf8_error \<times> bytes option \<times> bytes option \<times> nat) option" where
  "utf8_validate_loop res strp endptr len =
     (if res = M_UTF8_ERROR_SUCCESS then
        (case strp of None \<Rightarrow> None
         | Some s \<Rightarrow>
             if chr0 s \<noteq> 0 then
               let endptr = strp; (res, _, next) = M_utf8_get_cp strp 0 None in utf8_validate_loop res next endptr (len + 1)
             else Some (res, strp, endptr, len))
      else Some (res, strp, endptr, len))"
  by pat_completeness auto

termination
  by (relation "measure (\<lambda>(res, strp, endptr, len). if res = M_UTF8_ERROR_SUCCESS then Suc (length (the strp)) else 0)")
    (auto split: if_splits dest: get_cp_decreases)

declare utf8_validate_loop.simps [simp del]

definition M_utf8_validate_int :: "bytes option \<Rightarrow> bytes option \<Rightarrow> nat \<Rightarrow> (bool \<times> bytes option \<times> nat) option" where
  "M_utf8_validate_int strp endptr len =
     (if M_str_isempty strp then Some (False, endptr, len)
      else do {
        (res, strp, endptr, len) \<leftarrow> utf8_validate_loop M_UTF8_ERROR_SUCCESS strp endptr len;
        if res \<noteq> M_UTF8_ERROR_SUCCESS then Some (False, endptr, len)
        else Some (True, strp, len)
      })"

definition M_utf8_is_valid :: "bytes option \<Rightarrow> (bool \<times> bytes option) option" where
  "M_utf8_is_valid strp =
     (if M_str_isempty strp then Some (True, strp)
      else do { (b, endptr, len) \<leftarrow> M_utf8_validate_int strp strp 0; Some (b, endptr) })"

fun utf8_skip_continues :: "bytes \<Rightarrow> bytes" where
  "utf8_skip_continues [] = []"
| "utf8_skip_continues (c # s) = (if M_utf8_is_continue c then utf8_skip_continues s else c # s)"

definition M_utf8_next_chr :: "bytes option \<Rightarrow> bytes option" where
  "M_utf8_next_chr strp =
     (case strp of None \<Rightarrow> None
      | Some s \<Rightarrow> if M_str_isempty strp then None else Some (utf8_skip_continues (drop 1 s)))"

definition M_utf8_cnt :: "bytes option \<Rightarrow> nat option" where
  "M_utf8_cnt strp = do {
     (b, endptr, len) \<leftarrow> M_utf8_validate_int strp None 0;
     Some (if \<not> b then 0 else len)
   }"

text \<open>The loop of the access by index: \<open>next\<close> is dereferenced first.\<close>

function utf8_cp_at_loop ::
  "M_utf8_error \<Rightarrow> bytes option \<Rightarrow> nat \<Rightarrow> nat \<Rightarrow> M_uint32 \<Rightarrow> (M_utf8_error \<times> nat \<times> M_uint32) option" where
  "utf8_cp_at_loop res strp i idx cp =
     (case strp of None \<Rightarrow> None
      | Some s \<Rightarrow>
          if chr0 s \<noteq> 0 \<and> res = M_UTF8_ERROR_SUCCESS then
            let (res, cp, next) = M_utf8_get_cp strp cp strp in
            if i = idx then Some (res, i, cp) else utf8_cp_at_loop res next (i + 1) idx cp
          else Some (res, i, cp))"
  by pat_completeness auto

termination
  by (relation "measure (\<lambda>(res, strp, i, idx, cp). if res = M_UTF8_ERROR_SUCCESS then Suc (length (the strp)) else 0)")
    (auto split: if_splits dest: get_cp_decreases)

declare utf8_cp_at_loop.simps [simp del]

definition M_utf8_cp_at :: "bytes option \<Rightarrow> nat \<Rightarrow> M_uint32 \<Rightarrow> (M_utf8_error \<times> M_uint32) option" where
  "M_utf8_cp_at strp idx cp =
     (if M_str_isempty strp then Some (M_UTF8_ERROR_INVALID_PARAM, cp)
      else do {
        (res, i, cp) \<leftarrow> utf8_cp_at_loop M_UTF8_ERROR_SUCCESS strp 0 idx cp;
        if res \<noteq> M_UTF8_ERROR_SUCCESS then Some (res, cp)
        else if i \<noteq> idx then Some (M_UTF8_ERROR_INVALID_PARAM, cp)
        else Some (M_UTF8_ERROR_SUCCESS, cp)
      })"

definition M_utf8_chr_at ::
  "bytes option \<Rightarrow> bytes option \<Rightarrow> nat \<Rightarrow> nat option \<Rightarrow> nat \<Rightarrow> (M_utf8_error \<times> bytes option \<times> nat option) option" where
  "M_utf8_chr_at strp buf buf_size len idx = do {
     (res, cp) \<leftarrow> M_utf8_cp_at strp idx 0;
     if res \<noteq> M_UTF8_ERROR_SUCCESS then Some (res, buf, len)
     else M_utf8_from_cp buf buf_size len cp
   }"

end
