(* ===== verification/M_Utf8_Ok.thy ===== *)
theory M_Utf8_Ok
  imports M_Utf8
begin

text \<open>
  The codec of one code point against the definition of UTF-8: a reference encoding by division,
  which the encoder writes and which the decoder accepts. The bit operations of both are turned into
  arithmetic on natural numbers first.
\<close>

section \<open>Words as numbers\<close>

lemma unat_and_mask: "unat (w AND mask k) = unat w mod 2 ^ k" for w :: "'a::len word"
  unfolding take_bit_eq_mask [symmetric] unsigned_take_bit_eq by (rule take_bit_eq_mod)

lemma unat_and_masks:
  "unat (w AND 0x3F) = unat w mod 64" "unat (w AND 0x1F) = unat w mod 32" "unat (w AND 0x0F) = unat w mod 16"
  "unat (w AND 0x07) = unat w mod 8" for w :: M_uint32
  using unat_and_mask [of w 6] unat_and_mask [of w 5] unat_and_mask [of w 4] unat_and_mask [of w 3]
  by (simp_all add: mask_eq_exp_minus_1)

text \<open>Parts that do not overlap.\<close>

lemma unat_join:
  fixes x y :: M_uint32
  assumes "unat y < 2 ^ k" "unat x * 2 ^ k + unat y < 2 ^ 32"
  shows "unat (push_bit k x OR y) = unat x * 2 ^ k + unat y"
proof -
  have "y = take_bit k y"
    unfolding word_unat_eq_iff unsigned_take_bit_eq using assms(1) by (simp add: take_bit_nat_eq_self)
  then have "\<not> bit y n" if "k \<le> n" for n using that by (metis bit_take_bit_iff not_le)
  then have "push_bit k x AND y = 0" by (auto intro!: bit_word_eqI simp: bit_simps)
  then have "push_bit k x OR y = push_bit k x + y" by (simp add: disjunctive_add_eq_or)
  moreover have "unat (push_bit k x) = unat x * 2 ^ k"
    unfolding unsigned_push_bit_eq using assms(2) by (simp add: push_bit_eq_mult take_bit_nat_eq_self)
  ultimately show ?thesis using assms(2) by (simp add: unat_add_lem [THEN iffD1])
qed

section \<open>Reference encoding\<close>

definition utf8_nums :: "nat \<Rightarrow> nat list" where
  "utf8_nums c =
     (if c < 0x80 then [c]
      else if c < 0x800 then [0xC0 + c div 64, 0x80 + c mod 64]
      else if c < 0x10000 then [0xE0 + c div 4096, 0x80 + c div 64 mod 64, 0x80 + c mod 64]
      else [0xF0 + c div 262144, 0x80 + c div 4096 mod 64, 0x80 + c div 64 mod 64, 0x80 + c mod 64])"

definition utf8_bytes :: "M_uint32 \<Rightarrow> bytes" where
  "utf8_bytes cp = map of_nat (utf8_nums (unat cp))"

lemma length_utf8_bytes: "length (utf8_bytes cp) = M_utf8_cp_width cp"
  by (simp add: utf8_bytes_def utf8_nums_def M_utf8_cp_width_def word_le_nat_alt)

lemma valid_cp_le: "M_utf8_is_valid_cp cp \<Longrightarrow> unat cp \<le> 0x10FFFF"
  by (simp add: M_utf8_is_valid_cp_def word_less_nat_alt split: if_splits)

text \<open>
  The code points of Unicode without the surrogates, and the noncharacters: the last two code points of
  every plane, a plane being \<open>0x10000\<close> code points, and a range of plane 0. The source refuses the
  noncharacters except for those of the planes 10 to 15, which its list leaves out.
\<close>

definition scalar_value :: "nat \<Rightarrow> bool" where
  "scalar_value n \<longleftrightarrow> n \<le> 0x10FFFF \<and> (n < 0xD800 \<or> 0xDFFF < n)"

definition noncharacter :: "nat \<Rightarrow> bool" where
  "noncharacter n \<longleftrightarrow> 0xFFFE \<le> n mod 0x10000 \<or> (0xFDD0 \<le> n \<and> n \<le> 0xFDEF)"

definition accepted_cp :: "M_uint32 \<Rightarrow> bool" where
  "accepted_cp cp \<longleftrightarrow> scalar_value (unat cp) \<and>
     (\<not> noncharacter (unat cp) \<or> (10 \<le> unat cp div 0x10000 \<and> unat cp div 0x10000 \<le> 15))"

lemma accepted_num:
  fixes n :: nat
  assumes "n \<le> 0x10FFFF"
  shows "(0xFFFE \<le> n mod 0x10000 \<and> \<not> (10 \<le> n div 0x10000 \<and> n div 0x10000 \<le> 15)) \<longleftrightarrow>
    n \<in> {0xFFFE, 0xFFFF, 0x1FFFE, 0x1FFFF, 0x2FFFE, 0x2FFFF, 0x3FFFE, 0x3FFFF, 0x4FFFE, 0x4FFFF, 0x5FFFE, 0x5FFFF,
      0x6FFFE, 0x6FFFF, 0x7FFFE, 0x7FFFF, 0x8FFFE, 0x8FFFF, 0x9FFFE, 0x9FFFF, 0x10FFFE, 0x10FFFF}"
proof
  assume l: "0xFFFE \<le> n mod 0x10000 \<and> \<not> (10 \<le> n div 0x10000 \<and> n div 0x10000 \<le> 15)"
  define p r where "p = n div 0x10000" and "r = n mod 0x10000"
  have n: "n = 0x10000 * p + r" "r < 0x10000" by (simp_all add: p_def r_def)
  then have "p \<le> 16" using assms by simp
  moreover have "p < 10 \<or> 15 < p" using l by (auto simp: p_def)
  ultimately have "p < 10 \<or> p = 16" by linarith
  then have "p = 0 \<or> p = 1 \<or> p = 2 \<or> p = 3 \<or> p = 4 \<or> p = 5 \<or> p = 6 \<or> p = 7 \<or> p = 8 \<or> p = 9 \<or> p = 16"
    by (simp only: less_Suc_eq numeral_eq_Suc) auto
  moreover have "r = 0xFFFE \<or> r = 0xFFFF" using l n(2) by (auto simp: r_def)
  ultimately show "n \<in> {0xFFFE, 0xFFFF, 0x1FFFE, 0x1FFFF, 0x2FFFE, 0x2FFFF, 0x3FFFE, 0x3FFFF, 0x4FFFE, 0x4FFFF, 0x5FFFE, 0x5FFFF,
      0x6FFFE, 0x6FFFF, 0x7FFFE, 0x7FFFF, 0x8FFFE, 0x8FFFF, 0x9FFFE, 0x9FFFF, 0x10FFFE, 0x10FFFF}"
    unfolding n(1) by (elim disjE; simp)
qed (elim insertE; simp)

lemma valid_cp_iff: "M_utf8_is_valid_cp cp \<longleftrightarrow> accepted_cp cp"
proof (cases "unat cp \<le> 0x10FFFF")
  case True
  have f: "0xFDD0 \<le> unat cp \<Longrightarrow> unat cp \<le> 0xFDEF \<Longrightarrow> unat cp div 0x10000 = 0" by simp
  have "M_utf8_is_valid_cp cp \<longleftrightarrow> \<not> (0xD800 \<le> unat cp \<and> unat cp \<le> 0xDFFF) \<and>
    \<not> (0xFFFE \<le> unat cp mod 0x10000 \<and> \<not> (10 \<le> unat cp div 0x10000 \<and> unat cp div 0x10000 \<le> 15)) \<and>
    \<not> (0xFDD0 \<le> unat cp \<and> unat cp \<le> 0xFDEF)"
    unfolding accepted_num [OF True] using True
    by (simp add: M_utf8_is_valid_cp_def word_less_nat_alt word_le_nat_alt word_unat_eq_iff)
  with True f show ?thesis unfolding accepted_cp_def scalar_value_def noncharacter_def by linarith
next
  case False
  then show ?thesis by (simp add: M_utf8_is_valid_cp_def accepted_cp_def scalar_value_def word_less_nat_alt)
qed

text \<open>The bytes of the encoder.\<close>

lemma lead_byte:
  fixes w a :: M_uint32
  assumes "unat w < 2 ^ k" "unat a = 2 ^ k * j" "k \<le> 6" "j < 256" "n = unat a + unat w"
  shows "ucast (a OR (w AND 0x3F)) = (of_nat n :: M_uint8)"
proof -
  have "w AND 0x3F = w" using assms(1,3) power_increasing [of k 6 "2::nat"] unat_and_masks(1) [of w]
    by (simp add: word_unat_eq_iff)
  moreover have a: "a = push_bit k (of_nat j)"
    using arg_cong [OF assms(2), of "of_nat :: nat \<Rightarrow> M_uint32"] by (simp add: push_bit_eq_mult mult.commute)
  moreover have "unat (of_nat j :: M_uint32) = j" using assms(4) by (simp add: unsigned_of_nat take_bit_nat_eq_self)
  moreover have "2 ^ k * j + unat w < 2 ^ 32"
  proof -
    have "(2::nat) ^ k \<le> 2 ^ 6" using assms(3) by (intro power_increasing) simp_all
    then have "2 ^ k * j \<le> 64 * 255" "unat w < 64" using assms(1,4) mult_le_mono [of "2 ^ k" 64 j 255] by auto
    then show ?thesis by simp
  qed
  ultimately have "unat (a OR (w AND 0x3F)) = n"
    using unat_join [of w k "of_nat j"] assms(1,2,5) by (simp add: mult.commute)
  then have "of_nat n = (of_nat (unat (a OR (w AND 0x3F))) :: M_uint8)" by simp
  then show ?thesis by simp
qed

lemma tail_byte: "ucast (0x80 OR (w AND 0x3F)) = (of_nat (0x80 + unat w mod 64) :: M_uint8)" for w :: M_uint32
  using lead_byte [of "w AND 0x3F" 6 "0x80" 2] by (simp add: unat_and_masks del: of_nat_add)

lemma unat_drop_bit: "unat (drop_bit k w) = unat w div 2 ^ k" for w :: M_uint32
  unfolding unsigned_drop_bit_eq using unsigned_less [of w, where 'a = nat] by (simp add: drop_bit_eq_div take_bit_nat_eq_self)

text \<open>The encoder writes the reference encoding.\<close>

lemma utf8_put_ok:
  assumes "M_utf8_is_valid_cp cp" "M_utf8_cp_width cp \<le> length buf"
  shows "utf8_put buf (M_utf8_cp_width cp) cp = Some (utf8_bytes cp @ drop (M_utf8_cp_width cp) buf)"
proof -
  let ?c = "unat cp"
  have c: "?c \<le> 0x10FFFF" using valid_cp_le [OF assms(1)] .
  have tail: "ucast (0x80 OR (drop_bit k cp AND 0x3F)) = (of_nat (0x80 + ?c div 2 ^ k mod 64) :: M_uint8)" for k
    unfolding tail_byte unat_drop_bit ..
  consider (1) "?c < 0x80" | (2) "0x80 \<le> ?c" "?c < 0x800" | (3) "0x800 \<le> ?c" "?c < 0x10000" | (4) "0x10000 \<le> ?c" by linarith
  then show ?thesis
  proof cases
    case 1
    then have w: "M_utf8_cp_width cp = 1" by (simp add: M_utf8_cp_width_def word_le_nat_alt)
    with assms(2) obtain b bs where "buf = b # bs" by (cases buf) auto
    then show ?thesis using 1 by (simp add: w utf8_put_def arr_set_def utf8_bytes_def utf8_nums_def)
  next
    case 2
    then have w: "M_utf8_cp_width cp = 2" by (simp add: M_utf8_cp_width_def word_le_nat_alt)
    with assms(2) obtain b0 b1 bs where buf: "buf = b0 # b1 # bs" by (auto simp: numeral_2_eq_2 Suc_le_length_iff)
    have "ucast (0xC0 OR (drop_bit 6 cp AND 0x3F)) = (of_nat (0xC0 + ?c div 64) :: M_uint8)"
      by (rule lead_byte [of _ 5 _ 6]) (use 2 in \<open>simp_all add: unat_drop_bit\<close>)
    then show ?thesis using 2 tail_byte [of cp] by (simp add: w buf utf8_put_def arr_set_def utf8_bytes_def utf8_nums_def del: of_nat_add)
  next
    case 3
    then have w: "M_utf8_cp_width cp = 3" by (simp add: M_utf8_cp_width_def word_le_nat_alt)
    with assms(2) obtain b0 b1 b2 bs where buf: "buf = b0 # b1 # b2 # bs" by (auto simp: numeral_3_eq_3 Suc_le_length_iff)
    have "ucast (0xE0 OR (drop_bit 12 cp AND 0x3F)) = (of_nat (0xE0 + ?c div 4096) :: M_uint8)"
      by (rule lead_byte [of _ 4 _ 14]) (use 3 in \<open>simp_all add: unat_drop_bit\<close>)
    then show ?thesis using 3 tail_byte [of cp] tail [of 6]
      by (simp add: w buf utf8_put_def arr_set_def utf8_bytes_def utf8_nums_def del: of_nat_add)
  next
    case 4
    then have w: "M_utf8_cp_width cp = 4" by (simp add: M_utf8_cp_width_def word_le_nat_alt)
    with assms(2) obtain b0 b1 b2 b3 bs where buf: "buf = b0 # b1 # b2 # b3 # bs"
      by (auto simp: numeral_eq_Suc Suc_le_length_iff)
    have "ucast (0xF0 OR (drop_bit 18 cp AND 0x3F)) = (of_nat (0xF0 + ?c div 262144) :: M_uint8)"
      by (rule lead_byte [of _ 3 _ 30]) (use c in \<open>simp_all add: unat_drop_bit\<close>)
    then show ?thesis using 4 tail_byte [of cp] tail [of 6] tail [of 12]
      by (simp add: w buf utf8_put_def arr_set_def utf8_bytes_def utf8_nums_def del: of_nat_add)
  qed
qed

section \<open>Decoding\<close>

lemma check_continues_iff:
  "utf8_check_continues s i w = M_UTF8_ERROR_SUCCESS \<longleftrightarrow> (\<forall>k. i \<le> k \<and> k < w \<longrightarrow> M_utf8_is_continue (str_at s k))"
proof (induction s i w rule: utf8_check_continues.induct)
  case (1 s i w)
  have z: "\<not> M_utf8_is_continue 0" by (simp add: M_utf8_is_continue_def)
  have "(\<forall>k. i \<le> k \<and> k < w \<longrightarrow> M_utf8_is_continue (str_at s k)) \<longleftrightarrow>
    M_utf8_is_continue (str_at s i) \<and> (\<forall>k. i + 1 \<le> k \<and> k < w \<longrightarrow> M_utf8_is_continue (str_at s k))" if "i < w"
    using that by (metis Suc_eq_plus1 Suc_le_eq le_eq_less_or_eq)
  then show ?case using 1 z by (subst utf8_check_continues.simps) (auto split: if_splits)
qed

lemma continue_num: "M_utf8_is_continue b \<longleftrightarrow> 0x80 \<le> unat b \<and> unat b \<le> 0xBF"
  by (simp add: M_utf8_is_continue_def word_le_nat_alt)

lemma str_at_simps [simp]: "str_at (c # s) 0 = c" "str_at (c # s) (Suc i) = str_at s i" "str_at [] i = 0"
  by (simp_all add: str_at_def chr0_def)

lemma str_at_length: "str_at s i \<noteq> 0 \<Longrightarrow> i < length s"
  by (simp add: str_at_def chr0_def split: list.splits) (metis drop_eq_Nil list.distinct(1) not_le)

lemma unat_ucast32: "unat (ucast b :: M_uint32) = unat b" for b :: M_uint8
  by (simp add: unsigned_ucast_eq take_bit_nat_eq_self order_less_trans [OF unsigned_less])

lemma unat_joins:
  fixes a b c d :: M_uint32
  assumes "unat a < 32" "unat b < 64" "unat c < 64" "unat d < 64"
  shows "unat (push_bit 6 a OR b) = unat a * 64 + unat b"
    "unat (push_bit 12 a OR push_bit 6 b OR c) = unat a * 4096 + (unat b * 64 + unat c)"
    "unat (push_bit 18 a OR push_bit 12 b OR push_bit 6 c OR d) = unat a * 262144 + (unat b * 4096 + (unat c * 64 + unat d))"
proof -
  have j: "unat (push_bit 6 x OR y) = unat x * 64 + unat y" if "unat x < 64" "unat y < 64" for x y :: M_uint32
    using unat_join [of y 6 x] that by simp
  show "unat (push_bit 6 a OR b) = unat a * 64 + unat b" using assms by (simp add: j)
  show "unat (push_bit 12 a OR push_bit 6 b OR c) = unat a * 4096 + (unat b * 64 + unat c)"
    using unat_join [of "push_bit 6 b OR c" 12 a] assms by (simp add: j)
  have "unat (push_bit 12 b OR push_bit 6 c OR d) = unat b * 4096 + (unat c * 64 + unat d)"
    using unat_join [of "push_bit 6 c OR d" 12 b] assms by (simp add: j)
  then show "unat (push_bit 18 a OR push_bit 12 b OR push_bit 6 c OR d) = unat a * 262144 + (unat b * 4096 + (unat c * 64 + unat d))"
    using unat_join [of "push_bit 12 b OR push_bit 6 c OR d" 18 a] assms by simp
qed

lemma join_num:
  "unat (utf8_join s 2) = unat (str_at s 0) mod 32 * 64 + unat (str_at s 1) mod 64"
  "unat (utf8_join s 3) = unat (str_at s 0) mod 16 * 4096 + (unat (str_at s 1) mod 64 * 64 + unat (str_at s 2) mod 64)"
  "unat (utf8_join s 4) = unat (str_at s 0) mod 8 * 262144 +
     (unat (str_at s 1) mod 64 * 4096 + (unat (str_at s 2) mod 64 * 64 + unat (str_at s 3) mod 64))"
proof -
  have m: "n mod 16 < 32" "n mod 8 < 32" for n :: nat
    using mod_less_divisor [of 16 n] mod_less_divisor [of 8 n] by linarith+
  note masks = unat_and_masks unat_ucast32 m
  show "unat (utf8_join s 2) = unat (str_at s 0) mod 32 * 64 + unat (str_at s 1) mod 64"
    unfolding utf8_join_def Let_def by (simp only: refl if_True, subst unat_joins(1) [where c = 0 and d = 0]) (simp_all add: masks)
  show "unat (utf8_join s 3) = unat (str_at s 0) mod 16 * 4096 + (unat (str_at s 1) mod 64 * 64 + unat (str_at s 2) mod 64)"
    unfolding utf8_join_def Let_def by (simp only: refl if_True if_False numeral_eq_iff num.distinct semiring_norm, subst unat_joins(2) [where d = 0]) (simp_all add: masks)
  show "unat (utf8_join s 4) = unat (str_at s 0) mod 8 * 262144 +
     (unat (str_at s 1) mod 64 * 4096 + (unat (str_at s 2) mod 64 * 64 + unat (str_at s 3) mod 64))"
    unfolding utf8_join_def Let_def by (simp only: refl if_True if_False numeral_eq_iff num.distinct semiring_norm, subst unat_joins(3)) (simp_all add: masks)
qed

text \<open>The decoder accepts an encoding.\<close>

lemma valid_cp_ascii: "unat cp < 0x80 \<Longrightarrow> M_utf8_is_valid_cp cp"
  by (auto simp: M_utf8_is_valid_cp_def word_less_nat_alt word_le_nat_alt)

lemma byte_width_num:
  "M_utf8_byte_width b = (let n = unat b in
     if n < 0x80 then 1 else if n < 0xC2 then 0 else if n < 0xE0 then 2 else if n < 0xF0 then 3 else if n < 0xF5 then 4 else 0)"
  by (simp add: M_utf8_byte_width_def word_le_nat_alt Let_def)

lemma cp_width_num:
  "M_utf8_cp_width cp = (let n = unat cp in if n < 0x80 then 1 else if n < 0x800 then 2 else if n < 0x10000 then 3 else 4)"
  by (simp add: M_utf8_cp_width_def word_le_nat_alt Let_def)

lemma unat_byte: "n < 256 \<Longrightarrow> unat (of_nat n :: M_uint8) = n"
  by (simp add: unsigned_of_nat take_bit_nat_eq_self)

lemma get_cp_multi:
  assumes "str_at s 0 \<noteq> 0" "M_utf8_byte_width (str_at s 0) = w" "w = 2 \<or> w = 3 \<or> w = 4"
    "M_utf8_is_continue (str_at s 1)" "w \<ge> 3 \<Longrightarrow> M_utf8_is_continue (str_at s 2)" "w = 4 \<Longrightarrow> M_utf8_is_continue (str_at s 3)"
    "utf8_join s w = cp"
    "M_utf8_is_valid_cp cp" "M_utf8_cp_width cp = w"
  shows "M_utf8_get_cp (Some s) c nx = (M_UTF8_ERROR_SUCCESS, cp, Some (drop w s))"
proof -
  have "M_utf8_is_continue (str_at s k)" if "1 \<le> k" "k < w" for k
  proof -
    have "k = 1 \<or> k = 2 \<and> w \<ge> 3 \<or> k = 3 \<and> w = 4" using that assms(3) by auto
    then show ?thesis using assms(4-6) by auto
  qed
  then have "utf8_check_continues s 1 w = M_UTF8_ERROR_SUCCESS" by (simp add: check_continues_iff)
  moreover have "w \<noteq> 0" "\<not> 4 < w" "w \<noteq> Suc 0" using assms(3) by auto
  ultimately show ?thesis using assms(1,2,7-9) by (simp add: M_utf8_get_cp_def)
qed

lemma lead_mod:
  "(0x80 + x) mod 64 = x mod 64" "(0xC0 + x) mod 32 = x mod 32" "(0xE0 + x) mod 16 = x mod 16" "(0xF0 + x) mod 8 = x mod 8" for x :: nat
  using mod_add_left_eq [of "0x80" 64 x] mod_add_left_eq [of "0xC0" 32 x] mod_add_left_eq [of "0xE0" 16 x] mod_add_left_eq [of "0xF0" 8 x]
  by simp_all

lemma digits_64: "n div 4096 * 4096 + (n div 64 mod 64 * 64 + n mod 64) = n" for n :: nat
proof -
  have "n div 4096 * 64 + n div 64 mod 64 = n div 64" using div_mult_mod_eq [of "n div 64" 64] by (simp add: div_mult2_eq [symmetric])
  then show ?thesis using div_mult_mod_eq [of n 64] by linarith
qed

lemma get_cp_bytes:
  assumes "M_utf8_is_valid_cp cp" "cp \<noteq> 0"
  shows "M_utf8_get_cp (Some (utf8_bytes cp @ r)) c nx = (M_UTF8_ERROR_SUCCESS, cp, Some r)"
proof -
  define n s where "n = unat cp" and "s = utf8_bytes cp @ r"
  have n: "n \<le> 0x10FFFF" "n \<noteq> 0" using valid_cp_le [OF assms(1)] assms(2) by (simp_all add: n_def unat_eq_0)
  have s: "s = map of_nat (utf8_nums n) @ r" by (simp add: s_def utf8_bytes_def n_def)
  have drop: "drop (M_utf8_cp_width cp) s = r" by (simp add: s_def length_utf8_bytes)
  have m: "k mod 64 < 64" for k :: nat by simp
  have w: "M_utf8_cp_width cp = (if n < 0x80 then 1 else if n < 0x800 then 2 else if n < 0x10000 then 3 else 4)"
    by (simp add: cp_width_num n_def Let_def)
  have nz: "b \<noteq> 0" if "unat b \<noteq> 0" for b :: M_uint8 using that by auto
  consider (1) "n < 0x80" | (2) "0x80 \<le> n" "n < 0x800" | (3) "0x800 \<le> n" "n < 0x10000" | (4) "0x10000 \<le> n" by linarith
  then have "M_utf8_get_cp (Some s) c nx = (M_UTF8_ERROR_SUCCESS, cp, Some (drop (M_utf8_cp_width cp) s))"
  proof cases
    case 1
    then have u: "unat (str_at s 0) = n" by (simp add: s utf8_nums_def unat_byte)
    moreover have "ucast (str_at s 0) = cp" using unat_ucast32 [of "str_at s 0"] u by (simp add: word_unat_eq_iff n_def)
    ultimately show ?thesis using 1 n(2) nz [of "str_at s 0"] w by (simp add: M_utf8_get_cp_def byte_width_num)
  next
    case 2
    then have u: "unat (str_at s 0) = 0xC0 + n div 64" "unat (str_at s (Suc 0)) = 0x80 + n mod 64" "n div 64 < 32" "2 \<le> n div 64"
      using m [of n] by (simp_all add: s utf8_nums_def unat_byte del: of_nat_add)
    have "utf8_join s 2 = cp" by (simp add: word_unat_eq_iff join_num(1) u lead_mod n_def [symmetric])
    moreover have "str_at s 0 \<noteq> 0" by (rule nz) (simp add: u(1))
    moreover have "M_utf8_byte_width (str_at s 0) = 2" unfolding byte_width_num u(1) using u(3,4) by simp
    moreover have "M_utf8_is_continue (str_at s (Suc 0))"
      unfolding continue_num u using m [of n] by simp_all
    moreover have "M_utf8_cp_width cp = 2" using w 2 by simp
    ultimately show ?thesis using get_cp_multi [of s 2 cp c nx] assms(1) by simp
  next
    case 3
    then have u: "unat (str_at s 0) = 0xE0 + n div 4096" "unat (str_at s (Suc 0)) = 0x80 + n div 64 mod 64" "unat (str_at s 2) = 0x80 + n mod 64"
      "n div 4096 < 16"
      using m [of n] m [of "n div 64"] by (simp_all add: s utf8_nums_def unat_byte numeral_2_eq_2 del: of_nat_add)
    have "utf8_join s 3 = cp" using digits_64 [of n] by (simp add: word_unat_eq_iff join_num(2) u lead_mod n_def [symmetric])
    moreover have "str_at s 0 \<noteq> 0" by (rule nz) (simp add: u(1))
    moreover have "M_utf8_byte_width (str_at s 0) = 3" unfolding byte_width_num u(1) using u(4) by simp
    moreover have "M_utf8_is_continue (str_at s (Suc 0))" "M_utf8_is_continue (str_at s 2)"
      unfolding continue_num u using m [of n] m [of "n div 64"] by simp_all
    moreover have "M_utf8_cp_width cp = 3" using w 3 by simp
    ultimately show ?thesis using get_cp_multi [of s 3 cp c nx] assms(1) by simp
  next
    case 4
    have d: "n div 262144 \<le> 4" using n(1) by simp
    from 4 have u: "unat (str_at s 0) = 0xF0 + n div 262144" "unat (str_at s (Suc 0)) = 0x80 + n div 4096 mod 64"
      "unat (str_at s 2) = 0x80 + n div 64 mod 64" "unat (str_at s 3) = 0x80 + n mod 64"
      using m [of n] m [of "n div 64"] m [of "n div 4096"] d
      by (simp_all add: s utf8_nums_def unat_byte numeral_2_eq_2 numeral_3_eq_3 del: of_nat_add)
    have "n div 262144 * 262144 + (n div 4096 mod 64 * 4096 + (n div 64 mod 64 * 64 + n mod 64)) = n"
    proof -
      have "n div 262144 * 64 + n div 4096 mod 64 = n div 4096"
        using div_mult_mod_eq [of "n div 4096" 64] by (simp add: div_mult2_eq [symmetric])
      then show ?thesis using digits_64 [of n] by linarith
    qed
    then have "utf8_join s 4 = cp" using d by (simp add: word_unat_eq_iff join_num(3) u lead_mod n_def [symmetric])
    moreover have "str_at s 0 \<noteq> 0" by (rule nz) (simp add: u(1))
    moreover have "M_utf8_byte_width (str_at s 0) = 4" unfolding byte_width_num u(1) using d by simp
    moreover have "M_utf8_is_continue (str_at s (Suc 0))" "M_utf8_is_continue (str_at s 2)" "M_utf8_is_continue (str_at s 3)"
      unfolding continue_num u using m [of n] m [of "n div 64"] m [of "n div 4096"] by simp_all
    moreover have "M_utf8_cp_width cp = 4" using w 4 by simp
    ultimately show ?thesis using get_cp_multi [of s 4 cp c nx] assms(1) by simp
  qed
  then show ?thesis unfolding drop unfolding s_def .
qed

end
