(* ===== verification/M_Utf8_Spec.thy ===== *)
theory M_Utf8_Spec
  imports M_Utf8_Ok
begin

text \<open>
  The decoder accepts the reference encoding and nothing else. Validation, counting and access by
  index follow for strings that are concatenations of encodings.
\<close>

section \<open>One code point\<close>

text \<open>The decoder accepts nothing else.\<close>

lemma offset_digit:
  fixes n a k m :: nat
  assumes "a \<le> n" "n < a + m" "a mod m = 0" "0 < m"
  shows "n = a + n mod m"
proof -
  obtain x where x: "n = a + x" using assms(1) le_Suc_ex by blast
  then have "n mod m = x" using assms by (metis add.left_neutral mod_add_left_eq mod_less nat_add_left_cancel_less)
  then show ?thesis using x by simp
qed

lemma continue_digit: "M_utf8_is_continue b \<Longrightarrow> unat b = 0x80 + unat b mod 64"
  unfolding continue_num by (rule offset_digit) simp_all

lemma lead_digit:
  "M_utf8_byte_width b = 2 \<Longrightarrow> unat b = 0xC0 + unat b mod 32"
  "M_utf8_byte_width b = 3 \<Longrightarrow> unat b = 0xE0 + unat b mod 16"
  "M_utf8_byte_width b = 4 \<Longrightarrow> unat b = 0xF0 + unat b mod 8"
  by (rule offset_digit; simp add: byte_width_num Let_def split: if_splits)+

lemma byte_of_num: "n = unat b \<Longrightarrow> of_nat n = b" for b :: M_uint8
  by auto

lemma nums_digits:
  assumes "y < 64" "z < 64" "u < 64"
  shows "n = x * 64 + y \<Longrightarrow> 0x80 \<le> n \<Longrightarrow> n < 0x800 \<Longrightarrow> utf8_nums n = [0xC0 + x, 0x80 + y]"
    "n = x * 4096 + (y * 64 + z) \<Longrightarrow> 0x800 \<le> n \<Longrightarrow> n < 0x10000 \<Longrightarrow> utf8_nums n = [0xE0 + x, 0x80 + y, 0x80 + z]"
    "n = x * 262144 + (y * 4096 + (z * 64 + u)) \<Longrightarrow> 0x10000 \<le> n \<Longrightarrow> utf8_nums n = [0xF0 + x, 0x80 + y, 0x80 + z, 0x80 + u]"
proof -
  have e: "(q * 64 + r) div 64 = q" "(q * 64 + r) mod 64 = r" if "r < 64" for q r :: nat using that by simp_all
  show "utf8_nums n = [0xC0 + x, 0x80 + y]" if "n = x * 64 + y" "0x80 \<le> n" "n < 0x800"
    using that e [OF assms(1)] by (simp add: utf8_nums_def)
  show "utf8_nums n = [0xE0 + x, 0x80 + y, 0x80 + z]" if n: "n = x * 4096 + (y * 64 + z)" "0x800 \<le> n" "n < 0x10000"
  proof -
    have "n = (x * 64 + y) * 64 + z" using n(1) by simp
    then have "n div 64 = x * 64 + y" "n mod 64 = z" by (simp_all only: e [OF assms(2)])
    moreover have "n div 4096 = n div 64 div 64" by (simp add: div_mult2_eq [symmetric])
    ultimately show ?thesis using n(2,3) e [OF assms(1)] by (simp add: utf8_nums_def)
  qed
  show "utf8_nums n = [0xF0 + x, 0x80 + y, 0x80 + z, 0x80 + u]" if n: "n = x * 262144 + (y * 4096 + (z * 64 + u))" "0x10000 \<le> n"
  proof -
    have "n = ((x * 64 + y) * 64 + z) * 64 + u" using n(1) by simp
    then have "n div 64 = (x * 64 + y) * 64 + z" "n mod 64 = u" by (simp_all only: e [OF assms(3)])
    moreover from this have "n div 64 div 64 = x * 64 + y" "n div 64 mod 64 = z" by (simp_all only: e [OF assms(2)])
    moreover have "n div 4096 = n div 64 div 64" "n div 262144 = n div 64 div 64 div 64" by (simp_all add: div_mult2_eq [symmetric])
    ultimately show ?thesis using n(2) e [OF assms(1)] by (simp add: utf8_nums_def)
  qed
qed

lemma get_cp_only_bytes:
  assumes s: "s = b0 # t" and w: "M_utf8_byte_width b0 = w"
    and k: "\<And>k. 1 \<le> k \<Longrightarrow> k < w \<Longrightarrow> M_utf8_is_continue (str_at s k)"
    and c: "w = 2 \<or> w = 3 \<or> w = 4" "cp = utf8_join s w" "M_utf8_cp_width cp = w"
  shows "s = utf8_bytes cp @ drop w s"
proof -
  define d where "d i = unat (str_at s i) mod 64" for i
  have tail: "unat (str_at s i) = 0x80 + d i" if "1 \<le> i" "i < w" for i unfolding d_def by (rule continue_digit [OF k [OF that]])
  have d: "d i < 64" for i by (simp add: d_def)
  have "M_utf8_is_continue (str_at s (w - 1))" using k [of "w - 1"] c(1) by auto
  then have "str_at s (w - 1) \<noteq> 0" by (auto simp: M_utf8_is_continue_def)
  then have len: "w \<le> length s" using str_at_length [of s "w - 1"] by simp
  have "take w s = map (str_at s) [0..<w]"
    using len by (intro nth_equalityI) (simp_all add: str_at_def chr0_def Cons_nth_drop_Suc [symmetric])
  moreover have "map unat (map (str_at s) [0..<w]) = utf8_nums (unat cp)" using c(1)
  proof (elim disjE)
    assume 2: "w = 2"
    have "unat cp = unat b0 mod 32 * 64 + d 1" unfolding c(2) 2 join_num by (simp add: s d_def)
    then have "utf8_nums (unat cp) = [0xC0 + unat b0 mod 32, 0x80 + d 1]"
      using nums_digits(1) [OF d d d] c(3) unfolding 2 by (simp add: cp_width_num Let_def split: if_splits)
    moreover have "unat b0 = 0xC0 + unat b0 mod 32" by (rule lead_digit) (use w 2 in simp)
    ultimately show ?thesis using tail [of 1] by (simp add: 2 s upt_rec)
  next
    assume 3: "w = 3"
    have "unat cp = unat b0 mod 16 * 4096 + (d 1 * 64 + d 2)" unfolding c(2) 3 join_num by (simp add: s d_def)
    then have "utf8_nums (unat cp) = [0xE0 + unat b0 mod 16, 0x80 + d 1, 0x80 + d 2]"
      using nums_digits(2) [OF d d d] c(3) unfolding 3 by (simp add: cp_width_num Let_def split: if_splits)
    moreover have "unat b0 = 0xE0 + unat b0 mod 16" by (rule lead_digit) (use w 3 in simp)
    ultimately show ?thesis using tail [of 1] tail [of 2] by (simp add: 3 s upt_rec numeral_2_eq_2)
  next
    assume 4: "w = 4"
    have "unat cp = unat b0 mod 8 * 262144 + (d 1 * 4096 + (d 2 * 64 + d 3))" unfolding c(2) 4 join_num by (simp add: s d_def)
    then have "utf8_nums (unat cp) = [0xF0 + unat b0 mod 8, 0x80 + d 1, 0x80 + d 2, 0x80 + d 3]"
      using nums_digits(3) [OF d d d] c(3) unfolding 4 by (simp add: cp_width_num Let_def split: if_splits)
    moreover have "unat b0 = 0xF0 + unat b0 mod 8" by (rule lead_digit) (use w 4 in simp)
    ultimately show ?thesis using tail [of 1] tail [of 2] tail [of 3] by (simp add: 4 s upt_rec numeral_2_eq_2 numeral_3_eq_3)
  qed
  ultimately have "map unat (take w s) = utf8_nums (unat cp)" by simp
  then have "take w s = utf8_bytes cp" unfolding utf8_bytes_def by (simp flip: \<open>map unat (take w s) = _\<close> add: o_def)
  then show ?thesis by (metis append_take_drop_id)
qed

lemma get_cp_only:
  assumes "M_utf8_get_cp (Some s) c nx = (M_UTF8_ERROR_SUCCESS, cp, nx')" "chr0 s \<noteq> 0"
  shows "\<exists>r. nx' = Some r \<and> s = utf8_bytes cp @ r \<and> M_utf8_is_valid_cp cp \<and> cp \<noteq> 0"
proof -
  obtain b0 t where s: "s = b0 # t" "b0 \<noteq> 0" using assms(2) by (cases s) (auto simp: chr0_def)
  define w where "w = M_utf8_byte_width b0"
  have m: "k mod 64 < 64" for k :: nat by simp
  have cont: "\<exists>b t'. t = b # t' \<and> M_utf8_is_continue b" if "M_utf8_is_continue (str_at t 0)" for t
    using that by (cases t) (auto simp: M_utf8_is_continue_def)
  have w_cases: "w = 0 \<or> w = 1 \<or> w = 2 \<or> w = 3 \<or> w = 4" by (simp add: w_def byte_width_num Let_def)
  show ?thesis
  proof (cases "w = 1")
    case True
    then have b: "unat b0 < 0x80" by (simp add: w_def byte_width_num Let_def split: if_splits)
    have cp: "cp = ucast b0" "nx' = Some t" using assms(1) True s by (simp_all add: M_utf8_get_cp_def w_def [symmetric])
    then have "unat cp = unat b0" by (simp add: unat_ucast32)
    moreover from this have "utf8_bytes cp = [b0]" using b by (simp add: utf8_bytes_def utf8_nums_def)
    moreover have "cp \<noteq> 0" using \<open>unat cp = unat b0\<close> s(2) by (metis unat_0 unat_eq_0)
    ultimately show ?thesis using cp(2) s b valid_cp_ascii [of cp] by simp
  next
    case False
    then have g: "w = 2 \<or> w = 3 \<or> w = 4" "utf8_check_continues s 1 w = M_UTF8_ERROR_SUCCESS" "cp = utf8_join s w"
      "M_utf8_is_valid_cp cp" "M_utf8_cp_width cp = w" "nx' = Some (drop w s)"
      using assms(1) s w_cases by (auto simp: M_utf8_get_cp_def w_def [symmetric] Let_def split: if_splits)
    have k: "M_utf8_is_continue (str_at s k)" if "1 \<le> k" "k < w" for k using g(2) that by (simp add: check_continues_iff)
    have "cp \<noteq> 0" using g(1,5) by (auto simp: M_utf8_cp_width_def)
    moreover have "s = utf8_bytes cp @ drop w s" using get_cp_only_bytes [OF s(1) _ k g(1,3,5)] w_def by simp
    ultimately show ?thesis using g(4,6) by blast
  qed
qed

text \<open>
  C34. Decoding: at a byte that is not the terminator, \<open>M_utf8_get_cp\<close> succeeds with a code point
  exactly if that code point is accepted and the string starts with its encoding of the shortest
  form, after which it points to the rest. So overlong forms, surrogates, stray or missing
  continuation bytes and code points out of range are refused. The accepted code points are those of
  Unicode up to \<open>0x10FFFF\<close> except for the surrogates and the noncharacters; contrary to the note in
  \<^verbatim>\<open>m_utf8.h\<close> that noncharacters are errors, those of the planes 10 to 15 are accepted.
\<close>

theorem M_utf8_get_cp_correct:
  assumes "chr0 s \<noteq> 0"
  shows "M_utf8_get_cp (Some s) c nx = (M_UTF8_ERROR_SUCCESS, cp, Some r) \<longleftrightarrow>
    cp \<noteq> 0 \<and> scalar_value (unat cp) \<and>
    (\<not> noncharacter (unat cp) \<or> (10 \<le> unat cp div 0x10000 \<and> unat cp div 0x10000 \<le> 15)) \<and> s = utf8_bytes cp @ r"
  using get_cp_only [OF _ assms, of c nx cp "Some r"] get_cp_bytes [of cp r c nx]
  unfolding valid_cp_iff accepted_cp_def by auto

theorem M_utf8_get_cp_correct_witness:
  "M_utf8_get_cp (Some [0xE2, 0x82, 0xAC, 0x21]) 0 None = (M_UTF8_ERROR_SUCCESS, 0x20AC, Some [0x21]) \<longleftrightarrow>
    [0xE2, 0x82, 0xAC, 0x21] = utf8_bytes 0x20AC @ [0x21]"
  using M_utf8_get_cp_correct [of "[0xE2, 0x82, 0xAC, 0x21]" 0 None "0x20AC" "[0x21]"]
  by (simp add: chr0_def scalar_value_def noncharacter_def)

text \<open>
  C35. Encoding: \<open>M_utf8_from_cp\<close> refuses an invalid code point, and one whose encoding does not
  fit into the size that it is given; else it writes the encoding to the start of the buffer, nothing
  else, and gives its length. It never writes outside a buffer of that size. What it writes decodes to the code point.
\<close>

theorem M_utf8_from_cp_correct:
  assumes "buf_size \<le> length buf"
  shows "M_utf8_from_cp (Some buf) buf_size (Some len) cp =
      (if \<not> M_utf8_is_valid_cp cp then Some (M_UTF8_ERROR_BAD_CODE_POINT, Some buf, Some len)
       else if length (utf8_bytes cp) > buf_size then Some (M_UTF8_ERROR_TRUNCATED, Some buf, Some len)
       else Some (M_UTF8_ERROR_SUCCESS, Some (utf8_bytes cp @ drop (length (utf8_bytes cp)) buf), Some (length (utf8_bytes cp)))) \<and>
    (M_utf8_is_valid_cp cp \<and> cp \<noteq> 0 \<longrightarrow>
      M_utf8_get_cp (Some (utf8_bytes cp @ r)) c nx = (M_UTF8_ERROR_SUCCESS, cp, Some r))"
proof -
  have "M_utf8_cp_width cp \<noteq> 0" "M_utf8_cp_width cp \<in> {1, 2, 3, 4}" by (simp_all add: M_utf8_cp_width_def)
  then show ?thesis
    using utf8_put_ok [of cp buf] get_cp_bytes [of cp r c nx] assms by (auto simp: M_utf8_from_cp_def length_utf8_bytes Let_def)
qed

theorem M_utf8_from_cp_correct_witness:
  "M_utf8_from_cp (Some [0, 0, 0, 0]) 3 (Some 9) 0x1F600 = Some (M_UTF8_ERROR_TRUNCATED, Some [0, 0, 0, 0], Some 9) \<and>
   M_utf8_get_cp (Some (utf8_bytes 0x1F600 @ [0x61])) 0 None = (M_UTF8_ERROR_SUCCESS, 0x1F600, Some [0x61])"
  using M_utf8_from_cp_correct [of 3 "[0, 0, 0, 0]" 9 "0x1F600" "[0x61]" 0 None]
  by (simp add: M_utf8_is_valid_cp_def utf8_bytes_def utf8_nums_def)

section \<open>Strings\<close>

text \<open>The code points of a string that the decoder reads.\<close>

abbreviation utf8_string :: "M_uint32 list \<Rightarrow> bytes" where
  "utf8_string cps \<equiv> concat (map utf8_bytes cps)"

abbreviation cps_ok :: "M_uint32 list \<Rightarrow> bool" where
  "cps_ok cps \<equiv> list_all (\<lambda>cp. M_utf8_is_valid_cp cp \<and> cp \<noteq> 0) cps"

lemma chr0_utf8:
  assumes "M_utf8_is_valid_cp cp" "cp \<noteq> 0"
  shows "chr0 (utf8_bytes cp @ r) \<noteq> 0"
  using get_cp_bytes [OF assms, of r 0 None] assms(2) by (auto simp: M_utf8_get_cp_def str_at_def)

text \<open>A string splits into code points and a rest at whose start none can be read.\<close>

lemma utf8_split:
  assumes "0 \<notin> set s"
  shows "\<exists>cps bad. s = utf8_string cps @ bad \<and> cps_ok cps \<and>
    (bad \<noteq> [] \<longrightarrow> chr0 bad \<noteq> 0 \<and> fst (M_utf8_get_cp (Some bad) 0 None) \<noteq> M_UTF8_ERROR_SUCCESS)"
  using assms
proof (induction "length s" arbitrary: s rule: less_induct)
  case less
  show ?case
  proof (cases "s \<noteq> [] \<and> fst (M_utf8_get_cp (Some s) 0 None) = M_UTF8_ERROR_SUCCESS")
    case False
    moreover have "s \<noteq> [] \<longrightarrow> chr0 s \<noteq> 0" using less.prems by (cases s) (auto simp: chr0_def)
    ultimately show ?thesis by (intro exI [of _ "[]"] exI [of _ s]) auto
  next
    case True
    then have b: "chr0 s \<noteq> 0" using less.prems by (cases s) (auto simp: chr0_def)
    obtain cp nx where g: "M_utf8_get_cp (Some s) 0 None = (M_UTF8_ERROR_SUCCESS, cp, nx)"
      using True by (cases "M_utf8_get_cp (Some s) 0 None") auto
    then obtain r where r: "nx = Some r" "s = utf8_bytes cp @ r" "M_utf8_is_valid_cp cp" "cp \<noteq> 0"
      using get_cp_only [OF g b] by auto
    have "length r < length s" using get_cp_shorter [OF g b] r(1) by auto
    moreover have "0 \<notin> set r" using less.prems r(2) by simp
    ultimately obtain cps bad where "r = utf8_string cps @ bad" "cps_ok cps"
      "bad \<noteq> [] \<longrightarrow> chr0 bad \<noteq> 0 \<and> fst (M_utf8_get_cp (Some bad) 0 None) \<noteq> M_UTF8_ERROR_SUCCESS"
      using less.hyps [of r] by blast
    then show ?thesis using r by (intro exI [of _ "cp # cps"] exI [of _ bad]) simp
  qed
qed

lemma validate_loop_string:
  "cps_ok cps \<Longrightarrow> \<exists>e'. utf8_validate_loop M_UTF8_ERROR_SUCCESS (Some (utf8_string cps @ r)) e n =
    utf8_validate_loop M_UTF8_ERROR_SUCCESS (Some r) e' (n + length cps)"
proof (induction cps arbitrary: e n)
  case (Cons cp cps)
  then have "utf8_validate_loop M_UTF8_ERROR_SUCCESS (Some (utf8_string (cp # cps) @ r)) e n =
    utf8_validate_loop M_UTF8_ERROR_SUCCESS (Some (utf8_string cps @ r)) (Some (utf8_string (cp # cps) @ r)) (n + 1)"
    using chr0_utf8 [of cp "utf8_string cps @ r"] get_cp_bytes [of cp "utf8_string cps @ r" 0 None]
    by (subst utf8_validate_loop.simps) simp
  then show ?case using Cons.IH [of "Some (utf8_string (cp # cps) @ r)" "n + 1"] Cons.prems by auto
qed auto

lemma validate_loop_rest:
  assumes "bad \<noteq> [] \<longrightarrow> chr0 bad \<noteq> 0 \<and> fst (M_utf8_get_cp (Some bad) 0 None) \<noteq> M_UTF8_ERROR_SUCCESS"
  shows "\<exists>res p e' m. utf8_validate_loop M_UTF8_ERROR_SUCCESS (Some bad) e n = Some (res, p, e', m) \<and>
    (if bad = [] then res = M_UTF8_ERROR_SUCCESS \<and> p = Some [] \<and> m = n else res \<noteq> M_UTF8_ERROR_SUCCESS \<and> e' = Some bad)"
proof (cases "bad = []")
  case True
  then show ?thesis by (simp add: utf8_validate_loop.simps chr0_def)
next
  case False
  obtain res cp nx where g: "M_utf8_get_cp (Some bad) 0 None = (res, cp, nx)" by (cases "M_utf8_get_cp (Some bad) 0 None") auto
  have "utf8_validate_loop res nx (Some bad) (n + 1) = Some (res, nx, Some bad, n + 1)"
    using g False assms by (subst utf8_validate_loop.simps) simp
  then show ?thesis using assms False g by (subst utf8_validate_loop.simps) simp
qed

lemma validate_int_ok:
  assumes s: "s = utf8_string cps @ bad" "cps_ok cps" "chr0 s \<noteq> 0"
    and bad: "bad \<noteq> [] \<longrightarrow> chr0 bad \<noteq> 0 \<and> fst (M_utf8_get_cp (Some bad) 0 None) \<noteq> M_UTF8_ERROR_SUCCESS"
  shows "\<exists>m. M_utf8_validate_int (Some s) e 0 = Some (bad = [], Some bad, m) \<and> (bad = [] \<longrightarrow> m = length cps)"
proof -
  obtain e' where "utf8_validate_loop M_UTF8_ERROR_SUCCESS (Some s) e 0 =
    utf8_validate_loop M_UTF8_ERROR_SUCCESS (Some bad) e' (length cps)" using validate_loop_string [OF s(2), of bad e 0] s(1) by auto
  then show ?thesis using validate_loop_rest [OF bad, of e' "length cps"] s(3)
    by (auto simp: M_utf8_validate_int_def M_str_isempty_def split: if_splits)
qed

text \<open>
  C36. Validation: a string splits into encodings of accepted code points and a rest that does not start
  with one. \<open>M_utf8_is_valid\<close> succeeds exactly if the rest is empty and points to it, and
  \<open>M_utf8_cnt\<close> gives the number of code points, or 0 if there is a rest. Accepted is a code point of
  Unicode that is not a surrogate and not a noncharacter; the noncharacters of the planes 10 to 15 are
  accepted all the same, contrary to the note in \<^verbatim>\<open>m_utf8.h\<close>.
\<close>

theorem M_utf8_is_valid_correct:
  assumes "0 \<notin> set s"
  shows "\<exists>cps bad. s = utf8_string cps @ bad \<and> list_all (\<lambda>cp. accepted_cp cp \<and> cp \<noteq> 0) cps \<and>
    (\<forall>cp r. accepted_cp cp \<and> cp \<noteq> 0 \<longrightarrow> bad \<noteq> utf8_bytes cp @ r) \<and>
    M_utf8_is_valid (Some s) = Some (bad = [], Some bad) \<and>
    M_utf8_cnt (Some s) = Some (if bad = [] then length cps else 0)"
proof -
  obtain cps bad where v: "s = utf8_string cps @ bad" "cps_ok cps"
    "bad \<noteq> [] \<longrightarrow> chr0 bad \<noteq> 0 \<and> fst (M_utf8_get_cp (Some bad) 0 None) \<noteq> M_UTF8_ERROR_SUCCESS"
    using utf8_split [OF assms] by blast
  have ne: "utf8_bytes cp \<noteq> []" for cp by (simp add: utf8_bytes_def utf8_nums_def)
  have "bad \<noteq> utf8_bytes cp @ r" if "M_utf8_is_valid_cp cp" "cp \<noteq> 0" for cp r
    using get_cp_bytes [OF that, of r 0 None] v(3) ne by auto
  moreover have "M_utf8_is_valid (Some s) = Some (bad = [], Some bad) \<and>
    M_utf8_cnt (Some s) = Some (if bad = [] then length cps else 0)"
  proof (cases "s = []")
    case True
    then have "cps = []" "bad = []" using v(1) ne by (cases cps; simp)+
    then show ?thesis using True by (simp add: M_utf8_is_valid_def M_utf8_cnt_def M_utf8_validate_int_def M_str_isempty_def chr0_def)
  next
    case False
    then have c: "chr0 s \<noteq> 0" using assms by (cases s) (auto simp: chr0_def)
    show ?thesis using validate_int_ok [OF v(1,2) c v(3), of "Some s"] validate_int_ok [OF v(1,2) c v(3), of None]
      by (auto simp: M_utf8_is_valid_def M_utf8_cnt_def M_str_isempty_def c split: if_splits)
  qed
  ultimately show ?thesis using v(1,2) unfolding valid_cp_iff by blast
qed

theorem M_utf8_is_valid_correct_witness:
  "\<exists>cps bad. [0x61, 0xC3, 0xA9, 0x80] = utf8_string cps @ bad \<and> list_all (\<lambda>cp. accepted_cp cp \<and> cp \<noteq> 0) cps \<and>
    M_utf8_is_valid (Some [0x61, 0xC3, 0xA9, 0x80]) = Some (bad = [], Some bad) \<and>
    M_utf8_cnt (Some [0x61, 0xC3, 0xA9, 0x80]) = Some (if bad = [] then length cps else 0)"
proof -
  have "(0 :: M_uint8) \<notin> set [0x61, 0xC3, 0xA9, 0x80]" by simp
  from M_utf8_is_valid_correct [OF this] show ?thesis by blast
qed

section \<open>Access by index\<close>

lemma cp_at_loop_string:
  "cps_ok cps \<Longrightarrow> i \<le> idx \<Longrightarrow>
    utf8_cp_at_loop M_UTF8_ERROR_SUCCESS (Some (utf8_string cps)) i idx cp =
      (if idx < i + length cps then Some (M_UTF8_ERROR_SUCCESS, idx, cps ! (idx - i))
       else Some (M_UTF8_ERROR_SUCCESS, i + length cps, if cps = [] then cp else last cps))"
proof (induction cps arbitrary: i cp)
  case Nil
  then show ?case by (simp add: utf8_cp_at_loop.simps chr0_def)
next
  case (Cons c cps)
  have "utf8_cp_at_loop M_UTF8_ERROR_SUCCESS (Some (utf8_string (c # cps))) i idx cp =
    (if i = idx then Some (M_UTF8_ERROR_SUCCESS, i, c)
     else utf8_cp_at_loop M_UTF8_ERROR_SUCCESS (Some (utf8_string cps)) (i + 1) idx c)"
    using Cons.prems chr0_utf8 [of c "utf8_string cps"] get_cp_bytes [of c "utf8_string cps"]
    by (subst utf8_cp_at_loop.simps) simp
  then show ?case using Cons.IH [of "i + 1" c] Cons.prems by (auto simp: nth_Cons')
qed

text \<open>
  C37. Access by index: in a valid string that is not empty, \<open>M_utf8_cp_at\<close> gives the code point at
  an index that is in range, and refuses one that is beyond the number of code points. At the
  number itself, which is out of range, it gives the last code point.
\<close>

theorem M_utf8_cp_at_correct:
  assumes "cps_ok cps" "cps \<noteq> []"
  shows "M_utf8_cp_at (Some (utf8_string cps)) idx cp =
    (if idx < length cps then Some (M_UTF8_ERROR_SUCCESS, cps ! idx)
     else if idx = length cps then Some (M_UTF8_ERROR_SUCCESS, last cps)
     else Some (M_UTF8_ERROR_INVALID_PARAM, last cps))"
proof -
  obtain c cs where "cps = c # cs" using assms(2) by (cases cps) auto
  then have "\<not> M_str_isempty (Some (utf8_string cps))" using assms chr0_utf8 [of c "utf8_string cs"] by (simp add: M_str_isempty_def)
  then show ?thesis using cp_at_loop_string [OF assms(1), of 0 idx cp] assms(2) by (simp add: M_utf8_cp_at_def)
qed

theorem M_utf8_cp_at_correct_witness:
  "M_utf8_cp_at (Some (utf8_string [0x61, 0x20AC])) 1 0 = Some (M_UTF8_ERROR_SUCCESS, 0x20AC) \<and>
   M_utf8_cp_at (Some (utf8_string [0x61, 0x20AC])) 3 0 = Some (M_UTF8_ERROR_INVALID_PARAM, 0x20AC)"
  using M_utf8_cp_at_correct [of "[0x61, 0x20AC]" 1 0] M_utf8_cp_at_correct [of "[0x61, 0x20AC]" 3 0]
  by (simp add: M_utf8_is_valid_cp_def)

text \<open>An index behind a byte that cannot be decoded makes the loop read through the null pointer.\<close>

lemma M_utf8_cp_at_null:
  assumes "chr0 s \<noteq> 0" "M_utf8_get_cp (Some s) cp (Some s) = (res, cp', None)" "0 < idx"
  shows "M_utf8_cp_at (Some s) idx cp = None"
proof -
  have "utf8_cp_at_loop res None 1 idx cp' = None" by (subst utf8_cp_at_loop.simps) simp
  then have "utf8_cp_at_loop M_UTF8_ERROR_SUCCESS (Some s) 0 idx cp = None"
    using assms by (subst utf8_cp_at_loop.simps) simp
  then show ?thesis using assms(1) by (simp add: M_utf8_cp_at_def M_str_isempty_def)
qed

lemma M_utf8_cp_at_null_example: "M_utf8_cp_at (Some [0x80, 0x61]) 1 0 = None"
  by (rule M_utf8_cp_at_null [where res = M_UTF8_ERROR_BAD_START and cp' = 0])
    (simp_all add: chr0_def M_utf8_get_cp_def M_utf8_byte_width_def)

text \<open>The list of code points that are no characters leaves out those of the planes 10 to 15.\<close>

lemma M_utf8_is_valid_cp_noncharacter: "M_utf8_is_valid_cp 0xAFFFE" "M_utf8_is_valid_cp 0xFFFFF"
  by (simp_all add: M_utf8_is_valid_cp_def)

end
