(* ===== verification/M_Time.thy ===== *)
theory M_Time
  imports M_Prelude "HOL-Library.Signed_Division"
begin

text \<open>
  Calendar time in UTC (\<^verbatim>\<open>src/base/time/m_time_gm.c\<close>): the normalization of a broken-down time,
  the conversion of seconds since the epoch into one and back.

  The members of the structure are \<open>M_int64\<close>, integers in the model. Every sum, difference, product
  and absolute value of the source is computed through \<open>i64\<close>, which is \<open>None\<close> if the result does not fit:
  the overflow of a signed integer is undefined in C. Division and remainder are those of C, which round
  towards zero; the divisors are positive constants, so they cannot overflow. A read outside one of the
  tables of days gives \<open>None\<close> as well.
\<close>

section \<open>Signed integers\<close>

definition INT64_MIN :: int where
  "INT64_MIN = - (2 ^ 63)"

definition INT64_MAX :: int where
  "INT64_MAX = 2 ^ 63 - 1"

abbreviation is_i64 :: "int \<Rightarrow> bool" where
  "is_i64 n \<equiv> INT64_MIN \<le> n \<and> n \<le> INT64_MAX"

definition i64 :: "int \<Rightarrow> int option" where
  "i64 n = (if is_i64 n then Some n else None)"

section \<open>Calendar\<close>

record M_time_tm =
  month :: int
  day :: int
  year :: int
  year2 :: int
  hour :: int
  minute :: int
  sec :: int
  wday :: int
  yday :: int
  isdst :: int
  gmtoff :: int
  abbr :: bytes

definition IS_LEAPYEAR :: "int \<Rightarrow> bool" where
  "IS_LEAPYEAR y = (y smod 400 = 0 \<or> (y smod 100 \<noteq> 0 \<and> y smod 4 = 0))"

definition mdays :: "bool \<Rightarrow> int list" where
  "mdays is_leapyear =
     (if is_leapyear then [31, 29, 31, 30, 31, 30, 31, 31, 30, 31, 30, 31]
      else [31, 28, 31, 30, 31, 30, 31, 31, 30, 31, 30, 31])"

text \<open>A read of a table at a signed index.\<close>

definition tab_get :: "int list \<Rightarrow> int \<Rightarrow> int option" where
  "tab_get xs i = (if 0 \<le> i then arr_get xs (nat i) else None)"

text \<open>The sum of the days of the first \<open>n\<close> months.\<close>

fun mdays_sum :: "bool \<Rightarrow> nat \<Rightarrow> int \<Rightarrow> int option" where
  "mdays_sum is_leapyear 0 acc = Some acc"
| "mdays_sum is_leapyear (Suc n) acc = do {
     acc \<leftarrow> mdays_sum is_leapyear n acc;
     d \<leftarrow> tab_get (mdays is_leapyear) (int n);
     i64 (acc + d)
   }"

definition calc_yday :: "M_time_tm \<Rightarrow> int option" where
  "calc_yday tm = do {
     m \<leftarrow> i64 (month tm - 1);
     yd \<leftarrow> mdays_sum (IS_LEAPYEAR (year tm)) (nat m) 0;
     yd \<leftarrow> i64 (yd + day tm);
     i64 (yd - 1)
   }"

definition M_time_days_in_month :: "int \<Rightarrow> int \<Rightarrow> int option" where
  "M_time_days_in_month y m =
     (if m < 1 \<or> m > 12 then Some 0 else tab_get (mdays (IS_LEAPYEAR y)) (m - 1))"

definition M_time_is_valid_day :: "int \<Rightarrow> int \<Rightarrow> int \<Rightarrow> bool option" where
  "M_time_is_valid_day y m d = do {
     days \<leftarrow> M_time_days_in_month y m;
     Some (if days = 0 \<or> d < 1 then False else if d > days then False else True)
   }"

section \<open>Normalization\<close>

text \<open>The overflow and the number.\<close>

definition normalize_range :: "int \<Rightarrow> int \<Rightarrow> int \<Rightarrow> int \<Rightarrow> (int \<times> int) option" where
  "normalize_range overflow num lo hi = do {
     (overflow, num) \<leftarrow>
       (if num < lo then do {
          tmp \<leftarrow> i64 \<bar>num\<bar>;
          tmp \<leftarrow> i64 (tmp + hi);
          overflow \<leftarrow> i64 (overflow - tmp sdiv (hi + 1));
          num \<leftarrow> i64 (hi - tmp smod (hi + 1));
          Some (overflow, num)
        } else Some (overflow, num));
     if num > hi then do {
       overflow \<leftarrow> i64 (overflow + num sdiv (hi + 1));
       Some (overflow, num smod (hi + 1))
     } else Some (overflow, num)
   }"

definition year_days :: "bool \<Rightarrow> int" where
  "year_days is_leapyear = (if is_leapyear then 366 else 365)"

text \<open>The loop that turns days into years.\<close>

function days_to_years :: "int \<Rightarrow> int \<Rightarrow> (int \<times> int) option" where
  "days_to_years d y = do {
     is_leapyear \<leftarrow> (if d > 0 then Some (IS_LEAPYEAR y) else map_option IS_LEAPYEAR (i64 (y - 1)));
     let num_year_days = year_days is_leapyear;
     a \<leftarrow> i64 \<bar>d\<bar>;
     if a < num_year_days then Some (d, y)
     else if d < 0 then do {
       d' \<leftarrow> i64 (d + num_year_days);
       y \<leftarrow> i64 (y - 1);
       days_to_years d' y
     } else do {
       d' \<leftarrow> i64 (d - num_year_days);
       y \<leftarrow> i64 (y + 1);
       days_to_years d' y
     }
   }"
  by pat_completeness auto

termination
  by (relation "measure (\<lambda>(d, y). nat \<bar>d\<bar>)") (auto simp: year_days_def i64_def split: if_splits)

declare days_to_years.simps [simp del]

text \<open>The loop that turns days into months, on a month and a day that count from 0.\<close>

partial_function (option) days_to_months :: "M_time_tm \<Rightarrow> M_time_tm option" where
  "days_to_months tm = do {
     (y, m) \<leftarrow> normalize_range (year tm) (month tm) 0 11;
     let tm = tm\<lparr>year := y, month := m\<rparr>;
     let is_leapyear = IS_LEAPYEAR (year tm);
     num_month_days \<leftarrow> tab_get (mdays is_leapyear) (month tm);
     if day tm < num_month_days \<and> day tm \<ge> 0 then Some tm
     else if day tm < 0 then do {
       m \<leftarrow> i64 (month tm - 1);
       d \<leftarrow> tab_get (mdays is_leapyear) (if m < 0 then 11 else m);
       d \<leftarrow> i64 (day tm + d);
       days_to_months (tm\<lparr>day := d, month := m\<rparr>)
     } else do {
       d \<leftarrow> i64 (day tm - num_month_days);
       m \<leftarrow> i64 (month tm + 1);
       days_to_months (tm\<lparr>day := d, month := m\<rparr>)
     }
   }"

declare days_to_months.simps [code]

definition normalize_clock :: "M_time_tm \<Rightarrow> M_time_tm option" where
  "normalize_clock tm = do {
     (mi, s) \<leftarrow> normalize_range (minute tm) (sec tm) 0 59;
     (h, mi) \<leftarrow> normalize_range (hour tm) mi 0 59;
     (d, h) \<leftarrow> normalize_range (day tm) h 0 23;
     Some (tm\<lparr>sec := s, minute := mi, hour := h, day := d\<rparr>)
   }"

definition M_time_normalize_tm :: "M_time_tm \<Rightarrow> M_time_tm option" where
  "M_time_normalize_tm tm = do {
     m \<leftarrow> i64 (month tm - 1);
     d \<leftarrow> i64 (day tm - 1);
     tm \<leftarrow> normalize_clock (tm\<lparr>month := m, day := d\<rparr>);
     (d, y) \<leftarrow> days_to_years (day tm) (year tm);
     tm \<leftarrow> days_to_months (tm\<lparr>day := d, year := y\<rparr>);
     d \<leftarrow> i64 (day tm + 1);
     m \<leftarrow> i64 (month tm + 1);
     Some (tm\<lparr>day := d, month := m, year2 := year tm smod 100\<rparr>)
   }"

section \<open>Seconds since the epoch\<close>

definition wdaymap :: "int list" where
  "wdaymap = [4, 5, 6, 0, 1, 2, 3]"

definition rwdaymap :: "int list" where
  "rwdaymap = [4, 3, 2, 1, 0, 6, 5]"

text \<open>The day of the week for a number of days since the epoch, which was a Thursday.\<close>

definition day_of_week :: "int \<Rightarrow> int option" where
  "day_of_week n =
     (if n < 0 then do { a \<leftarrow> i64 \<bar>n\<bar>; tab_get rwdaymap (a smod 7) } else tab_get wdaymap (n smod 7))"

definition M_time_togm :: "int \<Rightarrow> M_time_tm option" where
  "M_time_togm t = do {
     let tm = \<lparr>month = 0, day = 0, year = 0, year2 = 0, hour = 0, minute = 0, sec = 0, wday = 0, yday = 0,
               isdst = 0, gmtoff = 0, abbr = replicate 32 0\<rparr>;
     let tm = tm\<lparr>yday := t sdiv 86400, sec := t\<rparr>;
     yd \<leftarrow> (if t < 0 \<and> t smod 86400 \<noteq> 0 then i64 (yday tm - 1) else Some (yday tm));
     let tm = tm\<lparr>yday := yd\<rparr>;
     wd \<leftarrow> day_of_week (yday tm);
     let tm = tm\<lparr>wday := wd, year := 1970, day := day tm + 1, month := month tm + 1\<rparr>;
     tm \<leftarrow> M_time_normalize_tm tm;
     yd \<leftarrow> calc_yday tm;
     Some (tm\<lparr>yday := yd\<rparr>)
   }"

text \<open>The loop that brings the year to the epoch: the seconds, for a year.\<close>

function years_to_epoch :: "int \<Rightarrow> int \<Rightarrow> int option" where
  "years_to_epoch s y =
     (if y \<noteq> 1970 then
        if y > 1970 then do {
          y' \<leftarrow> i64 (y - 1);
          s \<leftarrow> i64 (s + 86400 * year_days (IS_LEAPYEAR y'));
          years_to_epoch s y'
        } else do {
          s \<leftarrow> i64 (s - 86400 * year_days (IS_LEAPYEAR y));
          y' \<leftarrow> i64 (y + 1);
          years_to_epoch s y'
        }
      else Some s)"
  by pat_completeness auto

termination
  by (relation "measure (\<lambda>(s, y). nat \<bar>y - 1970\<bar>)") (auto simp: i64_def split: if_splits)

declare years_to_epoch.simps [simp del]

text \<open>
  The members are brought to 0 one after the other in the source; what is left in them is overwritten by
  the conversion at the end.
\<close>

definition M_time_fromgm :: "M_time_tm \<Rightarrow> (int \<times> M_time_tm) option" where
  "M_time_fromgm tm = do {
     tm \<leftarrow> M_time_normalize_tm tm;
     m \<leftarrow> i64 (month tm - 1);
     d \<leftarrow> i64 (day tm - 1);
     d \<leftarrow> mdays_sum (IS_LEAPYEAR (year tm)) (nat m) d;
     d \<leftarrow> i64 (d * 24);
     h \<leftarrow> i64 (hour tm + d);
     h \<leftarrow> i64 (h * 60);
     mi \<leftarrow> i64 (minute tm + h);
     mi \<leftarrow> i64 (mi * 60);
     s \<leftarrow> i64 (sec tm + mi);
     t \<leftarrow> years_to_epoch s (year tm);
     tm \<leftarrow> M_time_togm t;
     Some (t, tm)
   }"

end
