(* ===== verification/M_Time_Spec.thy ===== *)
theory M_Time_Spec
  imports M_Time
begin

text \<open>
  The calendar functions against the proleptic Gregorian calendar: the number of a day is given by
  the closed formula for the days before a year, and each loop of the source keeps it. The bounds on the
  members carry through the loops, so that no sum of the source overflows.
\<close>

section \<open>Numbers of days\<close>

lemma smod_eq_0: "0 < b \<Longrightarrow> a smod b = 0 \<longleftrightarrow> b dvd a" for a b :: int
  by (cases "a = 0") (auto simp: signed_modulo_int_def sgn_if dvd_eq_mod_eq_0 [symmetric])

lemma sdiv_nonneg: "0 \<le> a \<Longrightarrow> 0 < b \<Longrightarrow> a sdiv b = a div b" for a b :: int
  by (simp add: signed_divide_int_def sgn_if)

lemma smod_nonneg: "0 \<le> a \<Longrightarrow> 0 < b \<Longrightarrow> a smod b = a mod b" for a b :: int
  by (cases "a = 0") (simp_all add: signed_modulo_int_def)

lemma IS_LEAPYEAR_dvd: "IS_LEAPYEAR y \<longleftrightarrow> 400 dvd y \<or> \<not> 100 dvd y \<and> 4 dvd y"
  by (simp add: IS_LEAPYEAR_def smod_eq_0)

text \<open>The days before a year of the calendar, and those before a month of a year.\<close>

definition days_before_year :: "int \<Rightarrow> int" where
  "days_before_year y = 365 * (y - 1) + (y - 1) div 4 - (y - 1) div 100 + (y - 1) div 400"

definition days_before_month :: "int \<Rightarrow> int \<Rightarrow> int" where
  "days_before_month y m = sum_list (take (nat m) (mdays (IS_LEAPYEAR y)))"

lemma div_pred: "0 < k \<Longrightarrow> y div k = (y - 1) div k + (if k dvd y then 1 else 0)" for k y :: int
proof -
  assume k: "0 < k"
  define q r where "q = y div k" and "r = y mod k"
  have y: "y = k * q + r" "0 \<le> r" "r < k" using k by (simp_all add: q_def r_def)
  show ?thesis
  proof (cases "k dvd y")
    case True
    then have "r = 0" by (simp add: r_def)
    then have "y - 1 = k * (q - 1) + (k - 1)" unfolding right_diff_distrib using y(1) by linarith
    then have "(y - 1) div k = q - 1" by (rule int_div_pos_eq) (use k in simp_all)
    then show ?thesis using True by (simp add: q_def)
  next
    case False
    then have "r \<noteq> 0" by (simp add: r_def dvd_eq_mod_eq_0)
    then have "y - 1 = k * q + (r - 1)" "0 \<le> r - 1" "r - 1 < k" using y by linarith+
    then have "(y - 1) div k = q" by (rule int_div_pos_eq)
    then show ?thesis using False by (simp add: q_def)
  qed
qed

lemma days_before_next_year: "days_before_year (y + 1) = days_before_year y + year_days (IS_LEAPYEAR y)"
proof -
  define a b c where "a = (y - 1) div 4" and "b = (y - 1) div 100" and "c = (y - 1) div 400"
  define p q r where "p = (4 dvd y)" and "q = (100 dvd y)" and "r = (400 dvd y)"
  have i: "r \<Longrightarrow> q" "q \<Longrightarrow> p" using dvd_trans [of 100 400 y] dvd_trans [of 4 100 y] by (simp_all add: p_def q_def r_def)
  have "y div 4 = a + (if p then 1 else 0)" "y div 100 = b + (if q then 1 else 0)" "y div 400 = c + (if r then 1 else 0)"
    unfolding a_def b_def c_def p_def q_def r_def by (rule div_pred; simp)+
  then have "days_before_year (y + 1) = 365 * y + (a + (if p then 1 else 0)) - (b + (if q then 1 else 0)) + (c + (if r then 1 else 0))"
    by (simp add: days_before_year_def)
  moreover have "days_before_year y = 365 * (y - 1) + a - b + c" by (simp add: days_before_year_def a_def b_def c_def)
  moreover have "year_days (IS_LEAPYEAR y) = (if r \<or> \<not> q \<and> p then 366 else 365)" by (simp add: year_days_def IS_LEAPYEAR_dvd p_def q_def r_def)
  ultimately show ?thesis using i by (cases p; cases q; cases r) simp_all
qed

section \<open>Carries\<close>

lemma i64_bounds:
  "INT64_MIN = - 9223372036854775808" "INT64_MAX = 9223372036854775807"
  "(2::int) ^ 58 = 288230376151711744" "(2::int) ^ 60 = 1152921504606846976" "(2::int) ^ 61 = 2305843009213693952" "(2::int) ^ 62 = 4611686018427387904"
  by (simp_all add: INT64_MIN_def INT64_MAX_def)

lemma i64_Some [simp]: "is_i64 n \<Longrightarrow> i64 n = Some n"
  by (simp add: i64_def)

lemma is_i64_abs: "\<bar>n\<bar> \<le> INT64_MAX \<Longrightarrow> is_i64 n"
  by (auto simp: i64_bounds)

lemma normalize_range_eq:
  assumes "0 \<le> hi" "INT64_MIN + hi < n" "n \<le> INT64_MAX" "hi < 100" "is_i64 (a + n div (hi + 1))"
  shows "normalize_range a n 0 hi = Some (a + n div (hi + 1), n mod (hi + 1))"
proof -
  define k where "k = hi + 1"
  have k: "0 < k" "hi = k - 1" using assms(1) by (simp_all add: k_def)
  show ?thesis
  proof (cases "n < 0")
    case True
    define q r where "q = n div k" and "r = n mod k"
    have n: "n = k * q + r" "0 \<le> r" "r < k" using k by (simp_all add: q_def r_def)
    have "- n + hi = k * (- q) + (k - 1 - r)" "0 \<le> k - 1 - r" "k - 1 - r < k" using n k unfolding mult_minus_right by linarith+
    then have "(- n + hi) div k = - q" "(- n + hi) mod k = k - 1 - r" by (rule int_div_pos_eq, rule int_mod_pos_eq)
    then have "(- n + hi) sdiv k = - q" "(- n + hi) smod k = k - 1 - r" using True assms(1) k by (simp_all add: sdiv_nonneg smod_nonneg)
    moreover have "is_i64 (- n)" "is_i64 (- n + hi)" "is_i64 r"
      by (intro conjI; use True assms(1-4) n(2,3) k in \<open>unfold i64_bounds\<close>; linarith)+
    then have "i64 \<bar>n\<bar> = Some (- n)" "i64 (- n + hi) = Some (- n + hi)" "i64 r = Some r" using True by simp_all
    moreover have "\<not> r > hi" using n(3) k(2) by simp
    moreover have "i64 (a + q) = Some (a + q)" using assms(5) by (simp add: q_def k_def)
    ultimately have "normalize_range a n 0 hi = Some (a + q, r)"
      using True k(2) unfolding normalize_range_def k_def [symmetric] by simp
    then show ?thesis by (simp add: q_def r_def k_def)
  next
    case False
    then show ?thesis using assms by (auto simp: normalize_range_def sdiv_nonneg smod_nonneg)
  qed
qed


text \<open>The clock time in seconds.\<close>

definition clock :: "M_time_tm \<Rightarrow> int" where
  "clock tm = 3600 * hour tm + 60 * minute tm + sec tm"

lemma abs_div_le: "0 < k \<Longrightarrow> \<bar>n\<bar> \<le> k * b \<Longrightarrow> \<bar>n div k\<bar> \<le> b" for n k b :: int
proof -
  assume k: "0 < k" and n: "\<bar>n\<bar> \<le> k * b"
  have "n div k \<le> (k * b) div k" "(k * (- b)) div k \<le> n div k" using n k by (intro zdiv_mono1; simp)+
  moreover have "(k * b) div k = b" "(k * (- b)) div k = - b" using k by (simp_all only: nonzero_mult_div_cancel_left)
  ultimately show ?thesis by simp
qed

lemma normalize_clock_ok:
  assumes "INT64_MIN + 59 < sec tm" "sec tm \<le> INT64_MAX" "\<bar>minute tm\<bar> \<le> 2 ^ 60" "\<bar>hour tm\<bar> \<le> 2 ^ 60" "\<bar>day tm\<bar> \<le> 2 ^ 61"
  shows "\<exists>d h m s. normalize_clock tm = Some (tm\<lparr>day := d, hour := h, minute := m, sec := s\<rparr>) \<and> 0 \<le> h \<and> h < 24 \<and> 0 \<le> m \<and> m < 60 \<and> 0 \<le> s \<and> s < 60 \<and>
    86400 * d + 3600 * h + 60 * m + s = 86400 * day tm + clock tm \<and> \<bar>d\<bar> < 2 ^ 62"
proof -
  define s1 s0 where "s1 = sec tm div 60" and "s0 = sec tm mod 60"
  define m2 where "m2 = minute tm + s1"
  define m1 m0 where "m1 = m2 div 60" and "m0 = m2 mod 60"
  define h2 where "h2 = hour tm + m1"
  define h1 h0 where "h1 = h2 div 24" and "h0 = h2 mod 24"
  have "\<bar>s1\<bar> \<le> 2 ^ 60" unfolding s1_def by (rule abs_div_le) (use assms(1,2) in \<open>auto simp: i64_bounds\<close>)
  then have m2: "\<bar>m2\<bar> \<le> 2 ^ 61" using assms(3) by (simp add: m2_def)
  then have "\<bar>m1\<bar> \<le> 2 ^ 60" unfolding m1_def by (intro abs_div_le) auto
  then have h2: "\<bar>h2\<bar> \<le> 2 ^ 61" using assms(4) by (simp add: h2_def)
  then have "\<bar>h1\<bar> \<le> 2 ^ 60" unfolding h1_def by (intro abs_div_le) auto
  then have d: "\<bar>day tm + h1\<bar> < 2 ^ 62" using assms(5) by simp
  have b: "\<bar>m2\<bar> \<le> INT64_MAX" "\<bar>h2\<bar> \<le> INT64_MAX" "\<bar>day tm + h1\<bar> \<le> INT64_MAX" "INT64_MIN + 59 < m2" "INT64_MIN + 23 < h2"
    using m2 h2 d by (auto simp: i64_bounds)
  have "normalize_range (minute tm) (sec tm) 0 59 = Some (m2, s0)"
    using normalize_range_eq [of 59 "sec tm" "minute tm"] assms(1,2) is_i64_abs [OF b(1)] by (simp add: m2_def s1_def s0_def)
  moreover have "normalize_range (hour tm) m2 0 59 = Some (h2, m0)"
    using normalize_range_eq [of 59 m2 "hour tm"] b(4) is_i64_abs [OF b(1)] is_i64_abs [OF b(2)] by (simp add: h2_def m1_def m0_def)
  moreover have "normalize_range (day tm) h2 0 23 = Some (day tm + h1, h0)"
    using normalize_range_eq [of 23 h2 "day tm"] b(5) is_i64_abs [OF b(2)] is_i64_abs [OF b(3)] by (simp add: h1_def h0_def)
  ultimately have e: "normalize_clock tm = Some (tm\<lparr>day := day tm + h1, hour := h0, minute := m0, sec := s0\<rparr>)"
    by (simp add: normalize_clock_def)
  have "60 * s1 + s0 = sec tm" "60 * m1 + m0 = m2" "24 * h1 + h0 = h2"
    by (simp_all add: s1_def s0_def m1_def m0_def h1_def h0_def)
  then have "86400 * (day tm + h1) + 3600 * h0 + 60 * m0 + s0 = 86400 * day tm + clock tm"
    unfolding clock_def m2_def h2_def by (simp add: algebra_simps)
  moreover have "0 \<le> h0" "h0 < 24" "0 \<le> m0" "m0 < 60" "0 \<le> s0" "s0 < 60" by (simp_all add: s0_def m0_def h0_def)
  ultimately show ?thesis using e d by (intro exI [of _ "day tm + h1"] exI [of _ h0] exI [of _ m0] exI [of _ s0]) simp
qed

lemma year_days_pos: "0 < year_days b" "365 \<le> year_days b"
  by (simp_all add: year_days_def)

lemma days_to_years_step:
  assumes "\<bar>d\<bar> + \<bar>y\<bar> < INT64_MAX"
  defines "n \<equiv> year_days (if d > 0 then IS_LEAPYEAR y else IS_LEAPYEAR (y - 1))"
  shows "days_to_years d y =
    (if \<bar>d\<bar> < n then Some (d, y) else if d < 0 then days_to_years (d + n) (y - 1) else days_to_years (d - n) (y + 1))"
proof -
  have "0 < n" "n \<le> 366" by (simp_all add: n_def year_days_def)
  moreover have "is_i64 (y - 1)" "is_i64 (y + 1)" "is_i64 \<bar>d\<bar>" using assms(1) by (auto simp: i64_bounds)
  moreover have "d < 0 \<Longrightarrow> is_i64 (d + n)" "\<not> d < 0 \<Longrightarrow> is_i64 (d - n)" using assms(1) calculation(1,2) by (auto simp: i64_bounds)
  ultimately show ?thesis by (subst days_to_years.simps) (auto simp: n_def Let_def)
qed

lemma days_to_years_ok:
  "\<bar>d\<bar> + \<bar>y\<bar> < INT64_MAX \<Longrightarrow> \<exists>d' y'. days_to_years d y = Some (d', y') \<and>
    days_before_year y' + d' = days_before_year y + d \<and> \<bar>d'\<bar> < 366 \<and> \<bar>d'\<bar> + \<bar>y'\<bar> \<le> \<bar>d\<bar> + \<bar>y\<bar>"
proof (induction "nat \<bar>d\<bar>" arbitrary: d y rule: less_induct)
  case less
  define n where "n = year_days (if d > 0 then IS_LEAPYEAR y else IS_LEAPYEAR (y - 1))"
  have n: "n \<le> 366" "0 < n" by (simp_all add: n_def year_days_def)
  note step = days_to_years_step [OF less.prems, folded n_def]
  consider "\<bar>d\<bar> < n" | "\<not> \<bar>d\<bar> < n" "d < 0" | "\<not> \<bar>d\<bar> < n" "\<not> d < 0" by blast
  then show ?case
  proof cases
    case 1
    then show ?thesis using n step by simp
  next
    case 2
    have "days_before_year y = days_before_year (y - 1) + n" using days_before_next_year [of "y - 1"] 2 by (simp add: n_def)
    moreover have b: "nat \<bar>d + n\<bar> < nat \<bar>d\<bar>" "\<bar>d + n\<bar> + \<bar>y - 1\<bar> < INT64_MAX" using less.prems 2 n by linarith+
    moreover obtain d' y' where "days_to_years (d + n) (y - 1) = Some (d', y')"
      "days_before_year y' + d' = days_before_year (y - 1) + (d + n)" "\<bar>d'\<bar> < 366" "\<bar>d'\<bar> + \<bar>y'\<bar> \<le> \<bar>d + n\<bar> + \<bar>y - 1\<bar>"
      using less.hyps [of "d + n" "y - 1"] b(1,2) by blast
    ultimately show ?thesis using step 2 n by simp
  next
    case 3
    then have "d > 0" using n(2) by linarith
    then have "days_before_year (y + 1) = days_before_year y + n" using days_before_next_year [of y] by (simp add: n_def)
    moreover have b: "nat \<bar>d - n\<bar> < nat \<bar>d\<bar>" "\<bar>d - n\<bar> + \<bar>y + 1\<bar> < INT64_MAX" using less.prems 3 n by linarith+
    moreover obtain d' y' where "days_to_years (d - n) (y + 1) = Some (d', y')"
      "days_before_year y' + d' = days_before_year (y + 1) + (d - n)" "\<bar>d'\<bar> < 366" "\<bar>d'\<bar> + \<bar>y'\<bar> \<le> \<bar>d - n\<bar> + \<bar>y + 1\<bar>"
      using less.hyps [of "d - n" "y + 1"] b(1,2) by blast
    ultimately show ?thesis using step 3 n by simp
  qed
qed

section \<open>Months\<close>

lemma length_mdays [simp]: "length (mdays b) = 12"
  by (simp add: mdays_def)

lemma mdays_pos: "i < 12 \<Longrightarrow> 28 \<le> mdays b ! i \<and> mdays b ! i \<le> 31"
  by (cases b) (auto simp: mdays_def less_Suc_eq numeral_eq_Suc)

lemma tab_get_mdays: "0 \<le> m \<Longrightarrow> m < 12 \<Longrightarrow> tab_get (mdays b) m = Some (mdays b ! nat m)"
  by (simp add: tab_get_def arr_get_def)

lemma mdays_11: "mdays b ! 11 = 31"
  by (simp add: mdays_def)

lemma days_before_month_0 [simp]: "days_before_month y 0 = 0"
  by (simp add: days_before_month_def)

lemma days_before_next_month:
  "0 \<le> m \<Longrightarrow> m < 12 \<Longrightarrow> days_before_month y (m + 1) = days_before_month y m + mdays (IS_LEAPYEAR y) ! nat m"
  by (simp add: days_before_month_def nat_add_distrib take_Suc_conv_app_nth)

lemma days_before_month_12: "days_before_month y 12 = year_days (IS_LEAPYEAR y)"
  by (simp add: days_before_month_def mdays_def year_days_def)

lemma mdays_sum_bounds: "n \<le> 12 \<Longrightarrow> 0 \<le> sum_list (take n (mdays b)) \<and> sum_list (take n (mdays b)) \<le> 31 * int n"
proof (induction n)
  case (Suc n)
  then show ?case using mdays_pos [of n b] by (auto simp: take_Suc_conv_app_nth)
qed simp

lemma days_before_month_bounds: "0 \<le> m \<Longrightarrow> m \<le> 12 \<Longrightarrow> 0 \<le> days_before_month y m \<and> days_before_month y m \<le> 400"
proof -
  assume "0 \<le> m" "m \<le> 12"
  then have "nat m \<le> 12" "int (nat m) = m" by simp_all
  then show ?thesis using mdays_sum_bounds [of "nat m" "IS_LEAPYEAR y"] \<open>m \<le> 12\<close> unfolding days_before_month_def by linarith
qed

lemma mdays_sum_ok: "n \<le> 12 \<Longrightarrow> \<bar>acc\<bar> \<le> 1000 \<Longrightarrow> mdays_sum b n acc = Some (acc + sum_list (take n (mdays b)))"
proof (induction n)
  case (Suc n)
  have "\<bar>acc + sum_list (take n (mdays b)) + mdays b ! n\<bar> \<le> INT64_MAX"
    using mdays_sum_bounds [of n b] mdays_pos [of n b] Suc.prems by (auto simp: i64_bounds)
  then show ?case using Suc i64_Some [OF is_i64_abs] by (simp add: tab_get_mdays take_Suc_conv_app_nth)
qed simp

text \<open>The number of a day whose month and day count from 0; the month may be out of range.\<close>

definition day_number :: "int \<Rightarrow> int \<Rightarrow> int \<Rightarrow> int" where
  "day_number y m d = days_before_year (y + m div 12) + days_before_month (y + m div 12) (m mod 12) + d"

lemma day_number_carry: "day_number (y + m div 12) (m mod 12) d = day_number y m d"
  by (simp add: day_number_def)

lemma day_number_next:
  assumes "0 \<le> m" "m < 12"
  shows "day_number y (m + 1) (d - mdays (IS_LEAPYEAR y) ! nat m) = day_number y m d"
proof (cases "m = 11")
  case True
  then show ?thesis using days_before_next_month [of 11 y] days_before_month_12 [of y] days_before_next_year [of y]
    by (simp add: day_number_def)
next
  case False
  then have "(m + 1) div 12 = 0" "(m + 1) mod 12 = m + 1" "m div 12 = 0" "m mod 12 = m" using assms by simp_all
  then show ?thesis using assms by (simp add: day_number_def days_before_next_month)
qed

lemma day_number_prev:
  assumes "0 \<le> m" "m < 12"
  shows "day_number y (m - 1) (d + mdays (IS_LEAPYEAR y) ! nat (if m - 1 < 0 then 11 else m - 1)) = day_number y m d"
proof (cases "m = 0")
  case True
  have "day_number (y - 1) 12 (d + 31 - mdays (IS_LEAPYEAR (y - 1)) ! 11) = day_number (y - 1) 11 (d + 31)"
    using day_number_next [of 11 "y - 1" "d + 31"] by simp
  then show ?thesis using True by (simp add: mdays_11 day_number_def)
next
  case False
  then show ?thesis using day_number_next [of "m - 1" y "d + mdays (IS_LEAPYEAR y) ! nat (m - 1)"] assms by simp
qed

lemma days_to_months_step:
  fixes tm :: M_time_tm
  defines "y \<equiv> year tm + month tm div 12" and "m \<equiv> month tm mod 12"
  assumes "INT64_MIN + 11 < month tm" "month tm \<le> INT64_MAX" "is_i64 y" "\<bar>day tm\<bar> < 2 ^ 62 + 2 ^ 61"
  shows "days_to_months tm =
    (if day tm < mdays (IS_LEAPYEAR y) ! nat m \<and> 0 \<le> day tm then Some (tm\<lparr>year := y, month := m\<rparr>)
     else if day tm < 0 then
       days_to_months (tm\<lparr>year := y, day := day tm + mdays (IS_LEAPYEAR y) ! nat (if m - 1 < 0 then 11 else m - 1), month := m - 1\<rparr>)
     else days_to_months (tm\<lparr>year := y, day := day tm - mdays (IS_LEAPYEAR y) ! nat m, month := m + 1\<rparr>))"
proof -
  have m: "0 \<le> m" "m < 12" by (simp_all add: m_def)
  have n: "normalize_range (year tm) (month tm) 0 11 = Some (y, m)"
    using normalize_range_eq [of 11 "month tm" "year tm"] assms(3-5) by (simp add: y_def m_def)
  have i: "i64 (m - 1) = Some (m - 1)" "i64 (m + 1) = Some (m + 1)" using m by (simp_all add: i64_bounds)
  have d: "i64 (day tm + mdays b ! nat k) = Some (day tm + mdays b ! nat k)" "i64 (day tm - mdays b ! nat k) = Some (day tm - mdays b ! nat k)"
    if "0 \<le> k" "k < 12" for b k
  proof -
    have "28 \<le> mdays b ! nat k" "mdays b ! nat k \<le> 31" using mdays_pos [of "nat k" b] that by (simp_all add: nat_less_iff)
    then have "\<bar>day tm + mdays b ! nat k\<bar> \<le> INT64_MAX" "\<bar>day tm - mdays b ! nat k\<bar> \<le> INT64_MAX"
      using assms(6) unfolding i64_bounds by linarith+
    then show "i64 (day tm + mdays b ! nat k) = Some (day tm + mdays b ! nat k)" "i64 (day tm - mdays b ! nat k) = Some (day tm - mdays b ! nat k)"
      by (simp_all add: is_i64_abs)
  qed
  show ?thesis using m n i by (subst days_to_months.simps) (auto simp: Let_def tab_get_mdays d)
qed

text \<open>The loop ends with a day of a month, which has the same number.\<close>

definition date_ok :: "M_time_tm \<Rightarrow> bool" where
  "date_ok tm \<longleftrightarrow> 0 \<le> month tm \<and> month tm < 12 \<and> 0 \<le> day tm \<and> day tm < mdays (IS_LEAPYEAR (year tm)) ! nat (month tm)"

definition months_left :: "int \<Rightarrow> nat" where
  "months_left d = (if d < 0 then nat (- d) + 31 else nat d)"

lemma days_to_months_ok:
  assumes "\<bar>month tm\<bar> \<le> 2 ^ 61" "\<bar>year tm\<bar> + \<bar>month tm div 12\<bar> + int (months_left (day tm)) < 2 ^ 62 + 2 ^ 61"
  shows "\<exists>y m d. days_to_months tm = Some (tm\<lparr>year := y, month := m, day := d\<rparr>) \<and> date_ok (tm\<lparr>year := y, month := m, day := d\<rparr>) \<and>
    day_number y m d = day_number (year tm) (month tm) (day tm)"
  using assms
proof (induction "months_left (day tm)" arbitrary: tm rule: less_induct)
  case less
  define y m n where "y = year tm + month tm div 12" and "m = month tm mod 12" and "n = mdays (IS_LEAPYEAR y) ! nat m"
  have m: "0 \<le> m" "m < 12" by (simp_all add: m_def)
  have num: "day_number (year tm) (month tm) (day tm) = day_number y m (day tm)" by (simp add: y_def m_def day_number_carry)
  have y: "\<bar>y\<bar> + int (months_left (day tm)) < 2 ^ 62 + 2 ^ 61" using less.prems(2) unfolding y_def by linarith
  have "\<bar>day tm\<bar> \<le> int (months_left (day tm))" by (simp add: months_left_def)
  then have b: "INT64_MIN + 11 < month tm" "month tm \<le> INT64_MAX" "is_i64 y" "\<bar>day tm\<bar> < 2 ^ 62 + 2 ^ 61"
    using less.prems(1) y unfolding i64_bounds by (linarith, linarith, (intro conjI; linarith), linarith)
  note step = days_to_months_step [of tm, folded y_def m_def, folded n_def, OF b]
  have n: "28 \<le> n" "n \<le> 31" using mdays_pos [of "nat m" "IS_LEAPYEAR y"] m by (simp_all add: n_def)
  have carry: "\<bar>m - 1\<bar> \<le> 2 ^ 61" "\<bar>m + 1\<bar> \<le> 2 ^ 61" "\<bar>(m - 1) div 12\<bar> \<le> 1" "\<bar>(m + 1) div 12\<bar> \<le> 1"
    using m by (auto intro!: abs_div_le)
  consider "0 \<le> day tm" "day tm < n" | "day tm < 0" | "n \<le> day tm" by linarith
  then show ?case
  proof cases
    case 1
    moreover have "tm\<lparr>year := y, month := m, day := day tm\<rparr> = tm\<lparr>year := y, month := m\<rparr>" by (cases tm) simp
    ultimately show ?thesis using step num m by (intro exI [of _ y] exI [of _ m] exI [of _ "day tm"]) (simp add: date_ok_def n_def)
  next
    case 2
    define k where "k = mdays (IS_LEAPYEAR y) ! nat (if m - 1 < 0 then 11 else m - 1)"
    have "nat (if m - 1 < 0 then 11 else m - 1) < 12" using m by (auto simp: nat_less_iff)
    then have k: "28 \<le> k" "k \<le> 31" unfolding k_def using mdays_pos by blast+
    have "days_to_months tm = days_to_months (tm\<lparr>year := y, day := day tm + k, month := m - 1\<rparr>)"
      using step 2 by (simp add: k_def)
    moreover have "day_number y (m - 1) (day tm + k) = day_number y m (day tm)" unfolding k_def by (rule day_number_prev [OF m])
    moreover have "months_left (day tm + k) < months_left (day tm)" using 2 k by (auto simp: months_left_def)
    ultimately show ?thesis using less.hyps [of "tm\<lparr>year := y, day := day tm + k, month := m - 1\<rparr>"] 2 num y carry by simp
  next
    case 3
    then have "days_to_months tm = days_to_months (tm\<lparr>year := y, day := day tm - n, month := m + 1\<rparr>)" using step n by auto
    moreover have "day_number y (m + 1) (day tm - n) = day_number y m (day tm)" unfolding n_def by (rule day_number_next [OF m])
    moreover have "months_left (day tm - n) < months_left (day tm)" using 3 n by (auto simp: months_left_def)
    ultimately show ?thesis using less.hyps [of "tm\<lparr>year := y, day := day tm - n, month := m + 1\<rparr>"] 3 n num y carry by simp
  qed
qed

section \<open>Normalization\<close>

text \<open>The seconds from the epoch to a broken-down time, whose members may be out of range.\<close>

definition gm_seconds :: "M_time_tm \<Rightarrow> int" where
  "gm_seconds tm = 86400 * (day_number (year tm) (month tm - 1) (day tm - 1) - days_before_year 1970) + clock tm"

text \<open>A time all of whose members are in range.\<close>

definition gm_ok :: "M_time_tm \<Rightarrow> bool" where
  "gm_ok tm \<longleftrightarrow> M_time_is_valid_day (year tm) (month tm) (day tm) = Some True \<and>
     0 \<le> hour tm \<and> hour tm < 24 \<and> 0 \<le> minute tm \<and> minute tm < 60 \<and> 0 \<le> sec tm \<and> sec tm < 60"

lemma valid_day_iff:
  "M_time_is_valid_day y m d = Some True \<longleftrightarrow> 1 \<le> m \<and> m \<le> 12 \<and> 1 \<le> d \<and> d \<le> mdays (IS_LEAPYEAR y) ! nat (m - 1)"
  using mdays_pos [of "nat (m - 1)" "IS_LEAPYEAR y"]
  by (auto simp: M_time_is_valid_day_def M_time_days_in_month_def tab_get_mdays)

text \<open>The day, counting from 0, with the days that the clock carries over.\<close>

definition carried_day :: "M_time_tm \<Rightarrow> int" where
  "carried_day tm = day tm - 1 + clock tm div 86400"

text \<open>Members that are far enough from the limits of their type.\<close>

definition members_ok :: "M_time_tm \<Rightarrow> bool" where
  "members_ok tm \<longleftrightarrow> INT64_MIN + 59 < sec tm \<and> sec tm \<le> INT64_MAX \<and> \<bar>minute tm\<bar> \<le> 2 ^ 60 \<and> \<bar>hour tm\<bar> \<le> 2 ^ 60 \<and>
     \<bar>day tm\<bar> \<le> 2 ^ 60 \<and> \<bar>month tm\<bar> \<le> 2 ^ 60 \<and> \<bar>year tm\<bar> \<le> 2 ^ 60"

lemma members_pred:
  assumes "members_ok tm"
  shows "i64 (month tm - 1) = Some (month tm - 1)" "i64 (day tm - 1) = Some (day tm - 1)"
    "\<bar>day tm - 1\<bar> \<le> 2 ^ 61" "\<bar>month tm - 1\<bar> \<le> 2 ^ 61" "\<bar>(month tm - 1) div 12\<bar> \<le> 2 ^ 58"
proof -
  have b: "\<bar>day tm\<bar> \<le> 2 ^ 60" "\<bar>month tm\<bar> \<le> 2 ^ 60" using assms by (simp_all add: members_ok_def)
  then have l: "\<bar>day tm - 1\<bar> \<le> INT64_MAX" "\<bar>month tm - 1\<bar> \<le> INT64_MAX" unfolding i64_bounds by linarith+
  show "i64 (month tm - 1) = Some (month tm - 1)" "i64 (day tm - 1) = Some (day tm - 1)" by (rule i64_Some, rule is_i64_abs, rule l)+
  show "\<bar>day tm - 1\<bar> \<le> 2 ^ 61" "\<bar>month tm - 1\<bar> \<le> 2 ^ 61" using b unfolding i64_bounds by linarith+
  show "\<bar>(month tm - 1) div 12\<bar> \<le> 2 ^ 58" by (rule abs_div_le) (use b in \<open>unfold i64_bounds, linarith+\<close>)
qed

lemma normalize_ok:
  assumes "month tm = 1 \<or> \<bar>carried_day tm\<bar> < 365" "members_ok tm"
  shows "\<exists>y m d h mi s. M_time_normalize_tm tm =
      Some (tm\<lparr>year := y, month := m, day := d, hour := h, minute := mi, sec := s, year2 := y smod 100\<rparr>) \<and>
    gm_ok (tm\<lparr>year := y, month := m, day := d, hour := h, minute := mi, sec := s, year2 := y smod 100\<rparr>) \<and>
    gm_seconds (tm\<lparr>year := y, month := m, day := d, hour := h, minute := mi, sec := s, year2 := y smod 100\<rparr>) = gm_seconds tm"
proof -
  define t0 where "t0 = tm\<lparr>month := month tm - 1, day := day tm - 1\<rparr>"
  note b = members_pred [OF assms(2)]
  have yb: "\<bar>year tm\<bar> \<le> 2 ^ 60" using assms(2) by (simp only: members_ok_def)
  obtain d1 h mi s where c: "normalize_clock t0 = Some (t0\<lparr>day := d1, hour := h, minute := mi, sec := s\<rparr>)"
    "0 \<le> h" "h < 24" "0 \<le> mi" "mi < 60" "0 \<le> s" "s < 60" "86400 * d1 + 3600 * h + 60 * mi + s = 86400 * day t0 + clock t0" "\<bar>d1\<bar> < 2 ^ 62"
    using normalize_clock_ok [of t0] assms(2) b(3) by (auto simp: t0_def members_ok_def)
  have "clock t0 = 86400 * (d1 - day t0) + (3600 * h + 60 * mi + s)" using c(8) unfolding right_diff_distrib by linarith
  then have "clock t0 div 86400 = d1 - day t0" by (rule int_div_pos_eq) (use c(2-7) in linarith)+
  then have d1: "carried_day tm = d1" by (simp add: carried_day_def t0_def clock_def)
  have s1: "\<bar>d1\<bar> + \<bar>year tm\<bar> < INT64_MAX" using c(9) yb unfolding i64_bounds by linarith
  obtain d2 y2 where y2: "days_to_years d1 (year tm) = Some (d2, y2)"
    "days_before_year y2 + d2 = days_before_year (year tm) + d1" "\<bar>d2\<bar> < 366" "\<bar>d2\<bar> + \<bar>y2\<bar> \<le> \<bar>d1\<bar> + \<bar>year tm\<bar>"
    using days_to_years_ok [OF s1] by blast
  have num: "day_number y2 (month tm - 1) d2 = day_number (year tm) (month tm - 1) d1"
  proof (cases "month tm = 1")
    case True
    then show ?thesis using y2(2) by (simp add: day_number_def)
  next
    case False
    then have "\<bar>d1\<bar> < year_days x" for x using assms(1) d1 year_days_pos(2) [of x] by linarith
    then have "days_to_years d1 (year tm) = Some (d1, year tm)" using days_to_years_step [OF s1] by simp
    then show ?thesis using y2(1) by simp
  qed
  define t1 where "t1 = t0\<lparr>day := d1, hour := h, minute := mi, sec := s\<rparr>\<lparr>day := d2, year := y2\<rparr>"
  have "int (months_left d2) \<le> 400" using y2(3) by (auto simp: months_left_def)
  moreover have "\<bar>y2\<bar> \<le> \<bar>d2\<bar> + \<bar>y2\<bar>" by simp
  ultimately have "\<bar>y2\<bar> + \<bar>(month tm - 1) div 12\<bar> + int (months_left d2) < 2 ^ 62 + 2 ^ 61"
    using add_mono [OF y2(4) b(5)] yb c(9) unfolding i64_bounds by linarith
  then obtain y m d where f: "days_to_months t1 = Some (t1\<lparr>year := y, month := m, day := d\<rparr>)" "date_ok (t1\<lparr>year := y, month := m, day := d\<rparr>)"
    "day_number y m d = day_number y2 (month tm - 1) d2" using days_to_months_ok [of t1] b(4) by (auto simp: t1_def t0_def)
  have "0 \<le> d" "d < 31" "0 \<le> m" "m < 12"
    using f(2) mdays_pos [of "nat m" "IS_LEAPYEAR y"] by (auto simp: date_ok_def nat_less_iff)
  then have r: "i64 (d + 1) = Some (d + 1)" "i64 (m + 1) = Some (m + 1)" by (simp_all add: i64_bounds)
  let ?r = "tm\<lparr>year := y, month := m + 1, day := d + 1, hour := h, minute := mi, sec := s, year2 := y smod 100\<rparr>"
  have "M_time_normalize_tm tm = Some ?r"
    using c(1) y2(1) f(1) b(1,2) r by (cases tm) (simp add: M_time_normalize_tm_def t0_def t1_def)
  moreover have "gm_ok ?r" using f(2) c(2-7) by (simp add: gm_ok_def valid_day_iff date_ok_def)
  moreover have "gm_seconds ?r = gm_seconds tm"
    using f(3) num c(8) by (simp add: gm_seconds_def clock_def day_number_def t0_def)
  ultimately show ?thesis by blast
qed

section \<open>Epoch\<close>

lemma days_before_year_mono: "y < y' \<Longrightarrow> days_before_year y + year_days (IS_LEAPYEAR y) \<le> days_before_year y'"
proof (induction y' rule: int_gr_induct [of y])
  case (step i)
  then show ?case using days_before_next_year [of i] year_days_pos(1) [of "IS_LEAPYEAR i"] by simp
qed (use days_before_next_year [of y] in simp_all)

lemma days_before_year_le: "y \<le> y' \<Longrightarrow> days_before_year y \<le> days_before_year y'"
  using days_before_year_mono [of y y'] year_days_pos(1) [of "IS_LEAPYEAR y"] by (cases "y = y'") auto

text \<open>The seconds grow or shrink towards the result in every round.\<close>

lemma years_to_epoch_eq:
  assumes "is_i64 s" "is_i64 y" "is_i64 (s + 86400 * (days_before_year y - days_before_year 1970))"
  shows "years_to_epoch s y = Some (s + 86400 * (days_before_year y - days_before_year 1970))"
  using assms
proof (induction "nat \<bar>y - 1970\<bar>" arbitrary: s y rule: less_induct)
  case less
  define r where "r = s + 86400 * (days_before_year y - days_before_year 1970)"
  have y: "i64 (y + 1) = Some (y + 1)" if "y < 1970" using less.prems(2) that by (simp add: i64_def i64_bounds)
  have y': "i64 (y - 1) = Some (y - 1)" if "1970 < y" using less.prems(2) that by (simp add: i64_def i64_bounds)
  consider "y = 1970" | "1970 < y" | "y < 1970" by linarith
  then show ?case
  proof cases
    case 1
    then show ?thesis by (simp add: years_to_epoch.simps)
  next
    case 2
    define n where "n = year_days (IS_LEAPYEAR (y - 1))"
    have n: "days_before_year y = days_before_year (y - 1) + n" "0 < n" using days_before_next_year [of "y - 1"] year_days_pos(1) by (simp_all add: n_def)
    have "days_before_year 1970 \<le> days_before_year (y - 1)" using 2 by (intro days_before_year_le) simp
    moreover have r: "r = s + 86400 * n + 86400 * (days_before_year (y - 1) - days_before_year 1970)"
      unfolding r_def n(1) by (simp add: right_diff_distrib distrib_left)
    ultimately have "s + 86400 * n \<le> r" "s \<le> s + 86400 * n" using n(2) by simp_all
    then have s: "is_i64 (s + 86400 * n)" using less.prems(1,3) unfolding r_def [symmetric] by linarith
    then have "years_to_epoch s y = years_to_epoch (s + 86400 * n) (y - 1)"
      using 2 y' by (subst years_to_epoch.simps) (simp add: n_def)
    moreover have "is_i64 (y - 1)" using less.prems(2) 2 by (simp add: i64_bounds)
    ultimately show ?thesis using less.hyps [of "y - 1" "s + 86400 * n"] 2 less.prems(3)
      s unfolding r [symmetric] r_def [symmetric] by auto
  next
    case 3
    define n where "n = year_days (IS_LEAPYEAR y)"
    have n: "days_before_year (y + 1) = days_before_year y + n" "0 < n" using days_before_next_year [of y] year_days_pos(1) by (simp_all add: n_def)
    have "days_before_year (y + 1) \<le> days_before_year 1970" using 3 by (intro days_before_year_le) simp
    moreover have r: "r = s - 86400 * n + 86400 * (days_before_year (y + 1) - days_before_year 1970)"
      unfolding r_def n(1) by (simp add: right_diff_distrib distrib_left)
    ultimately have "r \<le> s - 86400 * n" "s - 86400 * n \<le> s" using n(2) by simp_all
    then have s: "is_i64 (s - 86400 * n)" using less.prems(1,3) unfolding r_def [symmetric] by linarith
    then have "years_to_epoch s y = years_to_epoch (s - 86400 * n) (y + 1)"
      using 3 y by (subst years_to_epoch.simps) (simp add: n_def)
    moreover have "is_i64 (y + 1)" using less.prems(2) 3 by (simp add: i64_bounds)
    ultimately show ?thesis using less.hyps [of "y + 1" "s - 86400 * n"] 3 less.prems(3)
      s unfolding r [symmetric] r_def [symmetric] by auto
  qed
qed

lemma day_of_week_eq: "INT64_MIN < n \<Longrightarrow> day_of_week n = Some ((4 + n) mod 7)"
proof -
  assume n: "INT64_MIN < n"
  have rw: "tab_get rwdaymap k = Some ((4 - k) mod 7)" and w: "tab_get wdaymap k = Some ((4 + k) mod 7)" if "0 \<le> k" "k < 7" for k
  proof -
    have "k = 0 \<or> k = 1 \<or> k = 2 \<or> k = 3 \<or> k = 4 \<or> k = 5 \<or> k = 6" using that by linarith
    then show "tab_get rwdaymap k = Some ((4 - k) mod 7)" "tab_get wdaymap k = Some ((4 + k) mod 7)"
      by (auto simp: tab_get_def arr_get_def rwdaymap_def wdaymap_def)
  qed
  show ?thesis
  proof (cases "n < 0")
    case True
    have "(4 - (- n) mod 7) mod 7 = (4 + n) mod 7" by (simp add: mod_diff_right_eq)
    moreover have "(- n) smod 7 = (- n) mod 7" using smod_nonneg [of "- n" 7] True by simp
    moreover have "i64 \<bar>n\<bar> = Some (- n)" using n True by (simp add: i64_def i64_bounds)
    ultimately show ?thesis using True rw [of "(- n) mod 7"] by (simp add: day_of_week_def)
  next
    case False
    have "(4 + n mod 7) mod 7 = (4 + n) mod 7" by (rule mod_add_right_eq)
    then show ?thesis using False w [of "n mod 7"] by (simp add: smod_nonneg day_of_week_def)
  qed
qed

lemma floor_div: "0 < k \<Longrightarrow> (if t < 0 \<and> t smod k \<noteq> 0 then t sdiv k - 1 else t sdiv k) = t div k" for t k :: int
proof (cases "t < 0")
  case True
  assume k: "0 < k"
  define q r where "q = (- t) div k" and "r = (- t) mod k"
  have t: "- t = k * q + r" "0 \<le> r" "r < k" using k by (simp_all add: q_def r_def)
  have sd: "t sdiv k = - q" using True k by (simp add: signed_divide_int_def q_def sgn_if)
  have z: "t smod k = 0 \<longleftrightarrow> r = 0" using smod_eq_0 [OF k, of t] by (simp add: r_def dvd_eq_mod_eq_0 [symmetric])
  show ?thesis
  proof (cases "r = 0")
    case True
    then have "t = k * (- q) + 0" using t(1) by simp
    then have "t div k = - q" by (rule int_div_pos_eq) (use k in simp_all)
    then show ?thesis using True sd z by simp
  next
    case False
    then have "t = k * (- q - 1) + (k - r)" "0 \<le> k - r" "k - r < k" using t unfolding right_diff_distrib mult_minus_right by linarith+
    then have "t div k = - q - 1" by (rule int_div_pos_eq)
    then show ?thesis using False \<open>t < 0\<close> sd z by simp
  qed
qed (simp add: sdiv_nonneg)

text \<open>What \<open>M_time_togm\<close> normalizes.\<close>

definition epoch_tm :: "int \<Rightarrow> M_time_tm" where
  "epoch_tm t = \<lparr>month = 1, day = 1, year = 1970, year2 = 0, hour = 0, minute = 0, sec = t, wday = (4 + t div 86400) mod 7,
     yday = t div 86400, isdst = 0, gmtoff = 0, abbr = replicate 32 0\<rparr>"

lemma togm_eq:
  assumes "is_i64 t"
  shows "M_time_togm t = do { tm \<leftarrow> M_time_normalize_tm (epoch_tm t); yd \<leftarrow> calc_yday tm; Some (tm\<lparr>yday := yd\<rparr>) }"
proof -
  have "\<bar>t div 86400\<bar> \<le> 2 ^ 60" by (rule abs_div_le) (use assms in \<open>auto simp: i64_bounds\<close>)
  then have q: "is_i64 (t div 86400)" "INT64_MIN < t div 86400" by (auto simp: i64_bounds)
  have e: "(4 + t div 86400) mod 7 = wday (epoch_tm t)" by (simp add: epoch_tm_def)
  show ?thesis
  proof (cases "t < 0 \<and> t smod 86400 \<noteq> 0")
    case True
    then have "t sdiv 86400 = t div 86400 + 1" using floor_div [of 86400 t] by simp
    then show ?thesis using True q day_of_week_eq [OF q(2)] by (simp add: M_time_togm_def epoch_tm_def)
  next
    case False
    then have "t sdiv 86400 = t div 86400" using floor_div [of 86400 t] by (simp only: if_False)
    moreover have "(t < 0 \<and> t smod 86400 \<noteq> 0) = False" using False by blast
    ultimately show ?thesis unfolding M_time_togm_def using day_of_week_eq [OF q(2)]
      by (simp only: if_False Let_def) (simp add: epoch_tm_def)
  qed
qed

lemma calc_yday_eq:
  assumes "gm_ok tm"
  shows "calc_yday tm = Some (days_before_month (year tm) (month tm - 1) + day tm - 1)"
proof -
  have b: "1 \<le> month tm" "month tm \<le> 12" "1 \<le> day tm" "day tm \<le> 31"
    using assms mdays_pos [of "nat (month tm - 1)" "IS_LEAPYEAR (year tm)"] by (auto simp: gm_ok_def valid_day_iff nat_less_iff)
  then have "0 \<le> days_before_month (year tm) (month tm - 1)" "days_before_month (year tm) (month tm - 1) \<le> 400"
    using days_before_month_bounds [of "month tm - 1" "year tm"] by auto
  then show ?thesis using b by (simp add: calc_yday_def mdays_sum_ok days_before_month_def [symmetric] i64_def i64_bounds)
qed

lemma togm_ok:
  assumes "INT64_MIN + 59 < t" "t \<le> INT64_MAX"
  shows "\<exists>tm. M_time_togm t = Some tm \<and> gm_ok tm \<and> gm_seconds tm = t \<and> wday tm = (4 + t div 86400) mod 7 \<and>
    yday tm = days_before_month (year tm) (month tm - 1) + day tm - 1"
proof -
  let ?t = "epoch_tm t"
  have "members_ok ?t" using assms by (simp add: members_ok_def epoch_tm_def)
  then obtain y m d h mi s where n: "M_time_normalize_tm ?t = Some (?t\<lparr>year := y, month := m, day := d, hour := h, minute := mi, sec := s, year2 := y smod 100\<rparr>)"
    "gm_ok (?t\<lparr>year := y, month := m, day := d, hour := h, minute := mi, sec := s, year2 := y smod 100\<rparr>)"
    "gm_seconds (?t\<lparr>year := y, month := m, day := d, hour := h, minute := mi, sec := s, year2 := y smod 100\<rparr>) = gm_seconds ?t"
    using normalize_ok [of ?t] by (auto simp: epoch_tm_def)
  define tm where "tm = ?t\<lparr>year := y, month := m, day := d, hour := h, minute := mi, sec := s, year2 := y smod 100\<rparr>"
  have 1: "gm_ok tm" "gm_seconds tm = t" using n by (simp_all add: tm_def) (simp add: gm_seconds_def epoch_tm_def day_number_def clock_def)
  have "is_i64 t" using assms by (simp add: i64_bounds)
  then have "M_time_togm t = Some (tm\<lparr>yday := days_before_month (year tm) (month tm - 1) + day tm - 1\<rparr>)"
    using n(1) calc_yday_eq [OF 1(1)] by (simp add: togm_eq tm_def)
  then show ?thesis using 1 by (auto simp: gm_ok_def gm_seconds_def clock_def tm_def epoch_tm_def)
qed


text \<open>The members of a time that is in range are determined by its seconds.\<close>

lemma days_before_month_mono:
  "m < m' \<Longrightarrow> 0 \<le> m \<Longrightarrow> m' \<le> 12 \<Longrightarrow> days_before_month y m + mdays (IS_LEAPYEAR y) ! nat m \<le> days_before_month y m'"
proof (induction m' rule: int_gr_induct [of m])
  case (step i)
  then show ?case using days_before_next_month [of i y] mdays_pos [of "nat i" "IS_LEAPYEAR y"] by (simp add: nat_less_iff)
qed (use days_before_next_month [of m y] in simp_all)

lemma date_unique:
  assumes "0 \<le> m" "m < 12" "0 \<le> d" "d < mdays (IS_LEAPYEAR y) ! nat m"
    "0 \<le> m'" "m' < 12" "0 \<le> d'" "d' < mdays (IS_LEAPYEAR y') ! nat m'" "day_number y m d = day_number y' m' d'"
  shows "y = y' \<and> m = m' \<and> d = d'"
proof -
  have n: "days_before_year y + days_before_month y m + d = days_before_year y' + days_before_month y' m' + d'"
    using assms(9) assms(1,2,5,6) by (simp add: day_number_def)
  have lo: "0 \<le> days_before_month y m" if "0 \<le> m" "m < 12" for y m
  proof (cases "m = 0")
    case False
    then show ?thesis using days_before_month_mono [of 0 m y] that mdays_pos [of 0 "IS_LEAPYEAR y"] by simp
  qed simp
  have hi: "days_before_month y m + mdays (IS_LEAPYEAR y) ! nat m \<le> year_days (IS_LEAPYEAR y)" if "0 \<le> m" "m < 12" for y m
    using days_before_month_mono [of m 12 y] days_before_month_12 [of y] that by simp
  have "y = y'"
  proof (rule ccontr)
    assume "y \<noteq> y'"
    then show False using days_before_year_mono [of y y'] days_before_year_mono [of y' y] n assms
        lo [of m y] lo [of m' y'] hi [of m y] hi [of m' y'] by linarith
  qed
  moreover have "m = m'"
  proof (rule ccontr)
    assume "m \<noteq> m'"
    then show False using days_before_month_mono [of m m' y] days_before_month_mono [of m' m y] n \<open>y = y'\<close> assms by (cases "m < m'") auto
  qed
  ultimately show ?thesis using n by simp
qed

lemma clock_unique:
  assumes "0 \<le> h" "h < 24" "0 \<le> m" "m < 60" "0 \<le> s" "s < (60::int)" "0 \<le> h'" "h' < 24" "0 \<le> m'" "m' < 60" "0 \<le> s'" "s' < 60"
    "3600 * h + 60 * m + s = 3600 * h' + 60 * m' + s'"
  shows "h = h' \<and> m = m' \<and> s = s'"
proof -
  have "h = h'" using assms by linarith
  then have "m = m'" using assms by linarith
  then show ?thesis using \<open>h = h'\<close> assms by linarith
qed

text \<open>Two times with the same calendar and clock members.\<close>

definition same_time :: "M_time_tm \<Rightarrow> M_time_tm \<Rightarrow> bool" where
  "same_time tm tm' \<longleftrightarrow> year tm = year tm' \<and> month tm = month tm' \<and> day tm = day tm' \<and>
     hour tm = hour tm' \<and> minute tm = minute tm' \<and> sec tm = sec tm'"

lemma clock_bounds: "gm_ok tm \<Longrightarrow> 0 \<le> clock tm \<and> clock tm < 86400"
  unfolding gm_ok_def clock_def by linarith

lemma gm_seconds_unique:
  assumes "gm_ok tm" "gm_ok tm'" "gm_seconds tm = gm_seconds tm'"
  shows "same_time tm tm'"
proof -
  define n n' where "n = day_number (year tm) (month tm - 1) (day tm - 1)" and "n' = day_number (year tm') (month tm' - 1) (day tm' - 1)"
  have e: "86400 * n + clock tm = 86400 * n' + clock tm'" using assms(3) by (simp add: gm_seconds_def n_def n'_def)
  have c: "0 \<le> clock tm" "clock tm < 86400" "0 \<le> clock tm'" "clock tm' < 86400"
    using clock_bounds assms(1,2) by blast+
  then have "n = n'" using e by linarith
  then have "year tm = year tm' \<and> month tm - 1 = month tm' - 1 \<and> day tm - 1 = day tm' - 1"
    using assms(1,2) unfolding n_def n'_def by (intro date_unique) (auto simp: gm_ok_def valid_day_iff)
  moreover have "hour tm = hour tm' \<and> minute tm = minute tm' \<and> sec tm = sec tm'"
    using assms(1,2) e \<open>n = n'\<close> by (intro clock_unique) (auto simp: gm_ok_def clock_def)
  ultimately show ?thesis by (simp add: same_time_def)
qed

lemma gm_ok_carried: "gm_ok tm \<Longrightarrow> \<bar>carried_day tm\<bar> < 365"
proof -
  assume ok: "gm_ok tm"
  then have "carried_day tm = day tm - 1" using clock_bounds [OF ok] by (simp add: carried_day_def)
  then show ?thesis using ok mdays_pos [of "nat (month tm - 1)" "IS_LEAPYEAR (year tm)"] by (auto simp: gm_ok_def valid_day_iff nat_less_iff)
qed

text \<open>The year of a time whose seconds fit.\<close>

lemma days_before_year_bound: "365 * \<bar>y - 1\<bar> \<le> \<bar>days_before_year y\<bar>"
proof -
  define x where "x = y - 1"
  have "if 0 \<le> x then x div 100 \<le> x div 4 \<and> 0 \<le> x div 400 else x div 4 \<le> x div 100 \<and> x div 400 < 0"
    using zdiv_mono2 [of x 4 100] zdiv_mono2_neg [of x 4 100] by (auto simp: pos_imp_zdiv_neg_iff)
  then have "if 0 \<le> x then 365 * x \<le> days_before_year y else days_before_year y \<le> 365 * x"
    by (auto simp: days_before_year_def x_def [symmetric] split: if_splits)
  then show ?thesis unfolding x_def [symmetric] by (auto split: if_splits)
qed

lemma gm_ok_members:
  assumes "gm_ok tm" "is_i64 (gm_seconds tm)"
  shows "members_ok tm"
proof -
  define n where "n = days_before_month (year tm) (month tm - 1) + day tm - 1"
  have b: "1 \<le> month tm" "month tm \<le> 12" "1 \<le> day tm" "day tm \<le> 31"
    using assms(1) mdays_pos [of "nat (month tm - 1)" "IS_LEAPYEAR (year tm)"] by (auto simp: gm_ok_def valid_day_iff nat_less_iff)
  then have n: "0 \<le> n" "n \<le> 1000"
    using days_before_month_bounds [of "month tm - 1" "year tm"] by (auto simp: n_def)
  have "gm_seconds tm = 86400 * (days_before_year (year tm) + n - days_before_year 1970) + clock tm"
    using b by (simp add: gm_seconds_def day_number_def n_def)
  moreover have "days_before_year 1970 = 719162" by (simp add: days_before_year_def)
  ultimately have "gm_seconds tm = 86400 * days_before_year (year tm) + 86400 * n - 62135596800 + clock tm" by simp
  then have "\<bar>days_before_year (year tm)\<bar> \<le> 2 ^ 58"
    using assms(2) clock_bounds [OF assms(1)] n unfolding i64_bounds by linarith
  then have "365 * \<bar>year tm - 1\<bar> \<le> 365 * (2 ^ 58)" using days_before_year_bound [of "year tm"] by simp
  then have "\<bar>year tm - 1\<bar> \<le> 2 ^ 58" by (simp only: mult_le_cancel_left_pos zero_less_numeral)
  then have y: "\<bar>year tm\<bar> \<le> 2 ^ 60" unfolding i64_bounds by linarith
  have "INT64_MIN + 59 < sec tm" "sec tm \<le> INT64_MAX" "\<bar>minute tm\<bar> \<le> 2 ^ 60" "\<bar>hour tm\<bar> \<le> 2 ^ 60" "\<bar>day tm\<bar> \<le> 2 ^ 60" "\<bar>month tm\<bar> \<le> 2 ^ 60"
    using b assms(1) by (simp_all add: gm_ok_def i64_bounds)
  then show ?thesis using y by (simp only: members_ok_def)
qed

lemma fromgm_ok:
  assumes "month tm = 1 \<or> \<bar>carried_day tm\<bar> < 365" "members_ok tm" "INT64_MIN + 59 < gm_seconds tm" "gm_seconds tm \<le> INT64_MAX"
  shows "\<exists>tm'. M_time_togm (gm_seconds tm) = Some tm' \<and> M_time_fromgm tm = Some (gm_seconds tm, tm')"
proof -
  obtain y m d h mi s where n: "M_time_normalize_tm tm = Some (tm\<lparr>year := y, month := m, day := d, hour := h, minute := mi, sec := s, year2 := y smod 100\<rparr>)"
    "gm_ok (tm\<lparr>year := y, month := m, day := d, hour := h, minute := mi, sec := s, year2 := y smod 100\<rparr>)"
    "gm_seconds (tm\<lparr>year := y, month := m, day := d, hour := h, minute := mi, sec := s, year2 := y smod 100\<rparr>) = gm_seconds tm"
    using normalize_ok [OF assms(1,2)] by blast
  define x where "x = days_before_month y (m - 1)"
  have b: "1 \<le> m" "m \<le> 12" "1 \<le> d" "d \<le> 31" "0 \<le> h" "h < 24" "0 \<le> mi" "mi < 60" "0 \<le> s" "s < 60"
    using n(2) mdays_pos [of "nat (m - 1)" "IS_LEAPYEAR y"] by (auto simp: gm_ok_def valid_day_iff nat_less_iff)
  then have x: "0 \<le> x" "x \<le> 400"
    using days_before_month_bounds [of "m - 1" y] by (auto simp: x_def)
  have sum: "mdays_sum (IS_LEAPYEAR y) (nat (m - 1)) (d - 1) = Some (d - 1 + x)"
    using b by (simp add: mdays_sum_ok x_def days_before_month_def)
  define r where "r = s + (mi + (h + (d - 1 + x) * 24) * 60) * 60"
  have r: "0 \<le> r" "r \<le> 10 ^ 9" using b x by (simp_all add: r_def)
  have g: "gm_seconds tm = r + 86400 * (days_before_year y - days_before_year 1970)"
    using n(3) b by (simp add: gm_seconds_def clock_def day_number_def r_def x_def algebra_simps)
  have "is_i64 (gm_seconds tm)" using assms(3,4) by (simp add: i64_bounds)
  then have "members_ok (tm\<lparr>year := y, month := m, day := d, hour := h, minute := mi, sec := s, year2 := y smod 100\<rparr>)"
    using gm_ok_members [OF n(2)] n(3) by simp
  then have "is_i64 y" using is_i64_abs [of y] by (simp add: members_ok_def i64_bounds)
  then have "years_to_epoch r y = Some (gm_seconds tm)"
    using years_to_epoch_eq [of r y] r g assms(3,4) by (simp add: i64_bounds)
  moreover obtain tm' where "M_time_togm (gm_seconds tm) = Some tm'" using togm_ok [OF assms(3,4)] by blast
  moreover have "i64 k = Some k" if "0 \<le> k" "k \<le> 10 ^ 9" for k using that by (simp add: i64_def i64_bounds)
  ultimately show ?thesis using n(1) sum b x r by (simp add: M_time_fromgm_def r_def)
qed

section \<open>Properties\<close>





text \<open>
  C40. The two conversions are inverse to each other: what a number of seconds is converted to
  converts back to it, and a time whose members are in range comes back with the same calendar and
  clock members. In both directions the seconds have to fit \<open>M_int64\<close> and must not be among the least 60
  values.
\<close>

theorem M_time_gm_roundtrip:
  assumes "INT64_MIN + 60 \<le> t" "t \<le> INT64_MAX" "gm_ok tm" "INT64_MIN + 60 \<le> gm_seconds tm" "gm_seconds tm \<le> INT64_MAX"
  shows "(\<exists>tm. M_time_togm t = Some tm \<and> M_time_fromgm tm = Some (t, tm)) \<and>
    (\<exists>tm'. M_time_fromgm tm = Some (gm_seconds tm, tm') \<and> same_time tm tm')"
proof -
  have *: "\<exists>tm'. M_time_togm (gm_seconds tm) = Some tm' \<and> M_time_fromgm tm = Some (gm_seconds tm, tm')"
    if "gm_ok tm" "INT64_MIN + 60 \<le> gm_seconds tm" "gm_seconds tm \<le> INT64_MAX" for tm
    using fromgm_ok gm_ok_carried [OF that(1)] gm_ok_members [OF that(1)] that(2,3) by auto
  have t: "INT64_MIN + 59 < t" "INT64_MIN + 59 < gm_seconds tm" using assms(1,4) by simp_all
  show ?thesis using * togm_ok [OF t(1) assms(2)] * [OF assms(3-5)] togm_ok [OF t(2) assms(5)] gm_seconds_unique [OF assms(3)] assms(1,2)
    by (metis option.inject)
qed

theorem M_time_gm_roundtrip_witness:
  "(\<exists>tm. M_time_togm (- 1) = Some tm \<and> M_time_fromgm tm = Some (- 1, tm)) \<and>
   (\<exists>tm'. M_time_fromgm \<lparr>month = 2, day = 29, year = 2020, year2 = 20, hour = 23, minute = 59, sec = 59, wday = 6, yday = 59,
      isdst = 0, gmtoff = 0, abbr = []\<rparr> = Some (1583020799, tm') \<and> day tm' = 29)"
proof -
  let ?tm = "\<lparr>month = 2, day = 29, year = 2020, year2 = 20, hour = 23, minute = 59, sec = 59, wday = 6, yday = 59,
      isdst = 0, gmtoff = 0, abbr = []\<rparr>"
  have "gm_seconds ?tm = 1583020799" by code_simp
  moreover have "gm_ok ?tm" by code_simp
  ultimately show ?thesis using M_time_gm_roundtrip [of "- 1" ?tm] by (auto simp: same_time_def i64_bounds)
qed

text \<open>
  The loop that turns days into years takes the days of the year in which a time is, which are those
  to the same date of the next year only for January and February: 366 days after the first of March
  2019 is the second of March 2020 for the source, a day late.
\<close>

lemma M_time_fromgm_year_of_days:
  "map_option fst (M_time_fromgm \<lparr>month = 3, day = 367, year = 2019, year2 = 0, hour = 0, minute = 0, sec = 0, wday = 0,
     yday = 0, isdst = 0, gmtoff = 0, abbr = []\<rparr>) = Some 1583107200"
  "gm_seconds \<lparr>month = 3, day = 367, year = 2019, year2 = 0, hour = 0, minute = 0, sec = 0, wday = 0,
     yday = 0, isdst = 0, gmtoff = 0, abbr = []\<rparr> = 1583020800"
  by code_simp+

end
