(* ===== verification/Spec2Isabelle.thy ===== *)
theory Spec2Isabelle
  imports Bithacks Chr M_List_Spec M_Rand M_LList_Spec M_Hashtable_Spec M_Base64_Spec M_Cache_Spec M_Utf8_Spec M_Time_Spec
begin

text \<open>
  A verification development of the base library of mstdlib, a C library of data structures and
  utilities. All paths below are under \<^verbatim>\<open>src/base\<close>.

  \<^bold>\<open>The program.\<close> The library is layered. At the bottom are routines without state: bit tricks,
  character classes, comparison callbacks, sorting and searching, random numbers, hash functions,
  binary encodings, UTF-8 and the calendar. The containers are built on them: the growable list uses the
  binary search and the sorts, the sorted linked list is a skip list with random levels, the hash table
  hashes its keys with a random seed, can keep its keys in order and can keep a growable list of values
  per key. The cache joins a hash table and a linked list.

  \<^bold>\<open>Theories.\<close> Each component has a theory that models it, with the names of the source, and theories
  that prove it correct: \<open>_Ok\<close> has the invariant and the internal operations, \<open>_Spec\<close> the contracts of
  the public ones.
  \<^item> \<open>M_Prelude\<close>: C integers, \<open>size_t\<close>, null pointers, blocks of memory.
  \<^item> \<open>Bithacks\<close> (\<^verbatim>\<open>math/m_bithacks.c\<close>): rounding to powers of two, logarithms and population counts
    at their widths against arithmetic on numbers.
  \<^item> \<open>Chr\<close> (\<^verbatim>\<open>data/m_chr.c\<close>): the character classes.
  \<^item> \<open>Sort_Compar\<close>, \<open>Sort\<close>, \<open>Qsort\<close> (\<^verbatim>\<open>sort/\<close>): the comparison callbacks, with the locale
    \<open>compar_contract\<close> interpreted for each of them; merge sort is the stable sort, quick sort sorts, binary
    search finds a match if there is one and otherwise the place to insert.
  \<^item> \<open>M_List\<close>, \<open>M_List_Ok\<close>, \<open>M_List_Spec\<close> (\<^verbatim>\<open>list/m_list.c\<close>): an array with unused space on
    both sides; its abstract value is the list of the elements. Growing, moving and the index conversion
    of stacks stay within the block; sorted lists stay sorted and sets stay sets.
  \<^item> \<open>M_Rand\<close> (\<^verbatim>\<open>math/m_rand.c\<close>): xoshiro256** and splitmix64; a draw from a range is in the range.
  \<^item> \<open>M_LList\<close>, \<open>M_LList_Ok\<close>, \<open>M_LList_Spec\<close> (\<^verbatim>\<open>list/m_llist.c\<close>): nodes in an explicit
    store; the operations of an unsorted list, circular or not, are operations on the sequence of its
    nodes. The skip list is modelled without a correctness proof.
  \<^item> \<open>M_Hash_Func\<close>, \<open>M_Hashtable\<close>, \<open>M_Hashtable_Ok\<close>, \<open>M_Hashtable_Spec\<close>
    (\<^verbatim>\<open>hash/m_hash_func.c\<close>, \<^verbatim>\<open>hash/m_hashtable.c\<close>): FNV1a; a table with one value per key is a
    finite map up to the equality callback, through insertion, rehashing, removal and duplication. The
    locales \<open>hash_contract\<close> and \<open>hash_callbacks\<close> are what the table asks of its callbacks, \<open>map_store\<close> is
    what it promises. Tables with several values per key and ordered keys are modelled without a
    correctness proof.
  \<^item> \<open>M_Bincodec\<close>, \<open>M_Bincodec_Spec\<close>, \<open>M_Base64_Spec\<close> (\<^verbatim>\<open>bincodec/\<close>): hexadecimal, base 64 and
    base 32. The locale \<open>line_writer\<close> is a writer that breaks lines, which both round trips use.
  \<^item> \<open>Simulation\<close>, \<open>M_Cache\<close>, \<open>M_Cache_Spec\<close> (\<^verbatim>\<open>cache/m_cache.c\<close>): every sequence of operations of
    the cache gives the results of a list of pairs from which the one that was used least recently drops
    out.
  \<^item> \<open>M_Utf8\<close>, \<open>M_Utf8_Ok\<close>, \<open>M_Utf8_Spec\<close> (\<^verbatim>\<open>utf8/m_utf8.c\<close>): the decoder accepts exactly the
    reference encoding, which the encoder writes; validation, counting and access by index follow.
  \<^item> \<open>M_Time\<close>, \<open>M_Time_Spec\<close> (\<^verbatim>\<open>time/m_time_gm.c\<close>): the conversions between seconds and calendar
    time against the closed formula of the Gregorian calendar.

  \<^bold>\<open>Conventions.\<close> A struct is a record with its fields, a set of flags a set of the constants. A handle
  is the record it points to, so the early returns for a null handle have no counterpart; a null pointer
  among the values is \<open>0\<close> or \<open>None\<close>. A block of memory is a list whose accesses give \<open>None\<close> outside of it,
  so a theorem that an operation gives \<open>Some\<close> says that it stays within its memory. Allocation succeeds:
  the source aborts when it does not. Words keep their width; \<open>size_t\<close> is a natural number with the
  wrap-around of 64 bits written out where the source can reach it. Callbacks are functions of the
  model, and what they must satisfy is a hypothesis or a locale. The calls of the callbacks that free are
  recorded in a trace, which is what the theorems about destruction count.

  \<^bold>\<open>Loops.\<close> A loop is a recursive function with a termination proof where it ends for every state of the
  model. Where it need not, such as the walk along the links of a list, the draw of a random number below
  a bound or the days of a month, it is a \<open>partial_function\<close> whose result \<open>None\<close> also means that it does
  not end; the contracts give \<open>Some\<close> and with it termination. No loop is bounded by fuel.

  \<^bold>\<open>Not modelled.\<close> The wrappers that only fix the callbacks of a container for strings, integers or binary
  values; buffers, parsers, bit buffers, the queue, the state machine, command-line options and the
  parts of the string functions that no other model calls; decimal numbers, as far as they use floating
  point; the tables of character properties of UTF-8; time zones. The allocator, the file system, the
  platform layer, threads, the event loop and everything above it (networking, TLS, SQL, logging, the file
  formats, regular expressions) are outside of the base library or consist of calls to the operating
  system and to other libraries.
\<close>

end
